(* ===== verification/Prelude.thy ===== *)
theory Prelude
  imports Main "HOL-Library.Word"
begin

text \<open>
  Shared by every theory of the development: the collections of rewrite rules the component
  proofs use, counting over lists of threads, the error-checking macros of the \<open>common.h\<close>
  files, and the functions of \<open>string.h\<close> and \<open>stdlib.h\<close> the programs call.
\<close>

named_theorems cnt_simps \<open>how counting over a list of threads changes when one thread moves\<close>

section \<open>Counting threads\<close>

text \<open>Threads are kept in a list, one entry per thread; \<open>cnt P ts\<close> of them satisfy \<open>P\<close>.\<close>

definition cnt :: "('t \<Rightarrow> bool) \<Rightarrow> 't list \<Rightarrow> nat" where
  "cnt P ts = length (filter P ts)"

lemma cnt_Nil [simp]: "cnt P [] = 0"
  by (simp add: cnt_def)

lemma cnt_Cons [simp]: "cnt P (t # ts) = (if P t then Suc (cnt P ts) else cnt P ts)"
  by (simp add: cnt_def)

lemma cnt_append [simp]: "cnt P (ts @ us) = cnt P ts + cnt P us"
  by (simp add: cnt_def)

lemma cnt_replicate [simp]: "cnt P (replicate n t) = (if P t then n else 0)"
  by (induction n) simp_all

lemma cnt_le_length: "cnt P ts \<le> length ts"
  by (simp add: cnt_def)

lemma cnt_update_bal:
  "i < length ts \<Longrightarrow>
   cnt P (ts[i := t]) + (if P (ts ! i) then 1 else 0) = cnt P ts + (if P t then 1 else 0)"
proof (induction ts arbitrary: i)
  case (Cons u us)
  show ?case
  proof (cases i)
    case (Suc k)
    with Cons.prems have "k < length us" by simp
    from Cons.IH [OF this] Suc show ?thesis by simp
  qed simp
qed simp

lemma cnt_pos: "i < length ts \<Longrightarrow> P (ts ! i) \<Longrightarrow> 0 < cnt P ts"
  by (auto simp: cnt_def length_greater_0_conv filter_empty_conv)

lemma cnt_update_same [cnt_simps]:
  "i < length ts \<Longrightarrow> P (ts ! i) = P t \<Longrightarrow> cnt P (ts[i := t]) = cnt P ts"
  using cnt_update_bal [of i ts P t] by (auto split: if_splits)

lemma cnt_update_in [cnt_simps]:
  "i < length ts \<Longrightarrow> \<not> P (ts ! i) \<Longrightarrow> P t \<Longrightarrow> cnt P (ts[i := t]) = Suc (cnt P ts)"
  using cnt_update_bal [of i ts P t] by simp

lemma cnt_update_out [cnt_simps]:
  "i < length ts \<Longrightarrow> P (ts ! i) \<Longrightarrow> \<not> P t \<Longrightarrow> cnt P (ts[i := t]) = cnt P ts - 1"
  using cnt_update_bal [of i ts P t] by simp

lemma cnt_mono: "(\<And>t. t \<in> set ts \<Longrightarrow> P t \<Longrightarrow> Q t) \<Longrightarrow> cnt P ts \<le> cnt Q ts"
  by (induction ts) (auto simp: le_SucI)

lemma cnt_zero_iff: "cnt P ts = 0 \<longleftrightarrow> (\<forall>t\<in>set ts. \<not> P t)"
  by (auto simp: cnt_def filter_empty_conv)

lemma cnt_all: "(\<And>t. t \<in> set ts \<Longrightarrow> P t) \<Longrightarrow> cnt P ts = length ts"
  by (induction ts) auto

text \<open>At most one thread satisfies \<open>P\<close>: two positions that do are the same position.\<close>

lemma cnt_le1_unique:
  assumes "cnt P ts \<le> 1" and "i < length ts" and "j < length ts"
    and "P (ts ! i)" and "P (ts ! j)"
  shows "i = j"
proof (rule ccontr)
  assume "i \<noteq> j"
  let ?us = "ts[i := undefined]"
  have "card {k. k < length ts \<and> P (ts ! k)} = cnt P ts"
    by (simp add: cnt_def length_filter_conv_card)
  moreover have "card {i, j} \<le> card {k. k < length ts \<and> P (ts ! k)}"
    by (rule card_mono) (use assms in auto)
  ultimately show False using \<open>i \<noteq> j\<close> assms(1) by simp
qed

text \<open>
  When thread \<open>i\<close> moves, every other thread keeps its local state; if \<open>i\<close> was the only one
  satisfying \<open>P\<close>, no other does.
\<close>

lemma set_update_cases:
  assumes "u \<in> set (ts[i := t])" and "i < length ts"
  obtains "u = t" | j where "j < length ts" and "j \<noteq> i" and "u = ts ! j"
  using assms by (auto simp: in_set_conv_nth nth_list_update split: if_splits)

lemma others_not_unique:
  assumes "u \<in> set (ts[i := t])" and "i < length ts" and "cnt P ts \<le> 1" and "P (ts ! i)"
  shows "u = t \<or> u \<in> set ts \<and> \<not> P u"
  using assms(1,2)
proof (cases rule: set_update_cases)
  case (2 j)
  with cnt_le1_unique [OF assms(3) _ assms(2) _ assms(4)] have "\<not> P u" by blast
  with 2 show ?thesis by simp
qed simp

lemma others_unchanged: "u \<in> set (ts[i := t]) \<Longrightarrow> u = t \<or> u \<in> set ts"
  using set_update_subset_insert [of ts i t] by auto

section \<open>The error-checking macros of common.h\<close>

text \<open>
  \<open>ERROR_HELPER(ret, msg)\<close> ends the process when \<open>ret < 0\<close>, \<open>PTHREAD_ERROR_HELPER\<close>
  when \<open>ret \<noteq> 0\<close>; both print \<open>msg\<close> first. A straight-line sequence of calls, each
  followed by one of the macros, is the list of its checks; it is run on the return values of
  the calls, and stops at the first check that fires.
\<close>

datatype check = ERROR_HELPER string | PTHREAD_ERROR_HELPER string

fun check_fires :: "check \<Rightarrow> int \<Rightarrow> bool" where
  "check_fires (ERROR_HELPER m) ret = (ret < 0)"
| "check_fires (PTHREAD_ERROR_HELPER m) ret = (ret \<noteq> 0)"

fun check_msg :: "check \<Rightarrow> string" where
  "check_msg (ERROR_HELPER m) = m"
| "check_msg (PTHREAD_ERROR_HELPER m) = m"

text \<open>
  \<open>Startup_exit m\<close>: the process printed \<open>m\<close> and exited with \<open>EXIT_FAILURE\<close>;
  \<open>Startup_done rest\<close>: every call succeeded, \<open>rest\<close> are the return values not looked at;
  \<open>Startup_pending\<close>: the next call of the sequence has not returned.
\<close>

datatype startup = Startup_exit string | Startup_pending | Startup_done "int list"

fun run_checks :: "check list \<Rightarrow> int list \<Rightarrow> startup" where
  "run_checks [] rets = Startup_done rets"
| "run_checks (c # cs) [] = Startup_pending"
| "run_checks (c # cs) (ret # rets) =
     (if check_fires c ret then Startup_exit (check_msg c) else run_checks cs rets)"

lemma run_checks_ok:
  "list_all2 (\<lambda>c r. \<not> check_fires c r) cs rets \<Longrightarrow>
   run_checks (cs @ ds) (rets @ rest) = run_checks ds rest"
  by (induction rule: list_all2_induct) auto

lemma run_checks_done_iff:
  "run_checks cs rets = Startup_done rest \<longleftrightarrow>
   (\<exists>rs. rets = rs @ rest \<and> list_all2 (\<lambda>c r. \<not> check_fires c r) cs rs)"
proof (induction cs rets rule: run_checks.induct)
  case (3 c cs ret rets)
  then show ?case
    by (auto simp: Cons_eq_append_conv list_all2_Cons1)
qed (auto simp: list_all2_Cons1)

lemma run_checks_exit_iff:
  "run_checks cs rets = Startup_exit m \<longleftrightarrow>
   (\<exists>cs1 c cs2 rs r rest. cs = cs1 @ c # cs2 \<and> rets = rs @ r # rest \<and>
      list_all2 (\<lambda>c r. \<not> check_fires c r) cs1 rs \<and> check_fires c r \<and> m = check_msg c)"
proof (induction cs rets rule: run_checks.induct)
  case (3 c cs ret rets)
  show ?case
  proof (cases "check_fires c ret")
    case True
    then show ?thesis
      by (auto simp: Cons_eq_append_conv list_all2_Cons1 list_all2_Cons2 intro!: exI [of _ "[]"])
  next
    case False
    have "(\<exists>cs1 d cs2 rs r rest. c # cs = cs1 @ d # cs2 \<and> ret # rets = rs @ r # rest \<and>
        list_all2 (\<lambda>c r. \<not> check_fires c r) cs1 rs \<and> check_fires d r \<and> m = check_msg d) \<longleftrightarrow>
      (\<exists>cs1 d cs2 rs r rest. cs = cs1 @ d # cs2 \<and> rets = rs @ r # rest \<and>
        list_all2 (\<lambda>c r. \<not> check_fires c r) cs1 rs \<and> check_fires d r \<and> m = check_msg d)"
      (is "?L \<longleftrightarrow> ?R")
    proof
      assume ?L
      with False show ?R
        by (clarsimp simp: Cons_eq_append_conv list_all2_Cons1) blast
    next
      assume ?R
      then obtain cs1 d cs2 rs r rest where "cs = cs1 @ d # cs2" "rets = rs @ r # rest"
        "list_all2 (\<lambda>c r. \<not> check_fires c r) cs1 rs" "check_fires d r" "m = check_msg d" by blast
      with False show ?L
        by (intro exI [of _ "c # cs1"] exI [of _ d] exI [of _ cs2] exI [of _ "ret # rs"]) simp
    qed
    with False "3.IH" show ?thesis by simp
  qed
qed auto

end
