(* ===== verification/Ring_Machine.thy ===== *)
theory Ring_Machine
  imports Prelude
begin

text \<open>
  The machine on which the circular-buffer programs run: the four producer/consumer programs
  of lab05 and the logger of lab11 (\<open>ES-MT-Logger\<close>). It interleaves producer and consumer threads at the
  granularity of one semaphore call or one access to a shared variable per step. What a
  program contributes is the body of its two \<open>while (1)\<close> loops, as lists of these
  statements (theories \<open>Producer_Consumer\<close> and later ones), what it produces, how it consumes
  an item, and the number of threads. The locale \<open>ring_program\<close> states what the two bodies
  must look like; inside it the buffer is shown to be a lossless bounded FIFO.
\<close>

section \<open>Statements of the two thread bodies\<close>

text \<open>
  \<open>transactions[write_index] = x\<close> reads \<open>write_index\<close> (\<open>P_load_slot\<close>) and stores
  the item (\<open>P_store_slot\<close>); \<open>write_index = (write_index + 1) % BUFFER_SIZE\<close> is a load
  and a store too (\<open>P_load_idx\<close>, \<open>P_store_idx\<close>), and so are the consumer's statements
  and \<open>deposit += x\<close> (\<open>C_load_dep\<close>, \<open>C_store_dep\<close>).
\<close>

datatype plabel = P_produce | P_wait_empty | P_wait_mutex | P_load_slot | P_store_slot
  | P_load_idx | P_store_idx | P_post_mutex | P_post_fill

datatype clabel = C_wait_fill | C_wait_mutex | C_load_slot | C_load_item | C_load_dep
  | C_store_dep | C_load_idx | C_store_idx | C_print | C_post_mutex | C_free | C_post_empty

text \<open>A thread is at one statement of its body, with the values of its local variables.\<close>

record 'a pthread =
  plab :: plabel
  pcur :: 'a  \<comment> \<open>the item it is about to write\<close>
  preg :: nat  \<comment> \<open>the index it has just read\<close>

record ('a, 'b) cthread =
  clab :: clabel
  citem :: 'a
  cidx :: nat
  cdep :: 'b

text \<open>
  A program: loop bodies, size of the buffer, the value made from the environment's input
  \<open>'r\<close> (a call of \<open>rand()\<close>, the argument of \<open>my_log\<close>), the effect of an item on
  the consumer's accumulator (the deposit, the log file).
\<close>

record ('r, 'a, 'b) prog =
  producer_body :: "plabel list"
  consumer_body :: "clabel list"
  bufsize :: nat
  produce :: "'r \<Rightarrow> 'a"
  consume :: "'a \<Rightarrow> 'b \<Rightarrow> 'b"

text \<open>
  The shared globals. The last three fields are history variables that no statement reads:
  the items in the order in which their slots were published, taken out, and consumed.
\<close>

record ('a, 'b) ring =
  transactions :: "'a list"
  fill_count :: nat
  empty_count :: nat
  read_mutex :: nat
  write_mutex :: nat
  read_index :: nat
  write_index :: nat
  deposit :: 'b
  printed :: "'b list"
  prods :: "'a pthread list"
  cons :: "('a, 'b) cthread list"
  exited :: "string option"
  written :: "'a list"
  taken :: "'a list"
  consumed :: "'a list"

text \<open>The statement after \<open>l\<close> in a loop body; after the last one the loop starts again.\<close>

definition next_in :: "'l list \<Rightarrow> 'l \<Rightarrow> 'l" where
  "next_in body l = (case dropWhile (\<lambda>x. x \<noteq> l) body of _ # l' # _ \<Rightarrow> l' | _ \<Rightarrow> hd body)"

section \<open>One statement of one thread\<close>

text \<open>
  \<open>None\<close>: the thread cannot move, it waits on a semaphore whose value is 0 (or it does not
  exist). \<open>sem_wait\<close> decrements, \<open>sem_post\<close> increments.
\<close>

definition exec_producer ::
    "('r, 'a, 'b) prog \<Rightarrow> nat \<Rightarrow> 'r \<Rightarrow> ('a, 'b) ring \<Rightarrow> ('a, 'b) ring option" where
  "exec_producer pr i r s =
    (if i < length (prods s) then
      (let t = prods s ! i;
           t' = t\<lparr>plab := next_in (producer_body pr) (plab t)\<rparr>;
           go = s\<lparr>prods := (prods s)[i := t']\<rparr>
       in case plab t of
         P_produce \<Rightarrow> Some (s\<lparr>prods := (prods s)[i := t'\<lparr>pcur := produce pr r\<rparr>]\<rparr>)
       | P_wait_empty \<Rightarrow>
           if empty_count s = 0 then None else Some (go\<lparr>empty_count := empty_count s - 1\<rparr>)
       | P_wait_mutex \<Rightarrow>
           if write_mutex s = 0 then None else Some (go\<lparr>write_mutex := write_mutex s - 1\<rparr>)
       | P_load_slot \<Rightarrow> Some (s\<lparr>prods := (prods s)[i := t'\<lparr>preg := write_index s\<rparr>]\<rparr>)
       | P_store_slot \<Rightarrow> Some (go\<lparr>transactions := (transactions s)[preg t := pcur t]\<rparr>)
       | P_load_idx \<Rightarrow> Some (s\<lparr>prods := (prods s)[i := t'\<lparr>preg := write_index s\<rparr>]\<rparr>)
       | P_store_idx \<Rightarrow> Some (go\<lparr>write_index := (preg t + 1) mod bufsize pr,
                                   written := written s @ [pcur t]\<rparr>)
       | P_post_mutex \<Rightarrow> Some (go\<lparr>write_mutex := write_mutex s + 1\<rparr>)
       | P_post_fill \<Rightarrow> Some (go\<lparr>fill_count := fill_count s + 1\<rparr>))
     else None)"

definition exec_consumer ::
    "('r, 'a, 'b) prog \<Rightarrow> nat \<Rightarrow> ('a, 'b) ring \<Rightarrow> ('a, 'b) ring option" where
  "exec_consumer pr j s =
    (if j < length (cons s) then
      (let t = cons s ! j;
           t' = t\<lparr>clab := next_in (consumer_body pr) (clab t)\<rparr>;
           go = s\<lparr>cons := (cons s)[j := t']\<rparr>
       in case clab t of
         C_wait_fill \<Rightarrow>
           if fill_count s = 0 then None else Some (go\<lparr>fill_count := fill_count s - 1\<rparr>)
       | C_wait_mutex \<Rightarrow>
           if read_mutex s = 0 then None else Some (go\<lparr>read_mutex := read_mutex s - 1\<rparr>)
       | C_load_slot \<Rightarrow> Some (s\<lparr>cons := (cons s)[j := t'\<lparr>cidx := read_index s\<rparr>]\<rparr>)
       | C_load_item \<Rightarrow>
           Some (s\<lparr>cons := (cons s)[j := t'\<lparr>citem := transactions s ! cidx t\<rparr>]\<rparr>)
       | C_load_dep \<Rightarrow> Some (s\<lparr>cons := (cons s)[j := t'\<lparr>cdep := deposit s\<rparr>]\<rparr>)
       | C_store_dep \<Rightarrow> Some (go\<lparr>deposit := consume pr (citem t) (cdep t),
                                   consumed := consumed s @ [citem t]\<rparr>)
       | C_load_idx \<Rightarrow> Some (s\<lparr>cons := (cons s)[j := t'\<lparr>cidx := read_index s\<rparr>]\<rparr>)
       | C_store_idx \<Rightarrow> Some (go\<lparr>read_index := (cidx t + 1) mod bufsize pr,
                                   taken := taken s @ [citem t]\<rparr>)
       | C_print \<Rightarrow> Some (if read_index s mod 10 = 0
                           then go\<lparr>printed := printed s @ [deposit s]\<rparr> else go)
       | C_post_mutex \<Rightarrow> Some (go\<lparr>read_mutex := read_mutex s + 1\<rparr>)
       | C_free \<Rightarrow> Some go
       | C_post_empty \<Rightarrow> Some (go\<lparr>empty_count := empty_count s + 1\<rparr>))
     else None)"

text \<open>
  A semaphore call may also fail (\<open>sem_wait\<close> interrupted by a signal, for one): then
  \<open>ERROR_HELPER\<close> prints a message and ends the whole process.
\<close>

fun pfail_msg :: "plabel \<Rightarrow> string option" where
  "pfail_msg P_wait_empty = Some ''Wait on empty_count failed''"
| "pfail_msg P_wait_mutex = Some ''Wait on write_mutex failed''"
| "pfail_msg P_post_mutex = Some ''Post on write_mutex failed''"
| "pfail_msg P_post_fill = Some ''Post on fill_count failed''"
| "pfail_msg _ = None"

fun cfail_msg :: "clabel \<Rightarrow> string option" where
  "cfail_msg C_wait_fill = Some ''Wait on fill_count failed''"
| "cfail_msg C_wait_mutex = Some ''Wait on read_mutex failed''"
| "cfail_msg C_post_mutex = Some ''Post on read_mutex failed''"
| "cfail_msg C_post_empty = Some ''Post on empty_count failed''"
| "cfail_msg _ = None"

datatype 'r event = Prod nat 'r | Cons nat | Prod_fails nat | Cons_fails nat

definition exit_with :: "string option \<Rightarrow> ('a, 'b) ring \<Rightarrow> ('a, 'b) ring option" where
  "exit_with m s = (case m of None \<Rightarrow> None | Some msg \<Rightarrow> Some (s\<lparr>exited := Some msg\<rparr>))"

definition exec :: "('r, 'a, 'b) prog \<Rightarrow> 'r event \<Rightarrow> ('a, 'b) ring \<Rightarrow> ('a, 'b) ring option" where
  "exec pr ev s =
    (if exited s \<noteq> None then None
     else case ev of
       Prod i r \<Rightarrow> exec_producer pr i r s
     | Cons j \<Rightarrow> exec_consumer pr j s
     | Prod_fails i \<Rightarrow>
         if i < length (prods s) then exit_with (pfail_msg (plab (prods s ! i))) s else None
     | Cons_fails j \<Rightarrow>
         if j < length (cons s) then exit_with (cfail_msg (clab (cons s ! j))) s else None)"

text \<open>Running a schedule; reachable states.\<close>

fun run :: "('r, 'a, 'b) prog \<Rightarrow> 'r event list \<Rightarrow> ('a, 'b) ring \<Rightarrow> ('a, 'b) ring option" where
  "run pr [] s = Some s"
| "run pr (ev # evs) s = (case exec pr ev s of None \<Rightarrow> None | Some s' \<Rightarrow> run pr evs s')"

inductive reachable :: "('r, 'a, 'b) prog \<Rightarrow> ('a, 'b) ring \<Rightarrow> ('a, 'b) ring \<Rightarrow> bool"
  for pr s0 where
  start: "reachable pr s0 s0"
| step: "reachable pr s0 s \<Longrightarrow> exec pr ev s = Some s' \<Longrightarrow> reachable pr s0 s'"

inductive_cases reachable_cases: "reachable pr s0 s"

lemma run_reachable: "reachable pr s0 s \<Longrightarrow> run pr evs s = Some s' \<Longrightarrow> reachable pr s0 s'"
  by (induction evs arbitrary: s) (auto split: option.splits intro: reachable.step)

end
