(* ===== verification/Ring_Contract.thy ===== *)
theory Ring_Contract
  imports Ring_Machine "HOL-Library.Sublist"
begin

text \<open>
  The contract of a circular-buffer program on the machine of \<open>Ring_Machine\<close>, and what follows
  from it: the locale \<open>ring_program\<close>, its invariant \<open>ring_inv\<close>, and the bounded-FIFO,
  mutual-exclusion and progress lemmas. The programs interpret the locale.
\<close>

section \<open>What the two loop bodies must look like\<close>

text \<open>
  The consumer updates its accumulator in one of three places: before it advances
  \<open>read_index\<close>, within the critical section (\<open>In_lock\<close>: the programs with many consumers);
  after it has posted \<open>empty_count\<close> (\<open>After_post\<close>: the programs with one); between the two
  (\<open>Before_post\<close>: the logger, which then frees the item).
\<close>

datatype shape = In_lock | After_post | Before_post

fun prod_next :: "bool \<Rightarrow> plabel \<Rightarrow> plabel" where
  "prod_next mx P_produce = P_wait_empty"
| "prod_next mx P_wait_empty = (if mx then P_wait_mutex else P_load_slot)"
| "prod_next mx P_wait_mutex = P_load_slot"
| "prod_next mx P_load_slot = P_store_slot"
| "prod_next mx P_store_slot = P_load_idx"
| "prod_next mx P_load_idx = P_store_idx"
| "prod_next mx P_store_idx = (if mx then P_post_mutex else P_post_fill)"
| "prod_next mx P_post_mutex = P_post_fill"
| "prod_next mx P_post_fill = P_produce"

fun cons_next :: "shape \<Rightarrow> bool \<Rightarrow> clabel \<Rightarrow> clabel" where
  "cons_next sh mx C_wait_fill = (if mx then C_wait_mutex else C_load_slot)"
| "cons_next sh mx C_wait_mutex = C_load_slot"
| "cons_next sh mx C_load_slot = C_load_item"
| "cons_next sh mx C_load_item = (if sh = In_lock then C_load_dep else C_load_idx)"
| "cons_next sh mx C_load_dep = C_store_dep"
| "cons_next sh mx C_store_dep =
     (case sh of In_lock \<Rightarrow> C_load_idx | After_post \<Rightarrow> C_print | Before_post \<Rightarrow> C_free)"
| "cons_next sh mx C_load_idx = C_store_idx"
| "cons_next sh mx C_store_idx =
     (case sh of In_lock \<Rightarrow> C_print | After_post \<Rightarrow> C_post_empty | Before_post \<Rightarrow> C_load_dep)"
| "cons_next sh mx C_print =
     (if sh = In_lock then (if mx then C_post_mutex else C_post_empty) else C_wait_fill)"
| "cons_next sh mx C_post_mutex = C_post_empty"
| "cons_next sh mx C_free = C_post_empty"
| "cons_next sh mx C_post_empty = (if sh = After_post then C_load_dep else C_wait_fill)"

text \<open>The statements a body may contain.\<close>

definition plive :: "bool \<Rightarrow> plabel \<Rightarrow> bool" where
  "plive mx l \<longleftrightarrow> (l \<in> {P_wait_mutex, P_post_mutex} \<longrightarrow> mx)"

definition clive :: "shape \<Rightarrow> bool \<Rightarrow> clabel \<Rightarrow> bool" where
  "clive sh mx l \<longleftrightarrow> (l \<in> {C_wait_mutex, C_post_mutex} \<longrightarrow> mx \<and> sh = In_lock) \<and>
     (l = C_free \<longrightarrow> sh = Before_post) \<and> (l = C_print \<longrightarrow> sh \<noteq> Before_post)"

lemma plive_next: "plive mx l \<Longrightarrow> plive mx (prod_next mx l)"
  by (cases l) (auto simp: plive_def)

lemma clive_next: "clive sh mx l \<Longrightarrow> (mx \<longrightarrow> sh = In_lock) \<Longrightarrow> clive sh mx (cons_next sh mx l)"
  by (cases l; cases sh) (auto simp: clive_def)

text \<open>
  Where a thread stands, read off its statement. A producer has reserved an empty slot
  (\<open>Pw\<close>), or has published its item but not yet announced it (\<open>Pf\<close>); it is in the critical
  section (\<open>Pcrit\<close>).
\<close>

fun Pw :: "plabel \<Rightarrow> bool" where
  "Pw l = (l \<in> {P_wait_mutex, P_load_slot, P_store_slot, P_load_idx, P_store_idx})"

fun Pf :: "plabel \<Rightarrow> bool" where
  "Pf l = (l \<in> {P_post_mutex, P_post_fill})"

fun Pcrit :: "plabel \<Rightarrow> bool" where
  "Pcrit l = (l \<in> {P_load_slot, P_store_slot, P_load_idx, P_store_idx, P_post_mutex})"

text \<open>
  A consumer has reserved a filled slot (\<open>Cw\<close>), or has taken its item but not yet announced the
  empty slot (\<open>Cf\<close>); it is in the critical section (\<open>Ccrit\<close>); it has consumed the item but
  not yet taken it out (\<open>Ce\<close>), or has taken it out but not yet consumed it (\<open>Cl\<close>).
\<close>

fun Cw :: "shape \<Rightarrow> clabel \<Rightarrow> bool" where
  "Cw sh l = (l \<in> {C_wait_mutex, C_load_slot, C_load_item, C_load_idx, C_store_idx} \<or>
     sh = In_lock \<and> l \<in> {C_load_dep, C_store_dep})"

fun Cf :: "shape \<Rightarrow> clabel \<Rightarrow> bool" where
  "Cf sh l = (l \<in> {C_post_mutex, C_free, C_post_empty} \<or> sh = In_lock \<and> l = C_print \<or>
     sh = Before_post \<and> l \<in> {C_load_dep, C_store_dep})"

fun Ccrit :: "shape \<Rightarrow> clabel \<Rightarrow> bool" where
  "Ccrit sh l = (l \<in> {C_load_slot, C_load_item, C_load_idx, C_store_idx, C_post_mutex} \<or>
     sh = In_lock \<and> l \<in> {C_load_dep, C_store_dep, C_print})"

fun Ce :: "shape \<Rightarrow> clabel \<Rightarrow> bool" where
  "Ce sh l = (sh = In_lock \<and> l \<in> {C_load_idx, C_store_idx})"

fun Cl :: "shape \<Rightarrow> clabel \<Rightarrow> bool" where
  "Cl sh l = (sh \<noteq> In_lock \<and> l \<in> {C_load_dep, C_store_dep} \<or> sh = After_post \<and> l = C_post_empty)"

section \<open>The invariant\<close>

definition ring_shape :: "('r, 'a, 'b) prog \<Rightarrow> bool \<Rightarrow> bool \<Rightarrow> shape \<Rightarrow> nat \<Rightarrow> nat \<Rightarrow> ('a, 'b) ring \<Rightarrow> bool"
  where
  "ring_shape pr pmx cmx sh np nc s \<longleftrightarrow>
     length (prods s) = np \<and> length (cons s) = nc \<and> length (transactions s) = bufsize pr \<and>
     (\<forall>t\<in>set (prods s). plive pmx (plab t)) \<and> (\<forall>t\<in>set (cons s). clive sh cmx (clab t))"

text \<open>Every token of the four semaphores is accounted for.\<close>

definition ring_tokens :: "('r, 'a, 'b) prog \<Rightarrow> bool \<Rightarrow> bool \<Rightarrow> shape \<Rightarrow> ('a, 'b) ring \<Rightarrow> bool" where
  "ring_tokens pr pmx cmx sh s \<longleftrightarrow>
     fill_count s + cnt (Pf \<circ> plab) (prods s) + cnt (Cw sh \<circ> clab) (cons s) + length (taken s)
       = length (written s) \<and>
     empty_count s + length (written s) + cnt (Pw \<circ> plab) (prods s) + cnt (Cf sh \<circ> clab) (cons s)
       = bufsize pr + length (taken s) \<and>
     (pmx \<longrightarrow> write_mutex s + cnt (Pcrit \<circ> plab) (prods s) = 1) \<and>
     (cmx \<longrightarrow> read_mutex s + cnt (Ccrit sh \<circ> clab) (cons s) = 1)"

text \<open>The slots between the two indices hold the items published and not yet taken, in order.\<close>

definition ring_slots :: "('r, 'a, 'b) prog \<Rightarrow> ('a, 'b) ring \<Rightarrow> bool" where
  "ring_slots pr s \<longleftrightarrow>
     write_index s = length (written s) mod bufsize pr \<and>
     read_index s = length (taken s) mod bufsize pr \<and>
     (\<forall>k. length (taken s) \<le> k \<and> k < length (written s) \<longrightarrow>
        transactions s ! (k mod bufsize pr) = written s ! k) \<and>
     (\<forall>t\<in>set (prods s).
        (plab t \<in> {P_store_slot, P_store_idx} \<longrightarrow> preg t = write_index s) \<and>
        (plab t \<in> {P_load_idx, P_store_idx} \<longrightarrow> transactions s ! write_index s = pcur t))"

text \<open>What is taken and consumed, and what the consumers hold in their local variables.\<close>

definition ring_sink :: "('r, 'a, 'b) prog \<Rightarrow> shape \<Rightarrow> 'b \<Rightarrow> ('a, 'b) ring \<Rightarrow> bool" where
  "ring_sink pr sh d0 s \<longleftrightarrow>
     prefix (taken s) (written s) \<and> prefix (consumed s) (written s) \<and>
     length (consumed s) + cnt (Cl sh \<circ> clab) (cons s)
       = length (taken s) + cnt (Ce sh \<circ> clab) (cons s) \<and>
     deposit s = fold (consume pr) (consumed s) d0 \<and>
     (\<forall>t\<in>set (cons s).
        (clab t \<in> {C_load_item, C_store_idx} \<longrightarrow> cidx t = read_index s) \<and>
        (clab t = C_store_dep \<longrightarrow> cdep t = deposit s) \<and>
        (clab t \<in> {C_load_idx, C_store_idx} \<or> sh = In_lock \<and> clab t \<in> {C_load_dep, C_store_dep} \<longrightarrow>
           citem t = written s ! length (taken s)) \<and>
        (Cl sh (clab t) \<longrightarrow> citem t = written s ! (length (taken s) - 1)))"

definition ring_inv ::
    "('r, 'a, 'b) prog \<Rightarrow> bool \<Rightarrow> bool \<Rightarrow> shape \<Rightarrow> nat \<Rightarrow> nat \<Rightarrow> 'b \<Rightarrow> ('a, 'b) ring \<Rightarrow> bool" where
  "ring_inv pr pmx cmx sh np nc d0 s \<longleftrightarrow> ring_shape pr pmx cmx sh np nc s \<and>
     ring_tokens pr pmx cmx sh s \<and> ring_slots pr s \<and> ring_sink pr sh d0 s"

lemma ring_inv_exited:
  "ring_inv pr pmx cmx sh np nc d0 (s\<lparr>exited := m\<rparr>) = ring_inv pr pmx cmx sh np nc d0 s"
  by (simp add: ring_inv_def ring_shape_def ring_tokens_def ring_slots_def ring_sink_def)

text \<open>What the buffer holds, read from \<open>read_index\<close> on.\<close>

definition buffered :: "('r, 'a, 'b) prog \<Rightarrow> ('a, 'b) ring \<Rightarrow> 'a list" where
  "buffered pr s = map (\<lambda>k. transactions s ! ((read_index s + k) mod bufsize pr))
     [0..<length (written s) - length (taken s)]"

text \<open>
  The abstract specification: a bounded FIFO with a consumer that folds over what leaves it.
  Nothing is lost, duplicated or reordered.
\<close>

definition bounded_fifo :: "('r, 'a, 'b) prog \<Rightarrow> 'b \<Rightarrow> ('a, 'b) ring \<Rightarrow> bool" where
  "bounded_fifo pr d0 s \<longleftrightarrow>
     written s = taken s @ buffered pr s \<and> length (buffered pr s) \<le> bufsize pr \<and>
     prefix (consumed s) (written s) \<and> deposit s = fold (consume pr) (consumed s) d0"

lemma prefix_snoc_nth:
  assumes "prefix xs ys" and "length xs < length ys"
  shows "prefix (xs @ [ys ! length xs]) ys"
proof -
  from assms(1) obtain zs where zs: "ys = xs @ zs" by (auto simp: prefix_def)
  with assms(2) obtain z zs' where "zs = z # zs'" by (cases zs) auto
  with zs show ?thesis by simp
qed

section \<open>The interface of a circular-buffer program\<close>

text \<open>
  What a program promises: its loop bodies follow \<open>prod_next\<close> and \<open>cons_next\<close>, the buffer is
  not empty, and where it leaves a mutex out there is only one thread of that kind.
\<close>

locale ring_program =
  fixes pr :: "('r, 'a, 'b) prog" and pmx cmx :: bool and sh :: shape and np nc :: nat
  assumes producer_next: "plive pmx l \<Longrightarrow> next_in (producer_body pr) l = prod_next pmx l"
    and consumer_next: "clive sh cmx m \<Longrightarrow> next_in (consumer_body pr) m = cons_next sh cmx m"
    and bufsize_pos: "0 < bufsize pr"
    and one_producer: "\<not> pmx \<Longrightarrow> np \<le> 1"
    and one_consumer: "\<not> cmx \<Longrightarrow> nc \<le> 1"
    and mutex_in_lock: "cmx \<Longrightarrow> sh = In_lock"
begin

lemma exec_producer_shape:
  assumes "exec_producer pr i r s = Some s'" and inv: "ring_shape pr pmx cmx sh np nc s"
  shows "ring_shape pr pmx cmx sh np nc s'"
proof -
  from assms have i: "i < length (prods s)" by (auto simp: exec_producer_def split: if_splits)
  with inv have live: "plive pmx (plab (prods s ! i))" by (auto simp: ring_shape_def)
  then have "plive pmx (next_in (producer_body pr) (plab (prods s ! i)))"
    by (simp add: producer_next plive_next)
  with assms i show ?thesis
    by (auto simp: exec_producer_def ring_shape_def Let_def split: plabel.splits if_splits
        dest!: others_unchanged)
qed

lemma exec_producer_tokens:
  assumes "exec_producer pr i r s = Some s'" and inv: "ring_shape pr pmx cmx sh np nc s"
    and tok: "ring_tokens pr pmx cmx sh s"
  shows "ring_tokens pr pmx cmx sh s'"
proof -
  from assms have i: "i < length (prods s)" by (auto simp: exec_producer_def split: if_splits)
  with inv have live: "plive pmx (plab (prods s ! i))" by (auto simp: ring_shape_def)
  note pos = cnt_pos [OF i, of "Pw \<circ> plab"] cnt_pos [OF i, of "Pf \<circ> plab"] cnt_pos [OF i, of "Pcrit \<circ> plab"]
  show ?thesis using assms(1) i live tok pos
    by (cases "plab (prods s ! i)")
      (auto simp: exec_producer_def ring_tokens_def Let_def producer_next cnt_simps plive_def
        split: if_splits)
qed

lemma producer_alone:
  assumes "ring_shape pr pmx cmx sh np nc s" and "ring_tokens pr pmx cmx sh s"
  shows "cnt (Pcrit \<circ> plab) (prods s) \<le> 1"
proof (cases pmx)
  case True
  with assms(2) show ?thesis by (simp add: ring_tokens_def)
next
  case False
  with assms(1) one_producer have "length (prods s) \<le> 1" by (auto simp: ring_shape_def)
  then show ?thesis using cnt_le_length order_trans by blast
qed

lemma consumer_alone:
  assumes "ring_shape pr pmx cmx sh np nc s" and "ring_tokens pr pmx cmx sh s"
  shows "cnt (Ccrit sh \<circ> clab) (cons s) \<le> 1"
proof (cases cmx)
  case True
  with assms(2) show ?thesis by (simp add: ring_tokens_def)
next
  case False
  with assms(1) one_consumer have "length (cons s) \<le> 1" by (auto simp: ring_shape_def)
  then show ?thesis using cnt_le_length order_trans by blast
qed

lemma slots_in_use:
  assumes "ring_tokens pr pmx cmx sh s"
  shows "length (taken s) \<le> length (written s)"
    and "length (written s) \<le> length (taken s) + bufsize pr"
  using assms by (auto simp: ring_tokens_def)

lemma slot_free:
  assumes tok: "ring_tokens pr pmx cmx sh s" and i: "i < length (prods s)" and "Pw (plab (prods s ! i))"
  shows "length (written s) < length (taken s) + bufsize pr"
proof -
  have "0 < cnt (Pw \<circ> plab) (prods s)" using cnt_pos [OF i, of "Pw \<circ> plab"] assms(3) by simp
  with tok show ?thesis by (auto simp: ring_tokens_def)
qed

lemma slot_filled:
  assumes tok: "ring_tokens pr pmx cmx sh s" and j: "j < length (cons s)" and "Cw sh (clab (cons s ! j))"
  shows "length (taken s) < length (written s)"
proof -
  have "0 < cnt (Cw sh \<circ> clab) (cons s)" using cnt_pos [OF j, of "Cw sh \<circ> clab"] assms(3) by simp
  with tok show ?thesis by (auto simp: ring_tokens_def)
qed

lemma ring_index_neq:
  assumes "k < (w::nat)" and "w < k + n"
  shows "k mod n \<noteq> w mod n"
proof
  assume eq: "k mod n = w mod n"
  then have "n dvd w - k" using assms(1) by (metis less_imp_le_nat mod_eq_dvd_iff_nat)
  then have "n \<le> w - k" using assms(1) by (auto dest: dvd_imp_le)
  with assms show False by simp
qed

lemma exec_producer_slots:
  assumes ex: "exec_producer pr i r s = Some s'" and inv: "ring_shape pr pmx cmx sh np nc s"
    and tok: "ring_tokens pr pmx cmx sh s" and slots: "ring_slots pr s"
  shows "ring_slots pr s'"
proof -
  from ex have i: "i < length (prods s)" by (auto simp: exec_producer_def split: if_splits)
  with inv have live: "plive pmx (plab (prods s ! i))" by (auto simp: ring_shape_def)
  have len: "length (transactions s) = bufsize pr" using inv by (simp add: ring_shape_def)
  have own: "prods s ! i \<in> set (prods s)" using i by simp
  note alone = others_not_unique [OF _ i producer_alone [OF inv tok]]
  note free = slot_free [OF tok i]
  show ?thesis
  proof (cases "plab (prods s ! i)")
    case P_store_slot
    with slots own have reg: "preg (prods s ! i) = length (written s) mod bufsize pr"
      by (auto simp: ring_slots_def)
    have w: "length (written s) mod bufsize pr < length (transactions s)"
      using bufsize_pos len by simp
    have kept: "(transactions s)[length (written s) mod bufsize pr := x] ! (k mod bufsize pr) = written s ! k"
      if "length (taken s) \<le> k" and "k < length (written s)" for k x
      using ring_index_neq [of k "length (written s)" "bufsize pr"] free P_store_slot that slots
      by (simp add: ring_slots_def)
    show ?thesis using ex i live slots P_store_slot reg w kept
      by (auto simp: exec_producer_def ring_slots_def Let_def producer_next dest!: alone)
  next
    case P_store_idx
    with slots own have reg: "preg (prods s ! i) = length (written s) mod bufsize pr"
      and cur: "transactions s ! (length (written s) mod bufsize pr) = pcur (prods s ! i)"
      by (auto simp: ring_slots_def)
    show ?thesis using ex i live slots P_store_idx reg cur
      by (auto simp: exec_producer_def ring_slots_def Let_def producer_next nth_append mod_Suc_eq
          less_Suc_eq split: if_splits dest!: alone)
  qed (use ex i live slots own in
      \<open>auto simp: exec_producer_def ring_slots_def Let_def producer_next dest!: others_unchanged
        split: if_splits\<close>)
qed

lemma exec_producer_sink:
  assumes ex: "exec_producer pr i r s = Some s'"
    and tok: "ring_tokens pr pmx cmx sh s" and sink: "ring_sink pr sh d0 s"
  shows "ring_sink pr sh d0 s'"
proof -
  obtain zs where w: "written s' = written s @ zs"
    using ex by (auto simp: exec_producer_def Let_def split: plabel.splits if_splits)
  have same: "cons s' = cons s" "taken s' = taken s" "consumed s' = consumed s"
    "deposit s' = deposit s" "read_index s' = read_index s"
    using ex by (auto simp: exec_producer_def Let_def split: plabel.splits if_splits)
  have kept_w: "(written s @ zs) ! length (taken s) = written s ! length (taken s)"
    if "t \<in> set (cons s)" "Cw sh (clab t)" for t
    using that slot_filled [OF tok] by (metis in_set_conv_nth nth_append)
  have kept_l: "(written s @ zs) ! (length (taken s) - 1) = written s ! (length (taken s) - 1)"
    if t: "t \<in> set (cons s)" "Cl sh (clab t)" for t
  proof -
    have "0 < cnt (Cl sh \<circ> clab) (cons s)" using t cnt_zero_iff [of "Cl sh \<circ> clab" "cons s"] by auto
    moreover have "cnt (Ce sh \<circ> clab) (cons s) = 0" using t by (auto simp: cnt_zero_iff)
    ultimately have "length (taken s) - 1 < length (written s)"
      using sink slots_in_use [OF tok] by (auto simp: ring_sink_def)
    then show ?thesis by (simp add: nth_append)
  qed
  show ?thesis
    using sink unfolding ring_sink_def w same
    by (auto dest: kept_w kept_l)
qed

lemma exec_consumer_shape:
  assumes "exec_consumer pr j s = Some s'" and inv: "ring_shape pr pmx cmx sh np nc s"
  shows "ring_shape pr pmx cmx sh np nc s'"
proof -
  from assms have j: "j < length (cons s)" by (auto simp: exec_consumer_def split: if_splits)
  with inv have live: "clive sh cmx (clab (cons s ! j))" by (auto simp: ring_shape_def)
  then have "clive sh cmx (next_in (consumer_body pr) (clab (cons s ! j)))"
    by (simp add: consumer_next clive_next mutex_in_lock)
  with assms j show ?thesis
    by (auto simp: exec_consumer_def ring_shape_def Let_def split: clabel.splits if_splits
        dest!: others_unchanged)
qed

lemma exec_consumer_tokens:
  assumes "exec_consumer pr j s = Some s'" and inv: "ring_shape pr pmx cmx sh np nc s"
    and tok: "ring_tokens pr pmx cmx sh s"
  shows "ring_tokens pr pmx cmx sh s'"
proof -
  from assms have j: "j < length (cons s)" by (auto simp: exec_consumer_def split: if_splits)
  with inv have live: "clive sh cmx (clab (cons s ! j))" by (auto simp: ring_shape_def)
  note pos = cnt_pos [OF j, of "Cw sh \<circ> clab"] cnt_pos [OF j, of "Cf sh \<circ> clab"]
    cnt_pos [OF j, of "Ccrit sh \<circ> clab"]
  show ?thesis using assms(1) j live tok pos mutex_in_lock
    by (cases "clab (cons s ! j)"; cases sh)
      (auto simp: exec_consumer_def ring_tokens_def Let_def consumer_next cnt_simps clive_def
        split: if_splits)
qed

lemma exec_consumer_slots:
  assumes ex: "exec_consumer pr j s = Some s'" and inv: "ring_shape pr pmx cmx sh np nc s"
    and tok: "ring_tokens pr pmx cmx sh s" and slots: "ring_slots pr s" and sink: "ring_sink pr sh d0 s"
  shows "ring_slots pr s'"
proof -
  from ex have j: "j < length (cons s)" by (auto simp: exec_consumer_def split: if_splits)
  then have own: "cons s ! j \<in> set (cons s)" by simp
  show ?thesis
  proof (cases "clab (cons s ! j)")
    case C_store_idx
    with sink own slots have "cidx (cons s ! j) = length (taken s) mod bufsize pr"
      by (auto simp: ring_sink_def ring_slots_def)
    with ex j slots C_store_idx show ?thesis
      by (auto simp: exec_consumer_def ring_slots_def Let_def mod_Suc_eq)
  qed (use ex j slots in \<open>auto simp: exec_consumer_def ring_slots_def Let_def split: if_splits\<close>)
qed


lemma single_late:
  assumes "ring_shape pr pmx cmx sh np nc s" and "sh \<noteq> In_lock" and "j < length (cons s)"
  shows "cons s = [cons s ! j]" and "j = 0"
proof -
  have "nc \<le> 1" using mutex_in_lock one_consumer assms(2) by blast
  with assms(1) have len: "length (cons s) \<le> 1" by (simp add: ring_shape_def)
  with assms(3) show "j = 0" by simp
  with len assms(3) show "cons s = [cons s ! j]" by (cases "cons s") auto
qed

lemma none_early:
  assumes "ring_shape pr pmx cmx sh np nc s" and "ring_tokens pr pmx cmx sh s"
    and "j < length (cons s)" and "Ccrit sh (clab (cons s ! j))" and "\<not> Ce sh (clab (cons s ! j))"
  shows "cnt (Ce sh \<circ> clab) (cons s) = 0"
proof (rule ccontr)
  assume "\<not> ?thesis"
  then obtain k where k: "k < length (cons s)" "Ce sh (clab (cons s ! k))"
    by (auto simp: cnt_zero_iff in_set_conv_nth)
  then have "Ccrit sh (clab (cons s ! k))" by auto
  with cnt_le1_unique [OF consumer_alone [OF assms(1,2)] k(1) assms(3)] assms(4) have "k = j" by simp
  with k assms(5) show False by simp
qed

lemma exec_consumer_sink:
  assumes ex: "exec_consumer pr j s = Some s'" and inv: "ring_shape pr pmx cmx sh np nc s"
    and tok: "ring_tokens pr pmx cmx sh s" and slots: "ring_slots pr s" and sink: "ring_sink pr sh d0 s"
  shows "ring_sink pr sh d0 s'"
proof -
  from ex have j: "j < length (cons s)" by (auto simp: exec_consumer_def split: if_splits)
  with inv have live: "clive sh cmx (clab (cons s ! j))" by (auto simp: ring_shape_def)
  have own: "cons s ! j \<in> set (cons s)" using j by simp
  note alone = others_not_unique [OF _ j consumer_alone [OF inv tok]]
  note filled = slot_filled [OF tok j]
  have used: "length (taken s) \<le> length (written s)" by (rule slots_in_use [OF tok])
  note unfold = exec_consumer_def ring_sink_def Let_def consumer_next cnt_simps
  show ?thesis
  proof (cases "clab (cons s ! j)")
    case C_load_item
    then have lt: "length (taken s) < length (written s)" using filled by simp
    with sink slots own C_load_item
    have "transactions s ! cidx (cons s ! j) = written s ! length (taken s)"
      by (auto simp: ring_sink_def ring_slots_def)
    with ex j live sink C_load_item show ?thesis
      by (auto simp: unfold dest!: others_unchanged split: if_splits)
  next
    case C_store_dep
    show ?thesis
    proof (cases "sh = In_lock")
      case True
      have none: "cnt (Ce sh \<circ> clab) (cons s) = 0"
        using none_early [OF inv tok j] C_store_dep True by simp
      moreover have "cnt (Cl sh \<circ> clab) (cons s) = 0" using True by (simp add: cnt_zero_iff)
      then have len: "length (taken s) = length (consumed s)"
        using sink none by (simp add: ring_sink_def)
      moreover have "length (taken s) < length (written s)" using filled C_store_dep True by simp
      ultimately show ?thesis
        using ex j live sink own C_store_dep True prefix_snoc_nth [of "consumed s" "written s"]
        by (auto simp: unfold cnt_zero_iff len dest!: alone)
    next
      case False
      note single = single_late [OF inv False j]
      define t where "t = cons s ! j"
      have c: "cons s = [t]" and lab: "clab t = C_store_dep"
        using single C_store_dep by (simp_all add: t_def)
      have lt: "Suc (length (consumed s)) = length (taken s)"
        using sink lab False c by (auto simp: ring_sink_def)
      have "citem t = written s ! (length (taken s) - 1)"
        using sink lab False c by (auto simp: ring_sink_def)
      moreover have "length (taken s) - 1 = length (consumed s)" using lt by simp
      ultimately have "citem t = written s ! length (consumed s)" by (simp only:)
      moreover have "length (consumed s) < length (written s)" using lt used by simp
      ultimately have pre: "prefix (consumed s @ [citem t]) (written s)"
        using sink prefix_snoc_nth [of "consumed s" "written s"] by (simp add: ring_sink_def)
      have s': "s' = s\<lparr>cons := [t\<lparr>clab := cons_next sh cmx C_store_dep\<rparr>],
          deposit := consume pr (citem t) (cdep t), consumed := consumed s @ [citem t]\<rparr>"
        using ex live lab c single(2) by (auto simp: exec_consumer_def Let_def consumer_next)
      show ?thesis using sink pre False lab lt
        by (cases sh) (auto simp: ring_sink_def s' c)
    qed
  next
    case C_store_idx
    have lt: "length (taken s) < length (written s)" using filled C_store_idx by simp
    have item: "citem (cons s ! j) = written s ! length (taken s)"
      using sink own C_store_idx by (auto simp: ring_sink_def)
    show ?thesis
    proof (cases "sh = In_lock")
      case True
      have "0 < cnt (Ce sh \<circ> clab) (cons s)"
        using cnt_pos [OF j, of "Ce sh \<circ> clab"] True C_store_idx by simp
      then show ?thesis
        using ex j live sink own C_store_idx True prefix_snoc_nth [of "taken s" "written s"] lt item
        by (auto simp: unfold dest!: alone)
    next
      case False
      note single = single_late [OF inv False j]
      define t where "t = cons s ! j"
      have c: "cons s = [t]" and lab: "clab t = C_store_idx"
        using single C_store_idx by (simp_all add: t_def)
      have s': "s' = s\<lparr>cons := [t\<lparr>clab := cons_next sh cmx C_store_idx\<rparr>],
          read_index := (cidx t + 1) mod bufsize pr, taken := taken s @ [citem t]\<rparr>"
        using ex live lab c single(2) by (auto simp: exec_consumer_def Let_def consumer_next)
      have "prefix (taken s @ [citem t]) (written s)"
        using sink lt item prefix_snoc_nth [of "taken s" "written s"]
        by (simp add: ring_sink_def t_def)
      with sink False lab item show ?thesis
        by (cases sh) (auto simp: ring_sink_def s' c nth_append simp flip: t_def)
    qed
  qed (use ex j live sink own in
    \<open>auto simp: unfold clive_def dest!: others_unchanged split: if_splits shape.splits\<close>)
qed


section \<open>Every reachable state\<close>

lemma exec_inv:
  assumes "exec pr ev s = Some s'" and "ring_inv pr pmx cmx sh np nc d0 s"
  shows "ring_inv pr pmx cmx sh np nc d0 s'"
proof (cases ev)
  case (Prod i r)
  with assms show ?thesis
    by (auto simp: exec_def ring_inv_def split: if_splits
        intro: exec_producer_shape exec_producer_tokens exec_producer_slots exec_producer_sink)
next
  case (Cons j)
  with assms show ?thesis
    by (auto simp: exec_def ring_inv_def split: if_splits
        intro: exec_consumer_shape exec_consumer_tokens exec_consumer_slots exec_consumer_sink)
qed (use assms in \<open>auto simp: exec_def exit_with_def ring_inv_exited split: if_splits option.splits\<close>)

lemma reachable_inv: "reachable pr s0 s \<Longrightarrow> ring_inv pr pmx cmx sh np nc d0 s0 \<Longrightarrow> ring_inv pr pmx cmx sh np nc d0 s"
  by (induction rule: reachable.induct) (auto intro: exec_inv)

text \<open>Two producers are never both in their critical section, nor are two consumers.\<close>

lemma mutual_exclusion:
  assumes "ring_inv pr pmx cmx sh np nc d0 s" and "i < np" and "k < np"
    and "Pcrit (plab (prods s ! i))" and "Pcrit (plab (prods s ! k))"
  shows "i = k"
  using assms cnt_le1_unique [OF producer_alone, of s i k]
  by (auto simp: ring_inv_def ring_shape_def)

lemma consumers_exclusive:
  assumes "ring_inv pr pmx cmx sh np nc d0 s" and "j < nc" and "k < nc"
    and "Ccrit sh (clab (cons s ! j))" and "Ccrit sh (clab (cons s ! k))"
  shows "j = k"
  using assms cnt_le1_unique [OF consumer_alone, of s j k]
  by (auto simp: ring_inv_def ring_shape_def)

text \<open>The buffer is a bounded FIFO: nothing lost, duplicated or reordered.\<close>

lemma fifo:
  assumes "ring_inv pr pmx cmx sh np nc d0 s"
  shows "prefix (taken s) (written s)" and "prefix (consumed s) (written s)"
    and "length (written s) - length (taken s) \<le> bufsize pr"
    and "deposit s = fold (consume pr) (consumed s) d0"
  using assms slots_in_use [of s] by (auto simp: ring_inv_def ring_sink_def)

lemma refines_fifo:
  assumes inv: "ring_inv pr pmx cmx sh np nc d0 s"
  shows "bounded_fifo pr d0 s"
proof -
  let ?T = "length (taken s)" and ?W = "length (written s)"
  have "buffered pr s ! k = written s ! (?T + k)" if "k < ?W - ?T" for k
  proof -
    have "(read_index s + k) mod bufsize pr = (?T + k) mod bufsize pr"
      using inv by (simp add: ring_inv_def ring_slots_def mod_add_left_eq)
    moreover have "?T + k < ?W" using that by simp
    ultimately show ?thesis
      using inv that by (auto simp: buffered_def ring_inv_def ring_slots_def)
  qed
  then have "buffered pr s = drop ?T (written s)"
    by (intro nth_equalityI) (simp_all add: buffered_def)
  moreover have "written s = taken s @ drop ?T (written s)"
    using fifo(1) [OF inv] by (auto simp: prefix_def)
  ultimately show ?thesis
    using fifo(2-4) [OF inv] by (simp add: bounded_fifo_def)
qed

text \<open>When every thread is at the head of its loop, nothing is in transit.\<close>

lemma quiescent:
  assumes inv: "ring_inv pr pmx cmx sh np nc d0 s" and "\<forall>t\<in>set (prods s). plab t = P_produce"
    and "\<forall>t\<in>set (cons s). clab t = C_wait_fill"
  shows "consumed s = take (length (written s) - fill_count s) (written s)"
    and "fill_count s + empty_count s = bufsize pr"
proof -
  have z: "cnt (Pf \<circ> plab) (prods s) = 0" "cnt (Pw \<circ> plab) (prods s) = 0"
    "cnt (Cw sh \<circ> clab) (cons s) = 0" "cnt (Cf sh \<circ> clab) (cons s) = 0"
    "cnt (Ce sh \<circ> clab) (cons s) = 0" "cnt (Cl sh \<circ> clab) (cons s) = 0"
    using assms(2,3) by (auto simp: cnt_zero_iff)
  from inv z have len: "length (consumed s) = length (written s) - fill_count s"
    by (auto simp: ring_inv_def ring_tokens_def ring_sink_def)
  from inv have "prefix (consumed s) (written s)" by (rule fifo)
  then show "consumed s = take (length (written s) - fill_count s) (written s)"
    unfolding len [symmetric] by (auto simp: prefix_def)
  from inv z show "fill_count s + empty_count s = bufsize pr"
    by (auto simp: ring_inv_def ring_tokens_def)
qed

section \<open>No deadlock\<close>

lemma producer_blocked:
  "i < length (prods s) \<Longrightarrow> exec_producer pr i r s = None \<longleftrightarrow>
     plab (prods s ! i) = P_wait_empty \<and> empty_count s = 0 \<or>
     plab (prods s ! i) = P_wait_mutex \<and> write_mutex s = 0"
  by (cases "plab (prods s ! i)") (auto simp: exec_producer_def Let_def)

lemma consumer_blocked:
  "j < length (cons s) \<Longrightarrow> exec_consumer pr j s = None \<longleftrightarrow>
     clab (cons s ! j) = C_wait_fill \<and> fill_count s = 0 \<or>
     clab (cons s ! j) = C_wait_mutex \<and> read_mutex s = 0"
  by (cases "clab (cons s ! j)") (auto simp: exec_consumer_def Let_def)

lemma stuck_producers:
  assumes inv: "ring_inv pr pmx cmx sh np nc d0 s" and "\<forall>i < np. exec_producer pr i r s = None"
  shows "\<forall>t\<in>set (prods s). plab t = P_wait_empty \<and> empty_count s = 0"
proof -
  have blocked: "plab t = P_wait_empty \<and> empty_count s = 0 \<or> plab t = P_wait_mutex \<and> write_mutex s = 0"
    if "t \<in> set (prods s)" for t
    using that assms producer_blocked by (auto simp: ring_inv_def ring_shape_def in_set_conv_nth)
  have "plab t \<noteq> P_wait_mutex" if t: "t \<in> set (prods s)" for t
  proof
    assume mx: "plab t = P_wait_mutex"
    with inv t have pmx by (auto simp: ring_inv_def ring_shape_def plive_def)
    with inv blocked [OF t] mx have "cnt (Pcrit \<circ> plab) (prods s) \<noteq> 0"
      by (auto simp: ring_inv_def ring_tokens_def)
    then obtain u where "u \<in> set (prods s)" "Pcrit (plab u)" by (auto simp: cnt_zero_iff)
    with blocked show False by force
  qed
  with blocked show ?thesis by blast
qed

lemma stuck_consumers:
  assumes inv: "ring_inv pr pmx cmx sh np nc d0 s" and "\<forall>j < nc. exec_consumer pr j s = None"
  shows "\<forall>t\<in>set (cons s). clab t = C_wait_fill \<and> fill_count s = 0"
proof -
  have blocked: "clab t = C_wait_fill \<and> fill_count s = 0 \<or> clab t = C_wait_mutex \<and> read_mutex s = 0"
    if "t \<in> set (cons s)" for t
    using that assms consumer_blocked by (auto simp: ring_inv_def ring_shape_def in_set_conv_nth)
  have "clab t \<noteq> C_wait_mutex" if t: "t \<in> set (cons s)" for t
  proof
    assume mx: "clab t = C_wait_mutex"
    with inv t have cmx by (auto simp: ring_inv_def ring_shape_def clive_def)
    with inv blocked [OF t] mx have "cnt (Ccrit sh \<circ> clab) (cons s) \<noteq> 0"
      by (auto simp: ring_inv_def ring_tokens_def)
    then obtain u where "u \<in> set (cons s)" "Ccrit sh (clab u)" by (auto simp: cnt_zero_iff)
    with blocked show False by force
  qed
  with blocked show ?thesis by blast
qed

lemma no_deadlock:
  assumes inv: "ring_inv pr pmx cmx sh np nc d0 s" and "0 < np" and "0 < nc"
  shows "(\<exists>i < np. exec_producer pr i r s \<noteq> None) \<or> (\<exists>j < nc. exec_consumer pr j s \<noteq> None)"
proof (rule ccontr)
  assume "\<not> ?thesis"
  then have "\<forall>i < np. exec_producer pr i r s = None" "\<forall>j < nc. exec_consumer pr j s = None" by auto
  note p = stuck_producers [OF inv this(1)] and c = stuck_consumers [OF inv this(2)]
  have "prods s \<noteq> []" "cons s \<noteq> []" using assms by (auto simp: ring_inv_def ring_shape_def)
  with p c have "empty_count s = 0" "fill_count s = 0" by (auto simp: neq_Nil_conv)
  moreover have "cnt (Pw \<circ> plab) (prods s) = 0" "cnt (Pf \<circ> plab) (prods s) = 0"
    "cnt (Cw sh \<circ> clab) (cons s) = 0" "cnt (Cf sh \<circ> clab) (cons s) = 0"
    using p c by (auto simp: cnt_zero_iff)
  ultimately show False using inv bufsize_pos by (auto simp: ring_inv_def ring_tokens_def)
qed

end

section \<open>Where the items come from\<close>

definition ring_items :: "('r, 'a, 'b) prog \<Rightarrow> ('a, 'b) ring \<Rightarrow> bool" where
  "ring_items pr s \<longleftrightarrow> set (written s) \<subseteq> range (produce pr) \<and>
     (\<forall>t\<in>set (prods s). plab t \<noteq> P_produce \<longrightarrow> pcur t \<in> range (produce pr))"

lemma exec_items:
  assumes "exec pr ev s = Some s'" and "ring_items pr s"
  shows "ring_items pr s'"
proof (cases ev)
  case (Prod i r)
  with assms have ex: "exec_producer pr i r s = Some s'" by (auto simp: exec_def split: if_splits)
  then have i: "i < length (prods s)" by (auto simp: exec_producer_def split: if_splits)
  then have "prods s ! i \<in> set (prods s)" by simp
  with ex i assms(2) show ?thesis
    by (cases "plab (prods s ! i)")
      (auto simp: exec_producer_def ring_items_def Let_def dest!: others_unchanged split: if_splits)
next
  case (Cons j)
  with assms show ?thesis
    by (auto simp: exec_def exec_consumer_def Let_def ring_items_def split: if_splits clabel.splits)
qed (use assms in \<open>auto simp: exec_def exit_with_def ring_items_def split: if_splits option.splits\<close>)

lemma reachable_items: "reachable pr s0 s \<Longrightarrow> ring_items pr s0 \<Longrightarrow> ring_items pr s"
  by (induction rule: reachable.induct) (auto intro: exec_items)

section \<open>Slots, prints\<close>

context ring_program
begin

text \<open>A producer never writes the slot that a consumer is reading.\<close>

lemma no_slot_race:
  assumes inv: "ring_inv pr pmx cmx sh np nc d0 s"
    and i: "i < np" "plab (prods s ! i) = P_store_slot"
    and j: "j < nc" "clab (cons s ! j) = C_load_item"
  shows "preg (prods s ! i) \<noteq> cidx (cons s ! j)"
proof -
  have len: "i < length (prods s)" "j < length (cons s)"
    using inv i(1) j(1) by (auto simp: ring_inv_def ring_shape_def)
  have tok: "ring_tokens pr pmx cmx sh s" using inv by (simp add: ring_inv_def)
  have "length (taken s) < length (written s)" using slot_filled [OF tok len(2)] j(2) by simp
  moreover have "length (written s) < length (taken s) + bufsize pr"
    using slot_free [OF tok len(1)] i(2) by simp
  ultimately have "length (taken s) mod bufsize pr \<noteq> length (written s) mod bufsize pr"
    by (rule ring_index_neq)
  moreover have "preg (prods s ! i) = length (written s) mod bufsize pr"
    using inv i(2) len(1) by (auto simp: ring_inv_def ring_slots_def)
  moreover have "cidx (cons s ! j) = length (taken s) mod bufsize pr"
    using inv j(2) len(2) by (auto simp: ring_inv_def ring_slots_def ring_sink_def)
  ultimately show ?thesis by simp
qed

text \<open>Every index that is used is inside of the buffer; the semaphores stay in their ranges.\<close>

lemma in_bounds:
  assumes inv: "ring_inv pr pmx cmx sh np nc d0 s"
  shows "length (transactions s) = bufsize pr" "read_index s < bufsize pr" "write_index s < bufsize pr"
    and "fill_count s + empty_count s \<le> bufsize pr"
    and "pmx \<Longrightarrow> write_mutex s \<le> 1" "cmx \<Longrightarrow> read_mutex s \<le> 1"
    and "t \<in> set (prods s) \<Longrightarrow> plab t = P_store_slot \<Longrightarrow> preg t < bufsize pr"
    and "u \<in> set (cons s) \<Longrightarrow> clab u = C_load_item \<Longrightarrow> cidx u < bufsize pr"
  using inv bufsize_pos
  by (auto simp: ring_inv_def ring_shape_def ring_tokens_def ring_slots_def ring_sink_def)

text \<open>At the test for printing, everything taken out has been added to the deposit.\<close>

lemma at_print:
  assumes inv: "ring_inv pr pmx cmx sh np nc d0 s" and j: "j < nc" "clab (cons s ! j) = C_print"
  shows "consumed s = taken s"
proof -
  have len: "j < length (cons s)" using inv j(1) by (auto simp: ring_inv_def ring_shape_def)
  have "cnt (Ce sh \<circ> clab) (cons s) = 0 \<and> cnt (Cl sh \<circ> clab) (cons s) = 0"
  proof (cases "sh = In_lock")
    case True
    then have "cnt (Cl sh \<circ> clab) (cons s) = 0" by (simp add: cnt_zero_iff)
    with True none_early [OF _ _ len] inv j(2) show ?thesis by (simp add: ring_inv_def)
  next
    case False
    from inv have "ring_shape pr pmx cmx sh np nc s" by (simp add: ring_inv_def)
    note single = single_late [OF this False len]
    define t where "t = cons s ! j"
    have "cons s = [t]" and "clab t = C_print" using single j(2) by (simp_all add: t_def)
    then show ?thesis by simp
  qed
  with inv have "length (consumed s) = length (taken s)" "prefix (taken s) (written s)"
    "prefix (consumed s) (written s)" by (auto simp: ring_inv_def ring_sink_def)
  then show ?thesis by (auto simp: prefix_def)
qed

lemma print_step:
  assumes inv: "ring_inv pr pmx cmx sh np nc d0 s" and j: "j < nc" "clab (cons s ! j) = C_print"
    and ex: "exec_consumer pr j s = Some s'"
  shows "printed s' = (if length (taken s) mod bufsize pr mod 10 = 0
    then printed s @ [fold (consume pr) (taken s) d0] else printed s)"
proof -
  have "deposit s = fold (consume pr) (taken s) d0"
    using fifo(4) [OF inv] at_print [OF inv j] by simp
  moreover have "read_index s = length (taken s) mod bufsize pr"
    using inv by (simp add: ring_inv_def ring_slots_def)
  ultimately show ?thesis using ex j(2) by (auto simp: exec_consumer_def Let_def split: if_splits)
qed
end

end
