(* ===== verification/Producer_Consumer.thy ===== *)
theory Producer_Consumer
  imports Ring_Contract
begin

text \<open>
  The four producer/consumer programs of \<open>lab05-producer-consumer\<close>: one or many producers, one
  or many consumers, a circular buffer of 128 transactions, the semaphores \<open>fill_count\<close> and
  \<open>empty_count\<close>, and a mutex per index only where several threads share it. Each program is
  its two loop bodies and its \<open>main\<close>; each interprets the contract \<open>ring_program\<close>.
  Prefixes: \<open>oo\<close> one producer, one consumer; \<open>om\<close> one, many; \<open>mo\<close> many, one; \<open>mm\<close> many, many.
\<close>

section \<open>Constants and transactions\<close>

definition BUFFER_SIZE :: nat where "BUFFER_SIZE = 128"
definition INITIAL_DEPOSIT :: int where "INITIAL_DEPOSIT = 0"
definition MAX_TRANSACTION :: int where "MAX_TRANSACTION = 1000"
definition NUM_CONSUMERS :: nat where "NUM_CONSUMERS = 3"
definition NUM_PRODUCERS :: nat where "NUM_PRODUCERS = 3"

lemmas pc_constants = BUFFER_SIZE_def INITIAL_DEPOSIT_def MAX_TRANSACTION_def
  NUM_CONSUMERS_def NUM_PRODUCERS_def

text \<open>The argument is the value \<open>rand()\<close> returns, which is not negative.\<close>

definition performRandomTransaction :: "int \<Rightarrow> int" where
  "performRandomTransaction rand =
    (let amount = rand mod (2 * MAX_TRANSACTION)
     in if amount \<ge> MAX_TRANSACTION then MAX_TRANSACTION - (amount + 1) else amount + 1)"

text \<open>\<open>deposit += lastTransaction\<close>. The deposit is an \<open>int\<close>; it is modelled without a width,
  and how long it stays within 32 bits is a theorem.\<close>

definition add_to_deposit :: "int \<Rightarrow> int \<Rightarrow> int" where
  "add_to_deposit transaction dep = dep + transaction"

text \<open>The state in which \<open>main\<close> leaves the globals: zeroed buffer, both indices 0, the semaphores
  as initialised; a mutex a program does not have is given 0.\<close>

definition pc_globals :: "nat \<Rightarrow> nat \<Rightarrow> nat \<Rightarrow> nat \<Rightarrow> (int, int) ring" where
  "pc_globals rd_mutex wr_mutex nprod ncons =
    \<lparr>transactions = replicate BUFFER_SIZE 0, fill_count = 0, empty_count = BUFFER_SIZE,
     read_mutex = rd_mutex, write_mutex = wr_mutex, read_index = 0, write_index = 0,
     deposit = INITIAL_DEPOSIT, printed = [],
     prods = replicate nprod \<lparr>plab = P_produce, pcur = 0, preg = 0\<rparr>,
     cons = replicate ncons \<lparr>clab = C_wait_fill, citem = 0, cidx = 0, cdep = 0\<rparr>,
     exited = None, written = [], taken = [], consumed = []\<rparr>"

definition thread_checks :: "nat \<Rightarrow> string \<Rightarrow> check list" where
  "thread_checks n kind = concat (replicate n
     [PTHREAD_ERROR_HELPER (''Could not create '' @ kind @ '' thread''),
      PTHREAD_ERROR_HELPER (''Could not detach '' @ kind @ '' thread'')])"

definition sem_check :: "string \<Rightarrow> check" where
  "sem_check name = ERROR_HELPER (''Could not initialize '' @ name)"

text \<open>Every call of \<open>main\<close> succeeds, or the process ends before the threads matter.\<close>

definition start_threads :: "check list \<Rightarrow> (int, int) ring \<Rightarrow> int list \<Rightarrow> startup + (int, int) ring" where
  "start_threads checks s rets =
    (case run_checks checks rets of Startup_done _ \<Rightarrow> Inr s | out \<Rightarrow> Inl out)"

lemma start_threads_Inr: "start_threads checks s rets = Inr s0 \<Longrightarrow> s0 = s"
  by (auto simp: start_threads_def split: startup.splits)

section \<open>many_prod_many_cons.c\<close>

definition mm_performTransactions :: "plabel list" where
  "mm_performTransactions =
    [P_produce, P_wait_empty, P_wait_mutex, P_load_slot, P_store_slot, P_load_idx, P_store_idx,
     P_post_mutex, P_post_fill]"

definition mm_processTransactions :: "clabel list" where
  "mm_processTransactions =
    [C_wait_fill, C_wait_mutex, C_load_slot, C_load_item, C_load_dep, C_store_dep, C_load_idx,
     C_store_idx, C_print, C_post_mutex, C_post_empty]"

definition mm_prog :: "(int, int, int) prog" where
  "mm_prog = \<lparr>producer_body = mm_performTransactions, consumer_body = mm_processTransactions,
     bufsize = BUFFER_SIZE, produce = performRandomTransaction, consume = add_to_deposit\<rparr>"

definition mm_main :: "int list \<Rightarrow> startup + (int, int) ring" where
  "mm_main = start_threads
     ([sem_check ''fill_count'', sem_check ''empty_count'', sem_check ''read_mutex'',
       sem_check ''write_mutex'']
      @ thread_checks NUM_PRODUCERS ''producer'' @ thread_checks NUM_CONSUMERS ''consumer'')
     (pc_globals 1 1 NUM_PRODUCERS NUM_CONSUMERS)"

section \<open>many_prod_one_cons.c\<close>

definition mo_performTransactions :: "plabel list" where
  "mo_performTransactions =
    [P_produce, P_wait_empty, P_wait_mutex, P_load_slot, P_store_slot, P_load_idx, P_store_idx,
     P_post_mutex, P_post_fill]"

definition mo_processTransactions :: "clabel list" where
  "mo_processTransactions =
    [C_wait_fill, C_load_slot, C_load_item, C_load_idx, C_store_idx, C_post_empty,
     C_load_dep, C_store_dep, C_print]"

definition mo_prog :: "(int, int, int) prog" where
  "mo_prog = \<lparr>producer_body = mo_performTransactions, consumer_body = mo_processTransactions,
     bufsize = BUFFER_SIZE, produce = performRandomTransaction, consume = add_to_deposit\<rparr>"

definition mo_main :: "int list \<Rightarrow> startup + (int, int) ring" where
  "mo_main = start_threads
     ([sem_check ''fill_count'', sem_check ''empty_count'', sem_check ''write_mutex'']
      @ thread_checks NUM_PRODUCERS ''producer'' @ thread_checks 1 ''consumer'')
     (pc_globals 0 1 NUM_PRODUCERS 1)"

section \<open>one_prod_many_cons.c\<close>

definition om_performTransactions :: "plabel list" where
  "om_performTransactions =
    [P_produce, P_wait_empty, P_load_slot, P_store_slot, P_load_idx, P_store_idx, P_post_fill]"

definition om_processTransactions :: "clabel list" where
  "om_processTransactions =
    [C_wait_fill, C_wait_mutex, C_load_slot, C_load_item, C_load_dep, C_store_dep, C_load_idx,
     C_store_idx, C_print, C_post_mutex, C_post_empty]"

definition om_prog :: "(int, int, int) prog" where
  "om_prog = \<lparr>producer_body = om_performTransactions, consumer_body = om_processTransactions,
     bufsize = BUFFER_SIZE, produce = performRandomTransaction, consume = add_to_deposit\<rparr>"

definition om_main :: "int list \<Rightarrow> startup + (int, int) ring" where
  "om_main = start_threads
     ([sem_check ''fill_count'', sem_check ''empty_count'', sem_check ''read_mutex'']
      @ thread_checks 1 ''producer'' @ thread_checks NUM_CONSUMERS ''consumer'')
     (pc_globals 1 0 1 NUM_CONSUMERS)"

section \<open>one_prod_one_cons.c\<close>

definition oo_performTransactions :: "plabel list" where
  "oo_performTransactions =
    [P_produce, P_wait_empty, P_load_slot, P_store_slot, P_load_idx, P_store_idx, P_post_fill]"

definition oo_processTransactions :: "clabel list" where
  "oo_processTransactions =
    [C_wait_fill, C_load_slot, C_load_item, C_load_idx, C_store_idx, C_post_empty,
     C_load_dep, C_store_dep, C_print]"

definition oo_prog :: "(int, int, int) prog" where
  "oo_prog = \<lparr>producer_body = oo_performTransactions, consumer_body = oo_processTransactions,
     bufsize = BUFFER_SIZE, produce = performRandomTransaction, consume = add_to_deposit\<rparr>"

definition oo_main :: "int list \<Rightarrow> startup + (int, int) ring" where
  "oo_main = start_threads
     ([sem_check ''fill_count'', sem_check ''empty_count'']
      @ thread_checks 1 ''producer'' @ thread_checks 1 ''consumer'')
     (pc_globals 0 0 1 1)"

section \<open>The programs keep the contract\<close>

lemmas mm_defs = mm_prog_def mm_performTransactions_def mm_processTransactions_def
lemmas mo_defs = mo_prog_def mo_performTransactions_def mo_processTransactions_def
lemmas om_defs = om_prog_def om_performTransactions_def om_processTransactions_def
lemmas oo_defs = oo_prog_def oo_performTransactions_def oo_processTransactions_def

interpretation mm: ring_program mm_prog True True In_lock 3 3
proof
  fix l m
  show "plive True l \<Longrightarrow> next_in (producer_body mm_prog) l = prod_next True l"
    by (cases l) (simp_all add: mm_defs next_in_def)
  show "clive In_lock True m \<Longrightarrow> next_in (consumer_body mm_prog) m = cons_next In_lock True m"
    by (cases m) (simp_all add: mm_defs next_in_def clive_def)
qed (simp_all add: mm_defs pc_constants)

interpretation mo: ring_program mo_prog True False After_post 3 1
proof
  fix l m
  show "plive True l \<Longrightarrow> next_in (producer_body mo_prog) l = prod_next True l"
    by (cases l) (simp_all add: mo_defs next_in_def)
  show "clive After_post False m \<Longrightarrow> next_in (consumer_body mo_prog) m = cons_next After_post False m"
    by (cases m) (simp_all add: mo_defs next_in_def clive_def)
qed (simp_all add: mo_defs pc_constants)

interpretation om: ring_program om_prog False True In_lock 1 3
proof
  fix l m
  show "plive False l \<Longrightarrow> next_in (producer_body om_prog) l = prod_next False l"
    by (cases l) (simp_all add: om_defs next_in_def plive_def)
  show "clive In_lock True m \<Longrightarrow> next_in (consumer_body om_prog) m = cons_next In_lock True m"
    by (cases m) (simp_all add: om_defs next_in_def clive_def)
qed (simp_all add: om_defs pc_constants)

interpretation oo: ring_program oo_prog False False After_post 1 1
proof
  fix l m
  show "plive False l \<Longrightarrow> next_in (producer_body oo_prog) l = prod_next False l"
    by (cases l) (simp_all add: oo_defs next_in_def plive_def)
  show "clive After_post False m \<Longrightarrow> next_in (consumer_body oo_prog) m = cons_next After_post False m"
    by (cases m) (simp_all add: oo_defs next_in_def clive_def)
qed (simp_all add: oo_defs pc_constants)

text \<open>The invariant holds when \<open>main\<close> has started the threads.\<close>

lemmas ring_inv_defs = ring_inv_def ring_shape_def ring_tokens_def ring_slots_def ring_sink_def

lemma mm_start: "mm_main rets = Inr s0 \<Longrightarrow> ring_inv mm_prog True True In_lock 3 3 0 s0"
  by (auto simp: mm_main_def ring_inv_defs pc_globals_def mm_prog_def pc_constants plive_def clive_def
      dest!: start_threads_Inr)

lemma mo_start: "mo_main rets = Inr s0 \<Longrightarrow> ring_inv mo_prog True False After_post 3 1 0 s0"
  by (auto simp: mo_main_def ring_inv_defs pc_globals_def mo_prog_def pc_constants plive_def clive_def
      dest!: start_threads_Inr)

lemma om_start: "om_main rets = Inr s0 \<Longrightarrow> ring_inv om_prog False True In_lock 1 3 0 s0"
  by (auto simp: om_main_def ring_inv_defs pc_globals_def om_prog_def pc_constants plive_def clive_def
      dest!: start_threads_Inr)

lemma oo_start: "oo_main rets = Inr s0 \<Longrightarrow> ring_inv oo_prog False False After_post 1 1 0 s0"
  by (auto simp: oo_main_def ring_inv_defs pc_globals_def oo_prog_def pc_constants plive_def clive_def
      dest!: start_threads_Inr)

lemmas mm_inv = mm.reachable_inv [OF _ mm_start]
lemmas mo_inv = mo.reachable_inv [OF _ mo_start]
lemmas om_inv = om.reachable_inv [OF _ om_start]
lemmas oo_inv = oo.reachable_inv [OF _ oo_start]

lemma mm_items: "reachable mm_prog s0 s \<Longrightarrow> mm_main rets = Inr s0 \<Longrightarrow> ring_items mm_prog s"
  by (rule reachable_items) (auto simp: mm_main_def ring_items_def pc_globals_def dest!: start_threads_Inr)

lemma fold_deposit: "fold add_to_deposit xs d = d + sum_list xs"
  by (induction xs arbitrary: d) (simp_all add: add_to_deposit_def)

section \<open>Transactions\<close>

lemma performRandomTransaction_range:
  "performRandomTransaction r \<noteq> 0 \<and> -1000 \<le> performRandomTransaction r \<and> performRandomTransaction r \<le> 1000"
proof -
  have "r mod 2000 < 2000" "0 \<le> r mod 2000" by simp_all
  then show ?thesis unfolding performRandomTransaction_def MAX_TRANSACTION_def Let_def
    by (auto simp del: pos_mod_bound pos_mod_sign)
qed

text \<open>
  A transaction is never 0 and never exceeds \<open>MAX_TRANSACTION\<close> in either
  direction, and every other value in that range comes from some value of \<open>rand()\<close>.
\<close>

theorem performRandomTransaction_image:
  "performRandomTransaction ` {0..} = {-1000..1000} - {0}"
proof
  show "performRandomTransaction ` {0..} \<subseteq> {-1000..1000} - {0}"
    using performRandomTransaction_range by auto
  show "{-1000..1000} - {0} \<subseteq> performRandomTransaction ` {0..}"
  proof
    fix x :: int assume x: "x \<in> {-1000..1000} - {0}"
    show "x \<in> performRandomTransaction ` {0..}"
    proof (cases "0 < x")
      case True
      with x have "x = performRandomTransaction (x - 1)"
        by (simp add: performRandomTransaction_def MAX_TRANSACTION_def)
      then show ?thesis using True by (intro image_eqI) auto
    next
      case False
      with x have "x = performRandomTransaction (999 - x)"
        by (simp add: performRandomTransaction_def MAX_TRANSACTION_def Let_def)
      then show ?thesis using False by (intro image_eqI) auto
    qed
  qed
qed

section \<open>Properties\<close>

text \<open>A run used by the witnesses: two items produced, one of them taken up to the printing test.\<close>

definition mm_demo :: "int event list" where
  "mm_demo = replicate 9 (Prod 0 41) @ replicate 9 (Prod 2 1500) @ replicate 8 (Cons 1)"

lemma mm_demo_main: "mm_main (replicate 16 0) = Inr (pc_globals 1 1 3 3)"
  by code_simp

lemma mm_demo_run:
  obtains s where "reachable mm_prog (pc_globals 1 1 3 3) s" and "written s = [42, -501]"
    and "consumed s = [42]" and "taken s = [42]" and "clab (cons s ! 1) = C_print" and "exited s = None"
proof -
  have "map_option (\<lambda>s. (written s, consumed s, taken s, clab (cons s ! 1), exited s))
      (run mm_prog mm_demo (pc_globals 1 1 3 3)) = Some ([42, -501], [42], [42], C_print, None)"
    by code_simp
  then obtain s where run: "run mm_prog mm_demo (pc_globals 1 1 3 3) = Some s"
    and s: "written s = [42, -501]" "consumed s = [42]" "taken s = [42]"
      "clab (cons s ! 1) = C_print" "exited s = None"
    by (auto simp: map_option_eq_Some)
  from run_reachable [OF reachable.start run] s that show ?thesis by blast
qed



text \<open>
  C2: many producers, many consumers: at any time at most one producer is between reading
  \<open>write_index\<close> and storing it back, and at most one consumer between reading
  \<open>read_index\<close> and printing.
\<close>

theorem mm_mutual_exclusion:
  assumes "mm_main rets = Inr s0" and "reachable mm_prog s0 s"
  shows "cnt (\<lambda>t. plab t \<in> {P_load_slot, P_store_slot, P_load_idx, P_store_idx}) (prods s) \<le> 1 \<and>
    cnt (\<lambda>t. clab t \<in> {C_load_slot, C_load_item, C_load_dep, C_store_dep, C_load_idx, C_store_idx, C_print})
      (cons s) \<le> 1"
proof -
  note inv = mm_inv [OF assms(2,1)]
  have "cnt (Pcrit \<circ> plab) (prods s) \<le> 1" "cnt (Ccrit In_lock \<circ> clab) (cons s) \<le> 1"
    using mm.producer_alone mm.consumer_alone inv by (auto simp: ring_inv_def)
  then show ?thesis
    using cnt_mono [of "prods s" "\<lambda>t. plab t \<in> {P_load_slot, P_store_slot, P_load_idx, P_store_idx}" "Pcrit \<circ> plab"]
      cnt_mono [of "cons s" "\<lambda>t. clab t \<in> {C_load_slot, C_load_item, C_load_dep, C_store_dep, C_load_idx, C_store_idx, C_print}"
        "Ccrit In_lock \<circ> clab"]
    by (auto intro: order_trans)
qed

theorem mm_mutual_exclusion_witness:
  "\<exists>s. reachable mm_prog (pc_globals 1 1 3 3) s \<and> clab (cons s ! 1) = C_print \<and>
    cnt (\<lambda>t. clab t \<in> {C_load_slot, C_load_item, C_load_dep, C_store_dep, C_load_idx, C_store_idx, C_print})
      (cons s) \<le> 1"
proof -
  obtain s where s: "reachable mm_prog (pc_globals 1 1 3 3) s" "clab (cons s ! 1) = C_print"
    by (rule mm_demo_run)
  from mm_mutual_exclusion [OF mm_demo_main s(1)] s show ?thesis by blast
qed

text \<open>
  C3: many producers, many consumers: a producer about to store into a slot and a consumer about
  to read one never address the same slot, though no mutex covers both.
\<close>

theorem mm_no_slot_race:
  assumes "mm_main rets = Inr s0" and "reachable mm_prog s0 s"
    and "i < NUM_PRODUCERS" and "plab (prods s ! i) = P_store_slot"
    and "j < NUM_CONSUMERS" and "clab (cons s ! j) = C_load_item"
  shows "preg (prods s ! i) \<noteq> cidx (cons s ! j)"
  using mm.no_slot_race [OF mm_inv [OF assms(2,1)]] assms by (simp add: pc_constants)

theorem mm_no_slot_race_witness:
  "\<exists>s. reachable mm_prog (pc_globals 1 1 3 3) s \<and> preg (prods s ! 1) \<noteq> cidx (cons s ! 2)"
proof -
  let ?evs = "replicate 9 (Prod 0 41) @ replicate 4 (Prod 1 5) @ replicate 3 (Cons 2)"
  have "map_option (\<lambda>s. (plab (prods s ! 1), clab (cons s ! 2)))
      (run mm_prog ?evs (pc_globals 1 1 3 3)) = Some (P_store_slot, C_load_item)"
    by code_simp
  then obtain s where "run mm_prog ?evs (pc_globals 1 1 3 3) = Some s"
    and s: "plab (prods s ! 1) = P_store_slot" "clab (cons s ! 2) = C_load_item"
    by (auto simp: map_option_eq_Some)
  from run_reachable [OF reachable.start this(1)]
  have r: "reachable mm_prog (pc_globals 1 1 3 3) s" .
  from mm_no_slot_race [OF mm_demo_main r _ s(1) _ s(2)] r show ?thesis
    by (auto simp: pc_constants)
qed

text \<open>
  C4: many producers, many consumers: as long as the process runs, some thread can execute its
  next statement.
\<close>

theorem mm_no_deadlock:
  assumes "mm_main rets = Inr s0" and "reachable mm_prog s0 s" and "exited s = None"
  shows "(\<exists>i s'. i < NUM_PRODUCERS \<and> exec mm_prog (Prod i r) s = Some s') \<or>
    (\<exists>j s'. j < NUM_CONSUMERS \<and> exec mm_prog (Cons j) s = Some s')"
  using mm.no_deadlock [OF mm_inv [OF assms(2,1)], of r] assms(3)
  by (auto simp: exec_def pc_constants)

theorem mm_no_deadlock_witness:
  "\<exists>s ev s'. reachable mm_prog (pc_globals 1 1 3 3) s \<and> exec mm_prog ev s = Some s'"
proof -
  obtain s where s: "reachable mm_prog (pc_globals 1 1 3 3) s" "exited s = None"
    by (rule mm_demo_run)
  from mm_no_deadlock [OF mm_demo_main s, of 0] s(1) show ?thesis by blast
qed

text \<open>
  Many producers, many consumers: when every thread is at the head of its loop, the deposit
  is the sum of all published items except the last \<open>fill_count\<close>, and the two
  counting semaphores add up to the size of the buffer.
\<close>

theorem mm_quiescent:
  assumes "mm_main rets = Inr s0" and "reachable mm_prog s0 s"
    and "cnt (\<lambda>t. plab t \<noteq> P_produce) (prods s) = 0" and "cnt (\<lambda>t. clab t \<noteq> C_wait_fill) (cons s) = 0"
  shows "deposit s = INITIAL_DEPOSIT + sum_list (take (length (written s) - fill_count s) (written s)) \<and>
    fill_count s + empty_count s = BUFFER_SIZE"
proof -
  have idle: "\<forall>t\<in>set (prods s). plab t = P_produce" "\<forall>t\<in>set (cons s). clab t = C_wait_fill"
    using assms(3,4) by (auto simp: cnt_zero_iff)
  note inv = mm_inv [OF assms(2,1)]
  from mm.quiescent [OF inv idle] mm.fifo(4) [OF inv] show ?thesis
    by (simp add: mm_prog_def fold_deposit INITIAL_DEPOSIT_def)
qed

theorem mm_quiescent_witness:
  "\<exists>s. reachable mm_prog (pc_globals 1 1 3 3) s \<and> written s = [42, -501] \<and> deposit s = 42 \<and>
    fill_count s = 1 \<and> empty_count s = 127"
proof -
  let ?evs = "mm_demo @ replicate 3 (Cons 1)"
  have "map_option (\<lambda>s. (written s, fill_count s, cnt (\<lambda>t. plab t \<noteq> P_produce) (prods s),
      cnt (\<lambda>t. clab t \<noteq> C_wait_fill) (cons s))) (run mm_prog ?evs (pc_globals 1 1 3 3))
      = Some ([42, -501], 1, 0, 0)"
    by code_simp
  then obtain s where "run mm_prog ?evs (pc_globals 1 1 3 3) = Some s"
    and s: "written s = [42, -501]" "fill_count s = 1" "cnt (\<lambda>t. plab t \<noteq> P_produce) (prods s) = 0"
      "cnt (\<lambda>t. clab t \<noteq> C_wait_fill) (cons s) = 0"
    by (auto simp: map_option_eq_Some)
  from run_reachable [OF reachable.start this(1)]
  have r: "reachable mm_prog (pc_globals 1 1 3 3) s" .
  from mm_quiescent [OF mm_demo_main r s(3,4)] r s(1,2) show ?thesis
    by (intro exI [of _ s]) (simp add: pc_constants)
qed

text \<open>
  Many producers, many consumers: the balance is printed exactly when the number of items
  taken, modulo 128, is a multiple of 10, and it is the sum of all of them. The message says
  \<open>after the last 10 transactions\<close>, but where \<open>read_index\<close> wraps (120,
  then 128) the last 8 are meant.
\<close>

theorem mm_print:
  assumes "mm_main rets = Inr s0" and "reachable mm_prog s0 s" and "j < NUM_CONSUMERS"
    and "clab (cons s ! j) = C_print" and "exec mm_prog (Cons j) s = Some s'"
  shows "printed s' = (if length (taken s) mod BUFFER_SIZE mod 10 = 0
    then printed s @ [INITIAL_DEPOSIT + sum_list (taken s)] else printed s)"
proof -
  have "exec_consumer mm_prog j s = Some s'" using assms(5) by (simp add: exec_def split: if_splits)
  with mm.print_step [OF mm_inv [OF assms(2,1)]] assms(3,4) show ?thesis
    by (simp add: mm_prog_def fold_deposit pc_constants)
qed

theorem mm_print_witness:
  "\<exists>s s'. reachable mm_prog (pc_globals 1 1 3 3) s \<and> exec mm_prog (Cons 1) s = Some s' \<and>
    length (taken s) = 1 \<and> printed s' = printed s"
proof -
  obtain s where s: "reachable mm_prog (pc_globals 1 1 3 3) s" "clab (cons s ! 1) = C_print"
    "taken s = [42]" "exited s = None"
    by (rule mm_demo_run)
  have len: "length (cons s) = 3"
    using mm_inv [OF s(1) mm_demo_main] by (simp add: ring_inv_def ring_shape_def)
  obtain s' where ex: "exec mm_prog (Cons 1) s = Some s'"
    using s(2,4) len by (auto simp: exec_def exec_consumer_def Let_def)
  from mm_print [OF mm_demo_main s(1) _ s(2) ex] s ex show ?thesis
    by (intro exI [of _ s] exI [of _ s']) (simp add: pc_constants)
qed

text \<open>
  Many producers, many consumers: the deposit is at most 1000 per consumed item in absolute
  value, so the 32-bit \<open>int\<close> cannot overflow within the first 2147483 items.
\<close>

theorem mm_deposit_bound:
  assumes "mm_main rets = Inr s0" and "reachable mm_prog s0 s"
  shows "\<bar>deposit s\<bar> \<le> 1000 * int (length (consumed s))"
proof -
  have "prefix (consumed s) (written s)" "deposit s = sum_list (consumed s)"
    using mm.fifo [OF mm_inv [OF assms(2,1)]] by (simp_all add: mm_prog_def fold_deposit)
  moreover from this(1) have "set (consumed s) \<subseteq> range performRandomTransaction"
    using mm_items [OF assms(2,1)] by (auto simp: ring_items_def mm_prog_def dest: set_mono_prefix)
  ultimately have "\<forall>x\<in>set (consumed s). \<bar>x\<bar> \<le> 1000"
    using performRandomTransaction_range by (auto simp: abs_le_iff minus_le_iff)
  moreover have "\<forall>x\<in>set xs. \<bar>x\<bar> \<le> 1000 \<Longrightarrow> \<bar>sum_list xs\<bar> \<le> 1000 * int (length xs)" for xs :: "int list"
    by (induction xs) auto
  ultimately show ?thesis using \<open>deposit s = sum_list (consumed s)\<close> by simp
qed

theorem mm_deposit_bound_witness:
  "\<exists>s. reachable mm_prog (pc_globals 1 1 3 3) s \<and> consumed s = [42] \<and> \<bar>deposit s\<bar> \<le> 1000"
proof -
  obtain s where s: "reachable mm_prog (pc_globals 1 1 3 3) s" "consumed s = [42]"
    by (rule mm_demo_run)
  from mm_deposit_bound [OF mm_demo_main s(1)] s show ?thesis by auto
qed

text \<open>
  C23: many producers, many consumers: the globals stay well formed in every interleaving: the buffer
  keeps its 128 slots, both indices and every index about to be used are inside, the semaphores
  stay in their ranges, and every transaction published is a possible one.
\<close>

theorem mm_well_formed:
  assumes "mm_main rets = Inr s0" and "reachable mm_prog s0 s"
  shows "length (transactions s) = BUFFER_SIZE \<and> read_index s < BUFFER_SIZE \<and> write_index s < BUFFER_SIZE \<and>
    fill_count s + empty_count s \<le> BUFFER_SIZE \<and> write_mutex s \<le> 1 \<and> read_mutex s \<le> 1 \<and>
    (\<forall>t\<in>set (prods s). plab t = P_store_slot \<longrightarrow> preg t < BUFFER_SIZE) \<and>
    (\<forall>t\<in>set (cons s). clab t = C_load_item \<longrightarrow> cidx t < BUFFER_SIZE) \<and>
    (\<forall>x\<in>set (written s). x \<noteq> 0 \<and> - MAX_TRANSACTION \<le> x \<and> x \<le> MAX_TRANSACTION)"
proof -
  have "\<forall>x\<in>set (written s). x \<noteq> 0 \<and> - MAX_TRANSACTION \<le> x \<and> x \<le> MAX_TRANSACTION"
    using mm_items [OF assms(2,1)] performRandomTransaction_range
    by (auto simp: ring_items_def mm_prog_def MAX_TRANSACTION_def dest!: subsetD)
  moreover have "bufsize mm_prog = BUFFER_SIZE" by (simp add: mm_prog_def)
  ultimately show ?thesis using mm.in_bounds [OF mm_inv [OF assms(2,1)]] by simp
qed

theorem mm_well_formed_witness:
  "\<exists>s. reachable mm_prog (pc_globals 1 1 3 3) s \<and> written s = [42, -501] \<and> write_index s < BUFFER_SIZE \<and>
    (\<forall>x\<in>set (written s). x \<noteq> 0 \<and> - MAX_TRANSACTION \<le> x \<and> x \<le> MAX_TRANSACTION)"
proof -
  obtain s where s: "reachable mm_prog (pc_globals 1 1 3 3) s" "written s = [42, -501]" by (rule mm_demo_run)
  with mm_well_formed [OF mm_demo_main s(1)] show ?thesis by blast
qed

text \<open>Two producers run the body that has no mutex: both read \<open>write_index\<close> before either advances it.\<close>

definition lost_item_schedule :: "int event list" where
  "lost_item_schedule = [Prod 0 7, Prod 0 0, Prod 0 0, Prod 1 11, Prod 1 0, Prod 1 0, Prod 0 0,
     Prod 1 0, Prod 0 0, Prod 1 0, Prod 0 0, Prod 1 0, Prod 0 0, Prod 1 0] @ replicate 18 (Cons 0)"


text \<open>
  Many producers, one consumer: the buffer is the same lossless FIFO, at most one producer
  is in its critical section, and some thread can always move.
\<close>

theorem mo_bounded_fifo:
  assumes "mo_main rets = Inr s0" and "reachable mo_prog s0 s"
  shows "bounded_fifo mo_prog INITIAL_DEPOSIT s \<and>
    cnt (Pcrit \<circ> plab) (prods s) \<le> 1 \<and>
    ((\<exists>i s'. i < NUM_PRODUCERS \<and> exec_producer mo_prog i r s = Some s') \<or>
     (\<exists>s'. exec_consumer mo_prog 0 s = Some s'))"
proof -
  note inv = mo_inv [OF assms(2,1)]
  from inv have "cnt (Pcrit \<circ> plab) (prods s) \<le> 1"
    using mo.producer_alone by (auto simp: ring_inv_def)
  with mo.refines_fifo [OF inv] mo.no_deadlock [OF inv, of r] show ?thesis
    by (auto simp: pc_constants)
qed

lemma mo_demo_main: "mo_main (replicate 11 0) = Inr (pc_globals 0 1 3 1)"
  by code_simp

theorem mo_bounded_fifo_witness:
  "\<exists>s. mo_main (replicate 11 0) = Inr (pc_globals 0 1 3 1) \<and> written s = [42, -501] \<and>
     consumed s = [42] \<and> bounded_fifo mo_prog INITIAL_DEPOSIT s"
proof -
  let ?evs = "replicate 9 (Prod 0 41) @ replicate 9 (Prod 2 1500) @ replicate 9 (Cons 0)"
  have "map_option (\<lambda>s. (written s, consumed s)) (run mo_prog ?evs (pc_globals 0 1 3 1))
    = Some ([42, -501], [42])" by code_simp
  then obtain s where "run mo_prog ?evs (pc_globals 0 1 3 1) = Some s"
    and s: "written s = [42, -501]" "consumed s = [42]" by (auto simp: map_option_eq_Some)
  from mo_bounded_fifo [OF mo_demo_main run_reachable [OF reachable.start this(1)], of 0] s mo_demo_main
  show ?thesis by (intro exI [of _ s]) simp
qed

text \<open>
  One producer, many consumers: the buffer is the same lossless FIFO, at most one consumer
  is in its critical section, and some thread can always move.
\<close>

theorem om_bounded_fifo:
  assumes "om_main rets = Inr s0" and "reachable om_prog s0 s"
  shows "bounded_fifo om_prog INITIAL_DEPOSIT s \<and>
    cnt (Ccrit In_lock \<circ> clab) (cons s) \<le> 1 \<and>
    ((\<exists>s'. exec_producer om_prog 0 r s = Some s') \<or>
     (\<exists>j s'. j < NUM_CONSUMERS \<and> exec_consumer om_prog j s = Some s'))"
proof -
  note inv = om_inv [OF assms(2,1)]
  from inv have "cnt (Ccrit In_lock \<circ> clab) (cons s) \<le> 1"
    using om.consumer_alone by (auto simp: ring_inv_def)
  with om.refines_fifo [OF inv] om.no_deadlock [OF inv, of r] show ?thesis
    by (auto simp: pc_constants)
qed

lemma om_demo_main: "om_main (replicate 11 0) = Inr (pc_globals 1 0 1 3)"
  by code_simp

theorem om_bounded_fifo_witness:
  "\<exists>s. om_main (replicate 11 0) = Inr (pc_globals 1 0 1 3) \<and> written s = [42, -501] \<and>
     consumed s = [42] \<and> bounded_fifo om_prog INITIAL_DEPOSIT s"
proof -
  let ?evs = "replicate 7 (Prod 0 41) @ replicate 7 (Prod 0 1500) @ replicate 11 (Cons 2)"
  have "map_option (\<lambda>s. (written s, consumed s)) (run om_prog ?evs (pc_globals 1 0 1 3))
    = Some ([42, -501], [42])" by code_simp
  then obtain s where "run om_prog ?evs (pc_globals 1 0 1 3) = Some s"
    and s: "written s = [42, -501]" "consumed s = [42]" by (auto simp: map_option_eq_Some)
  from om_bounded_fifo [OF om_demo_main run_reachable [OF reachable.start this(1)], of 0] s om_demo_main
  show ?thesis by (intro exI [of _ s]) simp
qed

text \<open>
  One producer, one consumer: with no mutex at all the buffer is the same lossless FIFO, and
  one of the two threads can always move.
\<close>

theorem oo_bounded_fifo:
  assumes "oo_main rets = Inr s0" and "reachable oo_prog s0 s"
  shows "bounded_fifo oo_prog INITIAL_DEPOSIT s \<and>
    ((\<exists>s'. exec_producer oo_prog 0 r s = Some s') \<or> (\<exists>s'. exec_consumer oo_prog 0 s = Some s'))"
  using oo.refines_fifo [OF oo_inv [OF assms(2,1)]] oo.no_deadlock [OF oo_inv [OF assms(2,1)], of r]
  by (auto simp: pc_constants)

lemma oo_demo_main: "oo_main (replicate 6 0) = Inr (pc_globals 0 0 1 1)"
  by code_simp

theorem oo_bounded_fifo_witness:
  "\<exists>s. oo_main (replicate 6 0) = Inr (pc_globals 0 0 1 1) \<and> written s = [42, -501] \<and>
     consumed s = [42] \<and> bounded_fifo oo_prog INITIAL_DEPOSIT s"
proof -
  let ?evs = "replicate 7 (Prod 0 41) @ replicate 7 (Prod 0 1500) @ replicate 9 (Cons 0)"
  have "map_option (\<lambda>s. (written s, consumed s)) (run oo_prog ?evs (pc_globals 0 0 1 1))
    = Some ([42, -501], [42])" by code_simp
  then obtain s where "run oo_prog ?evs (pc_globals 0 0 1 1) = Some s"
    and s: "written s = [42, -501]" "consumed s = [42]" by (auto simp: map_option_eq_Some)
  from oo_bounded_fifo [OF oo_demo_main run_reachable [OF reachable.start this(1)], of 0] s oo_demo_main
  show ?thesis by (intro exI [of _ s]) simp
qed

end
