(* ===== verification/Posix_IO.thy ===== *)
theory Posix_IO
  imports Prelude
begin

text \<open>
  The system calls the sequential programs make, and the loops around them that recur in the
  labs: \<open>read\<close>/\<open>recv\<close>, \<open>write\<close>/\<open>send\<close>, \<open>close\<close>, \<open>fgets\<close>. A process reads one stream of bytes
  and writes another one. What the kernel does at each call (how many bytes it moves, whether
  the call is interrupted or fails) is a list of answers: every theorem is for all of them. A
  process that has used up the list is waiting in its next call (\<open>Blocked\<close>).
\<close>

section \<open>State and outcomes\<close>

type_synonym byte = char

datatype errno = ENONE | EINTR | EEXIST | EOTHER nat

text \<open>
  \<open>Xfer j k\<close>: the call succeeds; a read moves up to \<open>j + 1\<close> bytes, a write up to \<open>k + 1\<close>.
  \<open>Err e\<close>: the call returns -1 and sets \<open>errno\<close>.
\<close>

datatype answer = Xfer nat nat | Err errno

record io =
  inp :: "byte list"  \<comment> \<open>bytes still to come; at its end the peer has closed\<close>
  out :: "byte list"  \<comment> \<open>bytes written so far\<close>
  answers :: "answer list"
  errno :: errno
  stdin :: "byte list"
  stdout :: "string list"
  stderr :: "string list"
  closed :: "string list"  \<comment> \<open>descriptors closed, by name\<close>
  unlinked :: "string list"  \<comment> \<open>names removed from the file system\<close>
  sigterms :: nat  \<comment> \<open>SIGTERM signals sent to another process\<close>
  sem_posts :: nat  \<comment> \<open>posts on the semaphore that limits the connections\<close>
  logged :: "string list"  \<comment> \<open>messages handed to a logger\<close>

text \<open>
  \<open>Exit n\<close>: the process called \<open>exit(n)\<close>; \<open>Undefined\<close>: it accessed memory outside of an array.
\<close>

datatype 'a outcome = Done 'a | Exit int | Blocked | Undefined

type_synonym 'a result = "'a outcome \<times> io"

text \<open>Sequencing: \<open>andthen m f\<close> goes on with \<open>f\<close> only where \<open>m\<close> returned.\<close>

fun andthen :: "'a result \<Rightarrow> ('a \<Rightarrow> io \<Rightarrow> 'b result) \<Rightarrow> 'b result" where
  "andthen (Done a, w) f = f a w"
| "andthen (Exit n, w) f = (Exit n, w)"
| "andthen (Blocked, w) f = (Blocked, w)"
| "andthen (Undefined, w) f = (Undefined, w)"

lemma andthen_cong [fundef_cong]:
  "m = m' \<Longrightarrow> (\<And>a w. m' = (Done a, w) \<Longrightarrow> f a w = g a w) \<Longrightarrow> andthen m f = andthen m' g"
  by (cases "(m', g)" rule: andthen.cases) auto

lemma andthen_Done:
  "andthen m f = (Done b, w') \<longleftrightarrow> (\<exists>a w. m = (Done a, w) \<and> f a w = (Done b, w'))"
  by (cases "(m, f)" rule: andthen.cases) auto

lemma andthen_split:
  "P (andthen m f) \<longleftrightarrow>
    (\<forall>a w. m = (Done a, w) \<longrightarrow> P (f a w)) \<and> (\<forall>n w. m = (Exit n, w) \<longrightarrow> P (Exit n, w)) \<and>
    (\<forall>w. m = (Blocked, w) \<longrightarrow> P (Blocked, w)) \<and> (\<forall>w. m = (Undefined, w) \<longrightarrow> P (Undefined, w))"
  by (cases "(m, f)" rule: andthen.cases) auto

section \<open>C strings and buffers\<close>

definition NUL :: byte where "NUL = CHR 0x00"
definition NL :: byte where "NL = CHR 0x0A"

text \<open>Storing a block of bytes into a buffer from an offset on.\<close>

definition blit :: "nat \<Rightarrow> byte list \<Rightarrow> byte list \<Rightarrow> byte list" where
  "blit off c buf = take off buf @ c @ drop (off + length c) buf"

lemma length_blit [simp]: "off + length c \<le> length buf \<Longrightarrow> length (blit off c buf) = length buf"
  by (simp add: blit_def)

lemma take_blit: "off \<le> length buf \<Longrightarrow> take (off + length c) (blit off c buf) = take off buf @ c"
  by (simp add: blit_def)

lemma take_blit_0 [simp]: "take (length c) (blit 0 c buf) = c"
  by (simp add: blit_def)

text \<open>The string a buffer holds; a buffer without terminator is read past its end.\<close>

definition c_str :: "byte list \<Rightarrow> string option" where
  "c_str buf = (if NUL \<in> set buf then Some (takeWhile (\<lambda>c. c \<noteq> NUL) buf) else None)"

lemma c_str_terminated: "NUL \<notin> set s \<Longrightarrow> c_str (s @ NUL # rest) = Some s"
  by (subst c_str_def, subst takeWhile_append2) auto

text \<open>\<open>!memcmp(buf, s, strlen(s))\<close>\<close>

definition starts_with :: "byte list \<Rightarrow> string \<Rightarrow> bool" where
  "starts_with buf s \<longleftrightarrow> take (length s) buf = s"

section \<open>System calls\<close>

definition sys_read :: "nat \<Rightarrow> io \<Rightarrow> (int \<times> byte list) result" where
  "sys_read n w = (case answers w of
     [] \<Rightarrow> (Blocked, w)
   | Err e # as' \<Rightarrow> (Done (- 1, []), w\<lparr>answers := as', errno := e\<rparr>)
   | Xfer k u # as' \<Rightarrow>
       (let c = take (min n (Suc k)) (inp w)
        in (Done (int (length c), c), w\<lparr>answers := as', inp := drop (min n (Suc k)) (inp w)\<rparr>)))"

definition sys_write :: "byte list \<Rightarrow> io \<Rightarrow> int result" where
  "sys_write data w = (case answers w of
     [] \<Rightarrow> (Blocked, w)
   | Err e # as' \<Rightarrow> (Done (- 1), w\<lparr>answers := as', errno := e\<rparr>)
   | Xfer u k # as' \<Rightarrow>
       (let c = take (Suc k) data
        in (Done (int (length c)), w\<lparr>answers := as', out := out w @ c\<rparr>)))"

definition sys_close :: "string \<Rightarrow> io \<Rightarrow> int result" where
  "sys_close fd w = (case answers w of
     [] \<Rightarrow> (Blocked, w)
   | Err e # as' \<Rightarrow> (Done (- 1), w\<lparr>answers := as', errno := e\<rparr>)
   | Xfer u k # as' \<Rightarrow> (Done 0, w\<lparr>answers := as', closed := closed w @ [fd]\<rparr>))"

definition sys_unlink :: "string \<Rightarrow> io \<Rightarrow> int result" where
  "sys_unlink name w = (case answers w of
     [] \<Rightarrow> (Blocked, w)
   | Err e # as' \<Rightarrow> (Done (- 1), w\<lparr>answers := as', errno := e\<rparr>)
   | Xfer u k # as' \<Rightarrow> (Done 0, w\<lparr>answers := as', unlinked := unlinked w @ [name]\<rparr>))"

definition sys_sem_post :: "io \<Rightarrow> int result" where
  "sys_sem_post w = (case answers w of
     [] \<Rightarrow> (Blocked, w)
   | Err e # as' \<Rightarrow> (Done (- 1), w\<lparr>answers := as', errno := e\<rparr>)
   | Xfer u k # as' \<Rightarrow> (Done 0, w\<lparr>answers := as', sem_posts := sem_posts w + 1\<rparr>))"

text \<open>
  \<open>fgets(buf, n, stdin)\<close>: up to \<open>n - 1\<close> bytes, ending after the first newline; \<open>NULL\<close>
  (here \<open>None\<close>) at the end of the input.
\<close>

definition fgets :: "nat \<Rightarrow> io \<Rightarrow> byte list option \<times> io" where
  "fgets n w =
    (if stdin w = [] then (None, w)
     else (let rest = dropWhile (\<lambda>c. c \<noteq> NL) (stdin w);
               line = takeWhile (\<lambda>c. c \<noteq> NL) (stdin w) @ (if rest = [] then [] else [NL]);
               c = take (n - 1) line
           in (Some c, w\<lparr>stdin := drop (length c) (stdin w)\<rparr>)))"

definition print :: "string \<Rightarrow> io \<Rightarrow> io" where
  "print s w = w\<lparr>stdout := stdout w @ [s]\<rparr>"

definition eprint :: "string \<Rightarrow> io \<Rightarrow> io" where
  "eprint s w = w\<lparr>stderr := stderr w @ [s]\<rparr>"

text \<open>The body of \<open>GENERIC_ERROR_HELPER\<close>: print the message, \<open>exit(EXIT_FAILURE)\<close>.\<close>

definition error_exit :: "string \<Rightarrow> io \<Rightarrow> 'a result" where
  "error_exit msg w = (Exit 1, w\<lparr>stderr := stderr w @ [msg]\<rparr>)"

text \<open>\<open>ERROR_HELPER(ret, msg)\<close>\<close>

definition error_helper :: "int \<Rightarrow> string \<Rightarrow> io \<Rightarrow> unit result" where
  "error_helper ret msg w = (if ret < 0 then error_exit msg w else (Done (), w))"

text \<open>\<open>ret = close(fd); ERROR_HELPER(ret, msg);\<close> and the same for \<open>unlink\<close>\<close>

definition close_or_exit :: "string \<Rightarrow> string \<Rightarrow> io \<Rightarrow> unit result" where
  "close_or_exit fd msg w = andthen (sys_close fd w) (\<lambda>ret. error_helper ret msg)"

definition post_or_exit :: "string \<Rightarrow> io \<Rightarrow> unit result" where
  "post_or_exit msg w = andthen (sys_sem_post w) (\<lambda>ret. error_helper ret msg)"

definition unlink_or_exit :: "string \<Rightarrow> string \<Rightarrow> io \<Rightarrow> unit result" where
  "unlink_or_exit name msg w = andthen (sys_unlink name w) (\<lambda>ret. error_helper ret msg)"

lemma sys_read_Done:
  "sys_read n w = (Done (r, c), w') \<Longrightarrow> length (answers w') < length (answers w) \<and>
     (r = -1 \<and> c = [] \<and> w' = w\<lparr>answers := answers w', errno := errno w'\<rparr> \<or>
      r = int (length c) \<and> length c \<le> n \<and> inp w = c @ inp w' \<and> (0 < n \<and> c = [] \<longrightarrow> inp w = []) \<and>
      w' = w\<lparr>answers := answers w', inp := inp w'\<rparr>)"
  by (auto simp: sys_read_def Let_def split: list.splits answer.splits)

lemma sys_write_Done:
  "sys_write data w = (Done r, w') \<Longrightarrow> length (answers w') < length (answers w) \<and>
     (r = -1 \<and> w' = w\<lparr>answers := answers w', errno := errno w'\<rparr> \<or>
      (\<exists>c. r = int (length c) \<and> c = take (length c) data \<and> length c \<le> length data \<and>
         (data \<noteq> [] \<longrightarrow> c \<noteq> []) \<and>
         w' = w\<lparr>answers := answers w', out := out w @ c\<rparr>))"
  by (auto simp: sys_write_def Let_def min_def split: list.splits answer.splits
      intro!: exI [of _ "take (Suc _) data"])

lemma sys_close_Done:
  "sys_close fd w = (Done r, w') \<Longrightarrow> length (answers w') < length (answers w)"
  by (auto simp: sys_close_def split: list.splits answer.splits)

lemma sys_call_outcome:
  "fst (sys_read n w) \<in> {Blocked} \<union> range Done" "fst (sys_write data w) \<in> {Blocked} \<union> range Done"
  "fst (sys_close fd w) \<in> {Blocked} \<union> range Done"
  by (auto simp: sys_read_def sys_write_def sys_close_def Let_def split: list.splits answer.splits)

section \<open>The loops around the calls\<close>

text \<open>
  Every byte is written: \<open>while (bytes_left > 0) { ret = write(fd, buf + written, bytes_left);
  if (ret == -1 && errno == EINTR) continue; ERROR_HELPER(ret, msg); bytes_left -= ret;
  written += ret; }\<close>. The result is the final value of \<open>written\<close>.
\<close>

function write_all :: "string \<Rightarrow> byte list \<Rightarrow> nat \<Rightarrow> nat \<Rightarrow> io \<Rightarrow> nat result" where
  "write_all msg buf written bytes_left w =
    (if bytes_left > 0 then
       andthen (sys_write (take bytes_left (drop written buf)) w) (\<lambda>ret w.
         if ret = -1 \<and> errno w = EINTR then write_all msg buf written bytes_left w
         else if ret < 0 then error_exit msg w
         else write_all msg buf (written + nat ret) (bytes_left - nat ret) w)
     else (Done written, w))"
  by pat_completeness auto
termination
  by (relation "measure (\<lambda>(msg, buf, written, bytes_left, w). length (answers w))")
    (auto dest: sys_write_Done)

text \<open>
  The lab11 version of the loop tests \<open>ret == 1\<close> where \<open>ret == -1\<close> is meant:
  \<open>while (bytes_sent < msg_len) { ret = send(...); if (ret == 1 && errno == EINTR) continue;
  ERROR_HELPER(ret, msg); bytes_sent += ret; }\<close>
\<close>

function send_all_eq1 :: "string \<Rightarrow> byte list \<Rightarrow> nat \<Rightarrow> nat \<Rightarrow> io \<Rightarrow> nat result" where
  "send_all_eq1 msg buf bytes_sent msg_len w =
    (if bytes_sent < msg_len then
       andthen (sys_write (take (msg_len - bytes_sent) (drop bytes_sent buf)) w) (\<lambda>ret w.
         if ret = 1 \<and> errno w = EINTR then send_all_eq1 msg buf bytes_sent msg_len w
         else if ret < 0 then error_exit msg w
         else send_all_eq1 msg buf (bytes_sent + nat ret) msg_len w)
     else (Done bytes_sent, w))"
  by pat_completeness auto
termination
  by (relation "measure (\<lambda>(msg, buf, bytes_sent, msg_len, w). length (answers w))")
    (auto dest: sys_write_Done)

text \<open>
  One successful \<open>send\<close>, which may be partial: \<open>while ((ret = send(fd, buf, len, 0)) < 0) {
  if (errno == EINTR) continue; ERROR_HELPER(-1, msg); }\<close>
\<close>

function send_retry :: "string \<Rightarrow> byte list \<Rightarrow> io \<Rightarrow> nat result" where
  "send_retry msg data w =
    andthen (sys_write data w) (\<lambda>ret w.
      if ret < 0 then (if errno w = EINTR then send_retry msg data w else error_exit msg w)
      else (Done (nat ret), w))"
  by pat_completeness auto
termination
  by (relation "measure (\<lambda>(msg, data, w). length (answers w))") (auto dest: sys_write_Done)

text \<open>
  \<open>while ((n = recv(fd, buf, len, 0)) < 0) { if (errno == EINTR) continue;
  ERROR_HELPER(-1, msg); }\<close>: the result are the bytes received, none when the peer has closed.
\<close>

function recv_retry :: "string \<Rightarrow> nat \<Rightarrow> io \<Rightarrow> byte list result" where
  "recv_retry msg len w =
    andthen (sys_read len w) (\<lambda>r w. case r of (ret, c) \<Rightarrow>
      if ret < 0 then (if errno w = EINTR then recv_retry msg len w else error_exit msg w)
      else (Done c, w))"
  by pat_completeness auto
termination
  by (relation "measure (\<lambda>(msg, len, w). length (answers w))") (auto dest: sys_read_Done)

text \<open>
  The later version treats a closed connection as an error: \<open>while ((n = recv(...)) <= 0) {
  if (n == 0) ERROR_HELPER(-1, closed_msg); if (errno == EINTR) continue;
  ERROR_HELPER(-1, msg); }\<close>
\<close>

function recv_open :: "string \<Rightarrow> string \<Rightarrow> nat \<Rightarrow> io \<Rightarrow> byte list result" where
  "recv_open closed_msg msg len w =
    andthen (sys_read len w) (\<lambda>r w. case r of (ret, c) \<Rightarrow>
      if ret = 0 then error_exit closed_msg w
      else if ret < 0 then
        (if errno w = EINTR then recv_open closed_msg msg len w else error_exit msg w)
      else (Done c, w))"
  by pat_completeness auto
termination
  by (relation "measure (\<lambda>(closed_msg, msg, len, w). length (answers w))") (auto dest: sys_read_Done)

declare write_all.simps [simp del] send_all_eq1.simps [simp del] send_retry.simps [simp del]
  recv_retry.simps [simp del] recv_open.simps [simp del]

section \<open>What the loops guarantee\<close>

text \<open>Answers that are not a failure, and how many of them move data.\<close>

definition benign :: "answer list \<Rightarrow> bool" where
  "benign xs \<longleftrightarrow> list_all (\<lambda>a. case a of Err e \<Rightarrow> e = EINTR | Xfer u k \<Rightarrow> True) xs"

definition xfers :: "answer list \<Rightarrow> nat" where
  "xfers xs = length (filter (\<lambda>a. case a of Err e \<Rightarrow> False | Xfer u k \<Rightarrow> True) xs)"

lemma benign_simps [simp]:
  "benign []" "benign (Xfer u k # xs) = benign xs" "benign (Err e # xs) \<longleftrightarrow> e = EINTR \<and> benign xs"
  by (simp_all add: benign_def)

lemma xfers_simps [simp]:
  "xfers [] = 0" "xfers (Xfer u k # xs) = Suc (xfers xs)" "xfers (Err e # xs) = xfers xs"
  by (simp_all add: xfers_def)

lemma write_all_0 [simp]: "write_all msg buf k 0 w = (Done k, w)"
  by (simp add: write_all.simps)

text \<open>The loops, one answer of the kernel at a time.\<close>

lemma take_drop_join [simp]:
  "take (min n j) (drop k xs) @ take (n - min n j) (drop (k + min n j) xs) = take n (drop k xs)"
proof -
  have "take (min n j + (n - min n j)) (drop k xs) = take n (drop k xs)" by simp
  then show ?thesis by (simp only: take_add drop_drop add.commute)
qed

lemma write_all_step:
  assumes "0 < n" and "k + n \<le> length buf"
  shows "answers w = [] \<Longrightarrow> write_all msg buf k n w = (Blocked, w)"
    and "answers w = Err EINTR # xs \<Longrightarrow>
      write_all msg buf k n w = write_all msg buf k n (w\<lparr>answers := xs, errno := EINTR\<rparr>)"
    and "answers w = Err e # xs \<Longrightarrow> e \<noteq> EINTR \<Longrightarrow>
      write_all msg buf k n w = error_exit msg (w\<lparr>answers := xs, errno := e\<rparr>)"
    and "answers w = Xfer u j # xs \<Longrightarrow>
      write_all msg buf k n w = write_all msg buf (k + min n (Suc j)) (n - min n (Suc j))
        (w\<lparr>answers := xs, out := out w @ take (min n (Suc j)) (drop k buf)\<rparr>)"
  using assms
  by (subst write_all.simps, simp add: sys_write_def Let_def min.absorb2 min.commute)+

lemma write_all_induct [consumes 1, case_names empty blocked intr fail xfer]:
  assumes bound: "k + n \<le> length buf"
    and "\<And>k w. k \<le> length buf \<Longrightarrow> P k 0 w (Done k, w)"
    and "\<And>k n w. 0 < n \<Longrightarrow> k + n \<le> length buf \<Longrightarrow> answers w = [] \<Longrightarrow> P k n w (Blocked, w)"
    and "\<And>k n w xs res. 0 < n \<Longrightarrow> k + n \<le> length buf \<Longrightarrow> answers w = Err EINTR # xs \<Longrightarrow>
      P k n (w\<lparr>answers := xs, errno := EINTR\<rparr>) res \<Longrightarrow> P k n w res"
    and "\<And>k n w e xs. 0 < n \<Longrightarrow> k + n \<le> length buf \<Longrightarrow> answers w = Err e # xs \<Longrightarrow> e \<noteq> EINTR \<Longrightarrow>
      P k n w (error_exit msg (w\<lparr>answers := xs, errno := e\<rparr>))"
    and "\<And>k n w u j xs q res. k + n \<le> length buf \<Longrightarrow> answers w = Xfer u j # xs \<Longrightarrow> 0 < q \<Longrightarrow> q \<le> n \<Longrightarrow>
      P (k + q) (n - q) (w\<lparr>answers := xs, out := out w @ take q (drop k buf)\<rparr>) res \<Longrightarrow> P k n w res"
  shows "P k n w (write_all msg buf k n w)"
  using bound
proof (induction "answers w" arbitrary: k n w)
  case Nil
  with assms(2,3) show ?case by (cases "n = 0") (auto simp: write_all_step)
next
  case (Cons a xs)
  note ans = Cons.hyps(2)[symmetric]
  show ?case
  proof (cases "n = 0")
    case True
    with Cons.prems assms(2) show ?thesis by simp
  next
    case False
    show ?thesis
    proof (cases a)
      case (Xfer u j)
      with False Cons.prems ans have "P (k + min n (Suc j)) (n - min n (Suc j))
        (w\<lparr>answers := xs, out := out w @ take (min n (Suc j)) (drop k buf)\<rparr>) (write_all msg buf k n w)"
        using Cons.hyps(1) [of "w\<lparr>answers := xs, out := out w @ take (min n (Suc j)) (drop k buf)\<rparr>"
            "k + min n (Suc j)" "n - min n (Suc j)"] by (simp add: write_all_step)
      with assms(6) [of k n w u j xs "min n (Suc j)"] Cons.prems ans Xfer False show ?thesis by simp
    next
      case (Err e)
      with Cons.prems ans False Cons.hyps(1) [of "w\<lparr>answers := xs, errno := EINTR\<rparr>" k n]
        assms(4) [of n k w xs] assms(5) [of n k w e xs]
      show ?thesis by (cases "e = EINTR") (simp_all add: write_all_step)
    qed
  qed
qed

text \<open>
  When the loop returns, everything has been written and nothing else has changed; whatever
  happens, what has been written is an initial part of what was to be written.
\<close>

lemma write_all_Done:
  assumes "write_all msg buf k n w = (Done m, w')" and "k + n \<le> length buf"
  shows "m = k + n \<and> length (answers w') \<le> length (answers w) \<and>
    w' = w\<lparr>out := out w @ take n (drop k buf), answers := answers w', errno := errno w'\<rparr>"
proof -
  let ?P = "\<lambda>k n w res. res = (Done m, w') \<longrightarrow> m = k + n \<and> length (answers w') \<le> length (answers w) \<and>
    w' = w\<lparr>out := out w @ take n (drop k buf), answers := answers w', errno := errno w'\<rparr>"
  from assms(2) have "?P k n w (write_all msg buf k n w)"
  proof (rule write_all_induct [where P = ?P], goal_cases)
    case (5 k n w u j xs q res)
    have "take q (drop k buf) @ take (n - q) (drop (k + q) buf) = take n (drop k buf)"
      using take_drop_join [of n q k buf] 5(4) by (simp add: min_absorb2)
    with 5 show ?case by auto
  qed (auto simp: error_exit_def)
  with assms(1) show ?thesis by blast
qed

lemma write_all_prefix:
  assumes "k + n \<le> length buf"
  shows "case write_all msg buf k n w of (r, w') \<Rightarrow>
    \<exists>j \<le> n. out w' = out w @ take j (drop k buf) \<and> inp w' = inp w \<and>
      length (answers w') \<le> length (answers w) \<and> r \<noteq> Undefined \<and>
      (\<forall>c. r = Exit c \<longrightarrow> c = 1 \<and> \<not> benign (answers w))"
  using assms
proof (induction rule: write_all_induct [where msg = msg])
  case (xfer k n w u j xs q res)
  have join: "take q (drop k buf) @ take i (drop (k + q) buf) = take (q + i) (drop k buf)" for i
    by (simp add: take_add [of q i] add.commute [of k q])
  from xfer obtain r w' i where "res = (r, w')" "i \<le> n - q" "out w' = out w @ take (q + i) (drop k buf)"
    "inp w' = inp w" "length (answers w') \<le> length xs" "r \<noteq> Undefined"
    "\<forall>c. r = Exit c \<longrightarrow> c = 1 \<and> \<not> benign xs"
    by (auto simp: join split: prod.splits)
  with xfer show ?case by (auto intro!: exI [of _ "q + i"])
next
  case (intr k n w xs res)
  then show ?case by (auto split: prod.splits)
next
  case (fail k n w e xs)
  then show ?case by (auto simp: error_exit_def intro!: exI [of _ 0])
qed auto

text \<open>A process that is only interrupted, and not starved of answers, writes everything.\<close>

lemma write_all_completes:
  assumes "k + n \<le> length buf" and "benign (answers w)" and "n \<le> xfers (answers w)"
  shows "\<exists>w'. write_all msg buf k n w = (Done (k + n), w') \<and> benign (answers w') \<and>
    xfers (answers w) \<le> xfers (answers w') + n"
proof -
  let ?P = "\<lambda>k n w res. benign (answers w) \<longrightarrow> n \<le> xfers (answers w) \<longrightarrow>
    (\<exists>w'. res = (Done (k + n), w') \<and> benign (answers w') \<and> xfers (answers w) \<le> xfers (answers w') + n)"
  from assms(1) have "?P k n w (write_all msg buf k n w)"
    by (rule write_all_induct [where P = ?P]) (auto simp: error_exit_def)
  with assms(2,3) show ?thesis by blast
qed

text \<open>The receiving loops return one non-empty chunk, or nothing at the end of the stream.\<close>

lemma recv_retry_step:
  "answers w = [] \<Longrightarrow> recv_retry msg len w = (Blocked, w)"
  "answers w = Err EINTR # xs \<Longrightarrow>
    recv_retry msg len w = recv_retry msg len (w\<lparr>answers := xs, errno := EINTR\<rparr>)"
  "answers w = Err e # xs \<Longrightarrow> e \<noteq> EINTR \<Longrightarrow>
    recv_retry msg len w = error_exit msg (w\<lparr>answers := xs, errno := e\<rparr>)"
  "answers w = Xfer j u # xs \<Longrightarrow> recv_retry msg len w =
    (Done (take (min len (Suc j)) (inp w)), w\<lparr>answers := xs, inp := drop (min len (Suc j)) (inp w)\<rparr>)"
  by (subst recv_retry.simps, simp add: sys_read_def Let_def)+

lemma recv_open_step:
  "answers w = [] \<Longrightarrow> recv_open cmsg msg len w = (Blocked, w)"
  "answers w = Err EINTR # xs \<Longrightarrow>
    recv_open cmsg msg len w = recv_open cmsg msg len (w\<lparr>answers := xs, errno := EINTR\<rparr>)"
  "answers w = Err e # xs \<Longrightarrow> e \<noteq> EINTR \<Longrightarrow>
    recv_open cmsg msg len w = error_exit msg (w\<lparr>answers := xs, errno := e\<rparr>)"
  "answers w = Xfer j u # xs \<Longrightarrow> recv_open cmsg msg len w =
    (if len = 0 \<or> inp w = [] then error_exit cmsg (w\<lparr>answers := xs\<rparr>)
     else (Done (take (min len (Suc j)) (inp w)),
       w\<lparr>answers := xs, inp := drop (min len (Suc j)) (inp w)\<rparr>))"
  by (subst recv_open.simps, auto simp add: sys_read_def Let_def error_exit_def)+

lemma send_retry_step:
  "answers w = [] \<Longrightarrow> send_retry msg data w = (Blocked, w)"
  "answers w = Err EINTR # xs \<Longrightarrow>
    send_retry msg data w = send_retry msg data (w\<lparr>answers := xs, errno := EINTR\<rparr>)"
  "answers w = Err e # xs \<Longrightarrow> e \<noteq> EINTR \<Longrightarrow>
    send_retry msg data w = error_exit msg (w\<lparr>answers := xs, errno := e\<rparr>)"
  "answers w = Xfer u j # xs \<Longrightarrow> send_retry msg data w =
    (Done (min (length data) (Suc j)), w\<lparr>answers := xs, out := out w @ take (Suc j) data\<rparr>)"
  by (subst send_retry.simps, simp add: sys_write_def Let_def)+

lemma recv_retry_result:
  "recv_retry msg n w = (r, w') \<Longrightarrow> set (answers w') \<subseteq> set (answers w) \<and> out w' = out w \<and>
    (case r of Done c \<Rightarrow> inp w = c @ inp w' \<and> length c \<le> n \<and> (0 < n \<and> c = [] \<longrightarrow> inp w = []) \<and>
        length (answers w') < length (answers w) \<and>
        w' = w\<lparr>inp := inp w', answers := answers w', errno := errno w'\<rparr>
     | Exit e \<Rightarrow> e = 1 \<and> inp w' = inp w | Blocked \<Rightarrow> inp w' = inp w | Undefined \<Rightarrow> False)"
proof (induction "answers w" arbitrary: w)
  case (Cons a xs)
  note ans = Cons.hyps(2)[symmetric]
  show ?case
  proof (cases a)
    case (Xfer j u)
    with Cons.prems ans show ?thesis by (auto simp: recv_retry_step)
  next
    case (Err e)
    with Cons.prems ans Cons.hyps(1) [of "w\<lparr>answers := xs, errno := EINTR\<rparr>"] show ?thesis
      by (cases "e = EINTR") (fastforce simp: recv_retry_step error_exit_def split: outcome.splits)+
  qed
qed (auto simp: recv_retry_step)

lemma recv_open_result:
  "recv_open cmsg msg n w = (r, w') \<Longrightarrow> set (answers w') \<subseteq> set (answers w) \<and> out w' = out w \<and>
    (case r of Done c \<Rightarrow> inp w = c @ inp w' \<and> length c \<le> n \<and> c \<noteq> [] \<and>
        length (answers w') < length (answers w) \<and>
        w' = w\<lparr>inp := inp w', answers := answers w', errno := errno w'\<rparr>
     | Exit e \<Rightarrow> e = 1 \<and> inp w' = inp w | Blocked \<Rightarrow> inp w' = inp w | Undefined \<Rightarrow> False)"
proof (induction "answers w" arbitrary: w)
  case (Cons a xs)
  note ans = Cons.hyps(2)[symmetric]
  show ?case
  proof (cases a)
    case (Xfer j u)
    with Cons.prems ans show ?thesis by (auto simp: recv_open_step error_exit_def split: if_splits)
  next
    case (Err e)
    with Cons.prems ans Cons.hyps(1) [of "w\<lparr>answers := xs, errno := EINTR\<rparr>"] show ?thesis
      by (cases "e = EINTR") (fastforce simp: recv_open_step error_exit_def split: outcome.splits)+
  qed
qed (auto simp: recv_open_step)

text \<open>One \<open>send\<close> may be short: only its first \<open>m\<close> bytes are out, and \<open>m\<close> is not looked at.\<close>

lemma send_retry_result:
  "send_retry msg data w = (r, w') \<Longrightarrow> set (answers w') \<subseteq> set (answers w) \<and> inp w' = inp w \<and>
    (case r of Done m \<Rightarrow> m \<le> length data \<and> (data \<noteq> [] \<longrightarrow> 0 < m) \<and>
        length (answers w') < length (answers w) \<and> (\<exists>u k. Xfer u k \<in> set (answers w) \<and> m = min (length data) (Suc k)) \<and>
        w' = w\<lparr>out := out w @ take m data, answers := answers w', errno := errno w'\<rparr>
     | Exit e \<Rightarrow> e = 1 \<and> out w' = out w | Blocked \<Rightarrow> out w' = out w | Undefined \<Rightarrow> False)"
proof (induction "answers w" arbitrary: w)
  case (Cons a xs)
  note ans = Cons.hyps(2)[symmetric]
  show ?case
  proof (cases a)
    case (Xfer u j)
    have "take (min (length data) (Suc j)) data = take (Suc j) data" by (simp add: min_def)
    with Cons.prems ans Xfer show ?thesis by (clarsimp simp: send_retry_step) blast
  next
    case (Err e)
    with Cons.prems ans Cons.hyps(1) [of "w\<lparr>answers := xs, errno := EINTR\<rparr>"] show ?thesis
      by (cases "e = EINTR") (fastforce simp: send_retry_step error_exit_def split: outcome.splits)+
  qed
qed (auto simp: send_retry_step)

end
