(* ===== verification/Stream_Contract.thy ===== *)
theory Stream_Contract
  imports Posix_IO "HOL-Library.Sublist"
begin

text \<open>
  What a program relies on when it receives and sends over a byte stream, as two interfaces:
  \<open>receiver\<close> and \<open>sender\<close>, and the loops of \<open>Posix_IO\<close> that provide them.
\<close>

section \<open>The kernel's answers are used up in order\<close>

text \<open>
  \<open>later w w'\<close>: between \<open>w\<close> and \<open>w'\<close> the process has only made calls; \<open>errno\<close> is what it was, or
  the code of a call that failed in between (a successful call does not reset it).
\<close>

definition later :: "io \<Rightarrow> io \<Rightarrow> bool" where
  "later w w' \<longleftrightarrow> set (answers w') \<subseteq> set (answers w) \<and>
     length (answers w') \<le> length (answers w) \<and>
     (errno w' = errno w \<or> Err (errno w') \<in> set (answers w))"

lemma later_refl [simp]: "later w w"
  by (simp add: later_def)

lemma later_trans [trans]: "later w w' \<Longrightarrow> later w' w'' \<Longrightarrow> later w w''"
  by (auto simp: later_def)

lemma later_cong: "answers v = answers w \<Longrightarrow> errno v = errno w \<Longrightarrow> later v w' \<longleftrightarrow> later w w'"
  "answers v' = answers w' \<Longrightarrow> errno v' = errno w' \<Longrightarrow> later w v' \<longleftrightarrow> later w w'"
  by (auto simp: later_def)

lemma later_step: "later (v\<lparr>answers := xs, errno := e\<rparr>) w' \<Longrightarrow> answers v = Err e # xs \<Longrightarrow> later v w'"
  "later (v\<lparr>answers := xs, out := out'\<rparr>) w' \<Longrightarrow> answers v = a # xs \<Longrightarrow> later v w'"
  by (auto simp: later_def)

lemma later_sys: "sys_read n w = (r, w') \<Longrightarrow> later w w'" "sys_write data w = (r', w') \<Longrightarrow> later w w'"
  "sys_close fd w = (r'', w') \<Longrightarrow> later w w'" "sys_unlink name w = (r'', w') \<Longrightarrow> later w w'"
  by (auto simp: later_def sys_read_def sys_write_def sys_close_def sys_unlink_def Let_def
      split: list.splits answer.splits)

lemma later_andthen:
  assumes "andthen m f = (r, w')" and "\<And>r v. m = (r, v) \<Longrightarrow> later w v"
    and "\<And>a v. m = (Done a, v) \<Longrightarrow> f a v = (r, w') \<Longrightarrow> later v w'"
  shows "later w w'"
  using assms by (cases "(m, f)" rule: andthen.cases) (auto intro: later_trans)

lemma later_error_exit: "error_exit msg w = (r, w') \<Longrightarrow> later w w'"
  by (auto simp: error_exit_def later_def)

text \<open>Calls that do not touch the two byte streams.\<close>

definition off_stream :: "'a outcome \<Rightarrow> io \<Rightarrow> io \<Rightarrow> bool" where
  "off_stream r w w' \<longleftrightarrow> later w w' \<and> inp w' = inp w \<and> out w' = out w \<and> (\<forall>n. r = Exit n \<longrightarrow> n = 1)"

lemma off_stream_andthen:
  assumes "andthen m f = (r, w')" and "\<And>r v. m = (r, v) \<Longrightarrow> off_stream r w v"
    and "\<And>a v. m = (Done a, v) \<Longrightarrow> f a v = (r, w') \<Longrightarrow> off_stream r v w'"
  shows "off_stream r w w'"
proof -
  obtain r1 v where m: "m = (r1, v)" by (cases m)
  have s1: "off_stream r1 w v" using m by (rule assms(2))
  show ?thesis
  proof (cases r1)
    case (Done a)
    with assms(1) m have "f a v = (r, w')" by simp
    with assms(3) m Done have "off_stream r v w'" by simp
    with s1 show ?thesis by (auto simp: off_stream_def elim: later_trans)
  qed (use assms(1) m s1 in \<open>auto simp: off_stream_def\<close>)
qed

lemma off_stream_error: "error_helper ret msg w = (r, w') \<Longrightarrow> off_stream r w w'"
  "error_exit msg w = (r', w') \<Longrightarrow> off_stream r' w w'"
  by (auto simp: error_helper_def error_exit_def off_stream_def later_def split: if_splits)

lemma off_stream_sys: "sys_close fd w = (r, w') \<Longrightarrow> off_stream r w w'"
  "sys_unlink name w = (r, w') \<Longrightarrow> off_stream r w w'" "sys_sem_post w = (r, w') \<Longrightarrow> off_stream r w w'"
  by (auto simp: off_stream_def later_def sys_close_def sys_unlink_def sys_sem_post_def split: list.splits answer.splits)

lemma off_stream_exit: "close_or_exit fd msg w = (r, w') \<Longrightarrow> off_stream r w w'"
  "unlink_or_exit name msg w = (r, w') \<Longrightarrow> off_stream r w w'"
  "post_or_exit msg w = (r, w') \<Longrightarrow> off_stream r w w'"
  unfolding close_or_exit_def unlink_or_exit_def post_or_exit_def
  by (erule off_stream_andthen; erule off_stream_sys off_stream_error)+

lemma later_write_all: "write_all msg buf k n w = (r, w') \<Longrightarrow> later w w'"
proof (induction msg buf k n w rule: write_all.induct)
  case (1 msg buf k n w)
  show ?case
  proof (cases "n > 0")
    case True
    with 1 show ?thesis
      by (subst (asm) write_all.simps)
        (auto elim!: later_andthen split: if_splits dest: later_sys later_error_exit)
  next
    case False
    with 1 show ?thesis by (subst (asm) write_all.simps) simp
  qed
qed

lemma later_send_all_eq1: "send_all_eq1 msg buf k n w = (r, w') \<Longrightarrow> later w w'"
proof (induction msg buf k n w rule: send_all_eq1.induct)
  case (1 msg buf k n w)
  show ?case
  proof (cases "k < n")
    case True
    with 1 show ?thesis
      by (subst (asm) send_all_eq1.simps)
        (auto elim!: later_andthen split: if_splits dest: later_sys later_error_exit)
  next
    case False
    with 1 show ?thesis by (subst (asm) send_all_eq1.simps) simp
  qed
qed

lemma later_send_retry: "send_retry msg data w = (r, w') \<Longrightarrow> later w w'"
proof (induction msg data w rule: send_retry.induct)
  case (1 msg data w)
  then show ?case
    by (subst (asm) send_retry.simps)
      (auto elim!: later_andthen split: if_splits dest: later_sys later_error_exit)
qed

lemma later_recv_retry: "recv_retry msg n w = (r, w') \<Longrightarrow> later w w'"
proof (induction msg n w rule: recv_retry.induct)
  case (1 msg n w)
  then show ?case
    by (subst (asm) recv_retry.simps)
      (auto elim!: later_andthen split: if_splits dest: later_sys later_error_exit)
qed

lemma later_recv_open: "recv_open cmsg msg n w = (r, w') \<Longrightarrow> later w w'"
proof (induction cmsg msg n w rule: recv_open.induct)
  case (1 cmsg msg n w)
  then show ?case
    by (subst (asm) recv_open.simps)
      (auto elim!: later_andthen split: if_splits dest: later_sys later_error_exit)
qed

text \<open>Termination of the loops around these loops: every round uses up an answer.\<close>

lemma answers_decrease:
  "recv_retry msg n w = (Done c, w') \<Longrightarrow> length (answers w') < length (answers w)"
  "recv_open cmsg msg n w = (Done c, w') \<Longrightarrow> length (answers w') < length (answers w)"
  "send_retry msg data w = (Done m, w') \<Longrightarrow> length (answers w') < length (answers w)"
  by (auto dest: recv_retry_result recv_open_result send_retry_result)

lemma answers_le:
  "send_all_eq1 msg buf k m w = (r, w') \<Longrightarrow> length (answers w') \<le> length (answers w)"
  "write_all msg buf k m w = (r, w') \<Longrightarrow> length (answers w') \<le> length (answers w)"
  "off_stream r w w' \<Longrightarrow> length (answers w') \<le> length (answers w)"
  using later_send_all_eq1 later_write_all by (auto simp: later_def off_stream_def)

section \<open>The loop that tests for 1 instead of -1\<close>

text \<open>
  As long as no call has been interrupted, testing \<open>ret == 1\<close> in place of \<open>ret == -1\<close> makes
  no difference: the loop is \<open>write_all\<close>.
\<close>

lemma send_all_eq1_done [simp]: "m \<le> k \<Longrightarrow> send_all_eq1 msg buf k m w = (Done k, w)"
  by (simp add: send_all_eq1.simps)

lemma send_all_eq1_step:
  assumes "0 < n" and "k + n \<le> length buf"
  shows "answers w = [] \<Longrightarrow> send_all_eq1 msg buf k (k + n) w = (Blocked, w)"
    and "answers w = Err e # xs \<Longrightarrow>
      send_all_eq1 msg buf k (k + n) w = error_exit msg (w\<lparr>answers := xs, errno := e\<rparr>)"
    and "answers w = Xfer u j # xs \<Longrightarrow> errno w \<noteq> EINTR \<or> min n (Suc j) \<noteq> 1 \<Longrightarrow>
      send_all_eq1 msg buf k (k + n) w = send_all_eq1 msg buf (k + min n (Suc j)) (k + n)
        (w\<lparr>answers := xs, out := out w @ take (min n (Suc j)) (drop k buf)\<rparr>)"
    and "answers w = Xfer u j # xs \<Longrightarrow> errno w = EINTR \<Longrightarrow> min n (Suc j) = 1 \<Longrightarrow>
      send_all_eq1 msg buf k (k + n) w = send_all_eq1 msg buf k (k + n)
        (w\<lparr>answers := xs, out := out w @ take 1 (drop k buf)\<rparr>)"
proof -
  have len: "length (take (min n (Suc j)) (drop k buf)) = min n (Suc j)" for j
    using assms(2) by simp
  show "answers w = [] \<Longrightarrow> send_all_eq1 msg buf k (k + n) w = (Blocked, w)"
    using assms by (subst send_all_eq1.simps) (simp add: sys_write_def)
  show "answers w = Err e # xs \<Longrightarrow>
      send_all_eq1 msg buf k (k + n) w = error_exit msg (w\<lparr>answers := xs, errno := e\<rparr>)"
    using assms by (subst send_all_eq1.simps) (simp add: sys_write_def)
  show "answers w = Xfer u j # xs \<Longrightarrow> errno w \<noteq> EINTR \<or> min n (Suc j) \<noteq> 1 \<Longrightarrow>
      send_all_eq1 msg buf k (k + n) w = send_all_eq1 msg buf (k + min n (Suc j)) (k + n)
        (w\<lparr>answers := xs, out := out w @ take (min n (Suc j)) (drop k buf)\<rparr>)"
    using assms by (subst send_all_eq1.simps) (auto simp: sys_write_def Let_def min.commute)
  show "answers w = Xfer u j # xs \<Longrightarrow> errno w = EINTR \<Longrightarrow> min n (Suc j) = 1 \<Longrightarrow>
      send_all_eq1 msg buf k (k + n) w = send_all_eq1 msg buf k (k + n)
        (w\<lparr>answers := xs, out := out w @ take 1 (drop k buf)\<rparr>)"
    using assms len [of j] by (subst send_all_eq1.simps) (auto simp: sys_write_def Let_def min.commute)
qed

lemma send_all_eq1_write_all:
  "errno w \<noteq> EINTR \<Longrightarrow> Err EINTR \<notin> set (answers w) \<Longrightarrow> k + n \<le> length buf \<Longrightarrow>
     send_all_eq1 msg buf k (k + n) w = write_all msg buf k n w"
proof (induction "answers w" arbitrary: k n w)
  case Nil
  then show ?case by (cases "n = 0") (simp_all add: send_all_eq1_step write_all_step)
next
  case (Cons a xs)
  note ans = Cons.hyps(2)[symmetric]
  show ?case
  proof (cases "n = 0")
    case True
    then show ?thesis by simp
  next
    case False
    show ?thesis
    proof (cases a)
      case (Xfer u j)
      let ?q = "min n (Suc j)"
      let ?v = "w\<lparr>answers := xs, out := out w @ take ?q (drop k buf)\<rparr>"
      have "send_all_eq1 msg buf (k + ?q) (k + ?q + (n - ?q)) ?v = write_all msg buf (k + ?q) (n - ?q) ?v"
        using Cons.prems ans by (intro Cons.hyps(1)) auto
      moreover have "k + ?q + (n - ?q) = k + n" by simp
      ultimately show ?thesis
        using False Cons.prems ans Xfer by (simp only:) (simp add: send_all_eq1_step write_all_step)
    next
      case (Err e)
      moreover from this Cons.prems ans have "e \<noteq> EINTR" by auto
      ultimately show ?thesis using False Cons.prems ans by (simp add: send_all_eq1_step write_all_step)
    qed
  qed
qed

text \<open>
  A stale \<open>EINTR\<close> in \<open>errno\<close> (left by an interrupted \<open>recv\<close>; a call that succeeds does not
  reset it) makes the loop repeat every send that moves exactly one byte.
\<close>

lemma send_all_eq1_livelock:
  "errno w = EINTR \<Longrightarrow> answers w = replicate n (Xfer u j) \<Longrightarrow>
     send_all_eq1 msg [b] 0 1 w = (Blocked, w\<lparr>answers := [], out := out w @ replicate n b\<rparr>)"
proof (induction n arbitrary: w)
  case 0
  then show ?case using send_all_eq1_step(1) [of 1 0 "[b]" w msg] by simp
next
  case (Suc n)
  then have "send_all_eq1 msg [b] 0 1 w =
      send_all_eq1 msg [b] 0 1 (w\<lparr>answers := replicate n (Xfer u j), out := out w @ [b]\<rparr>)"
    using send_all_eq1_step(4) [of 1 0 "[b]" w u j "replicate n (Xfer u j)" msg] by simp
  with Suc show ?case by (simp add: replicate_append_same)
qed

section \<open>Interfaces\<close>

text \<open>
  A receiver returns the next bytes of the stream, at most \<open>most\<close> of them, and uses up at least
  one answer; when it does not return, nothing has been taken from the stream.
\<close>

locale receiver =
  fixes receive :: "io \<Rightarrow> byte list result" and most :: nat
  assumes receive_law: "receive w = (r, w') \<Longrightarrow> later w w' \<and> out w' = out w \<and>
    (case r of Done c \<Rightarrow> inp w = c @ inp w' \<and> length c \<le> most \<and> length (answers w') < length (answers w)
     | Exit e \<Rightarrow> e = 1 \<and> inp w' = inp w | Blocked \<Rightarrow> inp w' = inp w | Undefined \<Rightarrow> False)"

text \<open>
  A sender that returns has written all of the data, provided its environment is \<open>reliable\<close>;
  whatever happens it has written an initial part of them. Every later state of a reliable
  environment is reliable.
\<close>

locale sender =
  fixes transmit :: "byte list \<Rightarrow> io \<Rightarrow> nat result" and reliable :: "io \<Rightarrow> bool" and limit :: nat
  assumes transmit_law: "transmit data w = (r, w') \<Longrightarrow> reliable w \<Longrightarrow> length data \<le> limit \<Longrightarrow>
      later w w' \<and> inp w' = inp w \<and> r \<noteq> Undefined \<and> (\<forall>n. r = Exit n \<longrightarrow> n = 1) \<and>
      (\<exists>e. out w' = out w @ e \<and> prefix e data \<and> (\<forall>n. r = Done n \<longrightarrow> e = data))"
    and reliable_later: "reliable w \<Longrightarrow> later w w' \<Longrightarrow> reliable w'"

section \<open>The loops provide them\<close>

interpretation recv_retry: receiver "recv_retry msg n" n for msg n
proof
  fix w r w'
  assume r: "recv_retry msg n w = (r, w')"
  from recv_retry_result [OF r] later_recv_retry [OF r]
  show "later w w' \<and> out w' = out w \<and>
    (case r of Done c \<Rightarrow> inp w = c @ inp w' \<and> length c \<le> n \<and> length (answers w') < length (answers w)
     | Exit e \<Rightarrow> e = 1 \<and> inp w' = inp w | Blocked \<Rightarrow> inp w' = inp w | Undefined \<Rightarrow> False)"
    by (simp split: outcome.splits)
qed

interpretation recv_open: receiver "recv_open closed_msg msg n" n for closed_msg msg n
proof
  fix w r w'
  assume r: "recv_open closed_msg msg n w = (r, w')"
  from recv_open_result [OF r] later_recv_open [OF r]
  show "later w w' \<and> out w' = out w \<and>
    (case r of Done c \<Rightarrow> inp w = c @ inp w' \<and> length c \<le> n \<and> length (answers w') < length (answers w)
     | Exit e \<Rightarrow> e = 1 \<and> inp w' = inp w | Blocked \<Rightarrow> inp w' = inp w | Undefined \<Rightarrow> False)"
    by (simp split: outcome.splits)
qed

text \<open>\<open>write_all\<close> makes no demands on the kernel.\<close>

lemma write_all_transmits:
  assumes "write_all msg data 0 (length data) w = (r, w')"
  shows "later w w' \<and> inp w' = inp w \<and> r \<noteq> Undefined \<and> (\<forall>n. r = Exit n \<longrightarrow> n = 1) \<and>
    (\<exists>e. out w' = out w @ e \<and> prefix e data \<and> (\<forall>n. r = Done n \<longrightarrow> e = data))"
proof -
  from write_all_prefix [of 0 "length data" data w msg] assms obtain j where j: "j \<le> length data"
    "out w' = out w @ take j data" "inp w' = inp w" "r \<noteq> Undefined" "\<forall>c. r = Exit c \<longrightarrow> c = 1"
    by auto
  have all_out: "out w' = out w @ data" if "r = Done n" for n
  proof -
    from write_all_Done [of msg data 0 "length data" w n w'] assms that
    have "w' = w\<lparr>out := out w @ data, answers := answers w', errno := errno w'\<rparr>" by simp
    then show ?thesis by (rule ssubst) simp
  qed
  show ?thesis
  proof (cases "\<exists>n. r = Done n")
    case True
    with all_out j later_write_all [OF assms] show ?thesis by auto
  next
    case False
    with j later_write_all [OF assms] show ?thesis by (auto intro: take_is_prefix)
  qed
qed

interpretation write_all: sender "\<lambda>data. write_all msg data 0 (length data)" "\<lambda>w. True" n for msg n
  by unfold_locales (use write_all_transmits in blast)+

text \<open>A single \<open>send\<close> needs a kernel that never sends less than it is asked to.\<close>

definition full_sends :: "nat \<Rightarrow> io \<Rightarrow> bool" where
  "full_sends n w \<longleftrightarrow> (\<forall>u k. Xfer u k \<in> set (answers w) \<longrightarrow> n \<le> Suc k)"

interpretation send_retry: sender "send_retry msg" "full_sends n" n for msg n
proof
  fix data w r w'
  assume send: "send_retry msg data w = (r, w')" and full: "full_sends n w" and len: "length data \<le> n"
  note res = send_retry_result [OF send]
  show "later w w' \<and> inp w' = inp w \<and> r \<noteq> Undefined \<and> (\<forall>n. r = Exit n \<longrightarrow> n = 1) \<and>
      (\<exists>e. out w' = out w @ e \<and> prefix e data \<and> (\<forall>n. r = Done n \<longrightarrow> e = data))"
  proof (cases r)
    case (Done m)
    from res Done obtain u k where "Xfer u k \<in> set (answers w)" "m = min (length data) (Suc k)"
      "w' = w\<lparr>out := out w @ take m data, answers := answers w', errno := errno w'\<rparr>" "inp w' = inp w"
      by auto
    then have "m = length data" "out w' = out (w\<lparr>out := out w @ take m data, answers := answers w', errno := errno w'\<rparr>)"
      using full len by (fastforce simp: full_sends_def, simp)
    then have "out w' = out w @ data" by simp
    with Done res later_send_retry [OF send] show ?thesis by auto
  qed (use res later_send_retry [OF send] in auto)
next
  fix w w' assume "full_sends n w" "later w w'"
  then show "full_sends n w'" by (auto simp: full_sends_def later_def)
qed

text \<open>The loop of lab11 needs that no call is interrupted.\<close>

definition uninterrupted :: "io \<Rightarrow> bool" where
  "uninterrupted w \<longleftrightarrow> errno w \<noteq> EINTR \<and> Err EINTR \<notin> set (answers w)"

interpretation send_all_eq1: sender "\<lambda>data. send_all_eq1 msg data 0 (length data)" uninterrupted n for msg n
proof
  fix data w r w'
  assume "send_all_eq1 msg data 0 (length data) w = (r, w')" and "uninterrupted w"
  then have "write_all msg data 0 (length data) w = (r, w')"
    using send_all_eq1_write_all [of w 0 "length data" data msg] by (simp add: uninterrupted_def)
  then show "later w w' \<and> inp w' = inp w \<and> r \<noteq> Undefined \<and> (\<forall>n. r = Exit n \<longrightarrow> n = 1) \<and>
      (\<exists>e. out w' = out w @ e \<and> prefix e data \<and> (\<forall>n. r = Done n \<longrightarrow> e = data))"
    by (rule write_all_transmits)
next
  fix w w' assume "uninterrupted w" "later w w'"
  then show "uninterrupted w'" by (auto simp: uninterrupted_def later_def)
qed

end
