(* ===== verification/C_Library.thy ===== *)
theory C_Library
  imports Posix_IO
begin

text \<open>
  The functions of the C library the programs use on strings and numbers: \<open>atoi\<close>, and \<open>%d\<close>,
  \<open>%u\<close>, \<open>%hu\<close> of \<open>printf\<close>.
\<close>

text \<open>\<open>%u\<close>, \<open>%hu\<close> and \<open>%d\<close> of \<open>printf\<close> for numbers that are not negative.\<close>

fun show_nat :: "nat \<Rightarrow> string" where
  "show_nat n = (if n < 10 then [char_of (48 + n)] else show_nat (n div 10) @ [char_of (48 + n mod 10)])"

declare show_nat.simps [simp del]

lemma length_show_nat: "n < 10 ^ k \<Longrightarrow> 0 < k \<Longrightarrow> length (show_nat n) \<le> k"
proof (induction k arbitrary: n)
  case (Suc k)
  show ?case
  proof (cases "n < 10")
    case False
    with Suc.prems have "n div 10 < 10 ^ k" by (simp add: less_mult_imp_div_less)
    moreover from this False have "0 < k" by (cases k) auto
    ultimately have "length (show_nat (n div 10)) \<le> k" by (rule Suc.IH)
    with False show ?thesis by (subst show_nat.simps) simp
  qed (simp add: show_nat.simps)
qed simp

definition is_space :: "char \<Rightarrow> bool" where
  "is_space c \<longleftrightarrow> of_char c \<in> {9, 10, 11, 12, 13, 32 :: nat}"

definition is_digit :: "char \<Rightarrow> bool" where
  "is_digit c \<longleftrightarrow> 48 \<le> (of_char c :: nat) \<and> (of_char c :: nat) \<le> 57"

definition digits_value :: "string \<Rightarrow> int" where
  "digits_value = foldl (\<lambda>n c. 10 * n + (int (of_char c) - 48)) 0"

text \<open>
  White space, a sign, digits; what follows is ignored, and without digits the result is 0. The
  programs rely on values that fit into an \<open>int\<close> (outside of it \<open>atoi\<close> is not defined).
\<close>

definition atoi :: "string \<Rightarrow> int" where
  "atoi s = (let cs = dropWhile is_space s in
     if take 1 cs = ''-'' then - digits_value (takeWhile is_digit (tl cs))
     else if take 1 cs = ''+'' then digits_value (takeWhile is_digit (tl cs))
     else digits_value (takeWhile is_digit cs))"

text \<open>\<open>atoi\<close> reads what \<open>printf\<close> writes.\<close>

lemma of_digit_char: "d < 10 \<Longrightarrow> of_char (char_of (48 + d) :: char) = (48 + d :: nat)"
  by (simp only: of_char_of) simp

lemma is_digit_char: "d < 10 \<Longrightarrow> is_digit (char_of (48 + d :: nat))"
  by (simp add: is_digit_def of_digit_char)

lemma show_nat_digits: "list_all is_digit (show_nat n) \<and> show_nat n \<noteq> [] \<and> digits_value (show_nat n) = int n"
proof (induction n rule: show_nat.induct)
  case (1 n)
  show ?case
  proof (cases "n < 10")
    case True
    then show ?thesis
      by (simp add: show_nat.simps [of n] digits_value_def of_digit_char is_digit_char)
  next
    case False
    have "n mod 10 < 10" by simp
    with False 1 show ?thesis
      by (simp add: show_nat.simps [of n] digits_value_def of_digit_char is_digit_char)
        (metis mult_div_mod_eq of_nat_add of_nat_mult of_nat_numeral)
  qed
qed

lemma is_digit_not_space: "is_digit c \<Longrightarrow> \<not> is_space c"
  by (auto simp: is_digit_def is_space_def)

lemma is_digit_sign: "\<not> is_digit (CHR ''-'')" "\<not> is_digit (CHR ''+'')"
  by (simp_all add: is_digit_def)

lemma atoi_show_nat: "atoi (show_nat n) = int n"
proof -
  have dig: "list_all is_digit (show_nat n)" "show_nat n \<noteq> []" and val: "digits_value (show_nat n) = int n"
    using show_nat_digits by auto
  then obtain c cs where c: "show_nat n = c # cs" "is_digit c" by (cases "show_nat n") auto
  have "takeWhile is_digit cs = cs" using dig c by (simp add: takeWhile_eq_all_conv list_all_iff)
  moreover have "c \<noteq> CHR ''-''" "c \<noteq> CHR ''+''" using c(2) is_digit_sign by metis+
  ultimately show ?thesis using c val is_digit_not_space [OF c(2)]
    by (simp add: atoi_def del: takeWhile_eq_all_conv)
qed

end
