(* ===== verification/Echo_Service.thy ===== *)
theory Echo_Service
  imports Stream_Contract C_Library
begin

text \<open>
  What the connection handlers of the echo servers have in common: the welcome message and the
  echo loop over a \<open>receiver\<close> and a \<open>sender\<close>. The locale \<open>echo_service\<close> is the loop as an
  interface; inside it the loop is shown to send back exactly what it receives, up to the
  message that ends the session.
\<close>

section \<open>The welcome message\<close>

definition SERVER_COMMAND :: string where "SERVER_COMMAND = ''QUIT''"

definition welcome_msg :: "string \<Rightarrow> 16 word \<Rightarrow> string" where
  "welcome_msg client_ip client_port =
     ''Hi! I'm an echo server. You are '' @ client_ip @ '' talking on port '' @ show_nat (unat client_port)
     @ ''.'' @ [NL] @ ''I will send you back whatever you send me. I will stop if you send me ''
     @ SERVER_COMMAND @ '' :-)'' @ [NL]"

text \<open>\<open>inet_ntop\<close> writes at most 15 characters and the terminator (\<open>INET_ADDRSTRLEN\<close> is 16).\<close>

lemma length_welcome:
  assumes "length client_ip < 16"
  shows "length (welcome_msg client_ip client_port) \<le> 150"
proof -
  have "unat client_port < 10 ^ 5" using unsigned_less [of client_port, where 'a = nat] by simp
  then have "length (show_nat (unat client_port)) \<le> 5" by (rule length_show_nat) simp
  with assms show ?thesis by (simp add: welcome_msg_def SERVER_COMMAND_def)
qed

section \<open>What an echo session does\<close>

text \<open>
  From the bytes of the client, \<open>e\<close> has been sent back; \<open>p\<close> is the last message taken from
  the stream, of which \<open>q\<close> has been sent back so far. The loop returns only after the message
  that is exactly \<open>quit\<close>, which is not sent back.
\<close>

definition echo_spec :: "byte list \<Rightarrow> nat \<Rightarrow> io \<Rightarrow> unit outcome \<Rightarrow> io \<Rightarrow> bool" where
  "echo_spec quit most w r w' \<longleftrightarrow> (\<exists>e p q. inp w = e @ p @ inp w' \<and> out w' = out w @ e @ q \<and>
     prefix q p \<and> length p \<le> most \<and> (r = Done () \<longrightarrow> p = quit \<and> q = []))"

text \<open>The same with the welcome message: before it has been sent, nothing is received.\<close>

definition session_spec :: "byte list \<Rightarrow> byte list \<Rightarrow> nat \<Rightarrow> io \<Rightarrow> unit outcome \<Rightarrow> io \<Rightarrow> bool" where
  "session_spec hello quit most w r w' \<longleftrightarrow>
     (\<exists>q. out w' = out w @ q \<and> prefix q hello \<and> inp w' = inp w \<and> r \<noteq> Done ()) \<or>
     (\<exists>e p q. inp w = e @ p @ inp w' \<and> out w' = out w @ hello @ e @ q \<and>
       prefix q p \<and> length p \<le> most \<and> (r = Done () \<longrightarrow> p = quit \<and> q = []))"

locale echo_service = receiver receive most + sender transmit reliable limit
  for receive :: "io \<Rightarrow> byte list result" and most :: nat
    and transmit :: "byte list \<Rightarrow> io \<Rightarrow> nat result" and reliable :: "io \<Rightarrow> bool" and limit :: nat +
  fixes loop :: "io \<Rightarrow> unit result" and note_msg :: "byte list \<Rightarrow> io \<Rightarrow> unit result" and quit :: "byte list"
  assumes loop_eq: "loop w = andthen (receive w) (\<lambda>buf w. andthen (note_msg buf w) (\<lambda>_ w.
      if buf = quit then (Done (), w) else andthen (transmit buf w) (\<lambda>_ w. loop w)))"
    and note_law: "note_msg buf w = (r, w') \<Longrightarrow> off_stream r w w'"
    and most_limit: "most \<le> limit"
begin

lemma loop_spec:
  assumes "loop w = (r, w')" and "reliable w"
  shows "echo_spec quit most w r w' \<and> later w w' \<and> (\<forall>n. r = Exit n \<longrightarrow> n = 1)"
  using assms
proof (induction "length (answers w)" arbitrary: w rule: less_induct)
  case less
  obtain r1 w1 where rec: "receive w = (r1, w1)" by (cases "receive w")
  note law = receive_law [OF rec]
  show ?case
  proof (cases r1)
    case (Done buf)
    note law = law [unfolded Done, simplified]
    obtain r2 w2 where note2: "note_msg buf w1 = (r2, w2)" by (cases "note_msg buf w1")
    note nlaw = note_law [OF note2, unfolded off_stream_def]
    have l2: "later w w2" using law nlaw by (auto intro: later_trans)
    show ?thesis
    proof (cases "r2 = Done ()")
      case True
      show ?thesis
      proof (cases "buf = quit")
        case True
        with less.prems(1) rec Done note2 \<open>r2 = Done ()\<close> have "r = Done ()" "w' = w2"
          by (auto simp: loop_eq [of w])
        with True law nlaw l2 show ?thesis
          by (auto simp: echo_spec_def intro!: exI [of _ "[]"])
      next
        case False
        obtain r3 w3 where tr: "transmit buf w2 = (r3, w3)" by (cases "transmit buf w2")
        have "reliable w2" using less.prems(2) l2 by (rule reliable_later)
        note tlaw = transmit_law [OF tr this]
        have "length buf \<le> limit" using law most_limit by simp
        note tlaw = tlaw [OF this]
        show ?thesis
        proof (cases "\<exists>n. r3 = Done n")
          case True
          with tlaw have out3: "out w3 = out w2 @ buf" "later w2 w3" "inp w3 = inp w2" by auto
          from True tr False rec Done note2 \<open>r2 = Done ()\<close> less.prems(1) have "loop w3 = (r, w')"
            by (auto simp: loop_eq [of w])
          moreover have "reliable w3" using less.prems(2) later_trans [OF l2 out3(2)] by (rule reliable_later)
          moreover have "length (answers w3) < length (answers w)"
            using law nlaw out3 by (auto simp: later_def)
          ultimately have IH: "echo_spec quit most w3 r w' \<and> later w3 w' \<and> (\<forall>n. r = Exit n \<longrightarrow> n = 1)"
            using less.hyps by blast
          then obtain e p q where "inp w3 = e @ p @ inp w'" "out w' = out w3 @ e @ q" "prefix q p"
            "length p \<le> most" "r = Done () \<longrightarrow> p = quit \<and> q = []" by (auto simp: echo_spec_def)
          with law nlaw out3 have "echo_spec quit most w r w'"
            unfolding echo_spec_def by (intro exI [of _ "buf @ e"] exI [of _ p] exI [of _ q]) auto
          with IH l2 out3 show ?thesis by (auto intro: later_trans)
        next
          case False
          with tr \<open>buf \<noteq> quit\<close> rec Done note2 \<open>r2 = Done ()\<close> less.prems(1)
          have "w' = w3" and r: "(\<forall>n. r = Exit n \<longrightarrow> r3 = Exit n)" "r \<noteq> Done ()"
            by (cases r3; auto simp: loop_eq [of w])+
          from tlaw obtain q where "out w3 = out w2 @ q" "prefix q buf" by auto
          with law nlaw tlaw \<open>w' = w3\<close> r have "echo_spec quit most w r w'"
            unfolding echo_spec_def by (intro exI [of _ "[]"] exI [of _ buf] exI [of _ q]) auto
          with tlaw l2 \<open>w' = w3\<close> r show ?thesis by (auto intro: later_trans)
        qed
      qed
    next
      case False
      with note2 rec Done less.prems(1) have "w' = w2" "\<forall>n. r = Exit n \<longrightarrow> r2 = Exit n" "r \<noteq> Done ()"
        by (cases r2; auto simp: loop_eq [of w])+
      with law nlaw l2 show ?thesis
        by (auto simp: echo_spec_def intro!: exI [of _ "[]"])
    qed
  qed (use law rec less.prems(1) in \<open>auto simp: loop_eq [of w] echo_spec_def intro!: exI [of _ "[]"]\<close>)
qed

text \<open>A connection handler: welcome message, loop, and an end that leaves the streams alone.\<close>

lemma session:
  assumes run: "andthen (transmit hello w) (\<lambda>_ w. andthen (loop w) (\<lambda>_ w. finish w)) = (r, w')"
    and "reliable w" and "length hello \<le> limit"
    and finish: "\<And>v r v'. finish v = (r, v') \<Longrightarrow> off_stream r v v'"
  shows "session_spec hello quit most w r w' \<and> (\<forall>n. r = Exit n \<longrightarrow> n = 1)"
proof -
  obtain r1 w1 where tr: "transmit hello w = (r1, w1)" by (cases "transmit hello w")
  note tlaw = transmit_law [OF tr assms(2,3)]
  show ?thesis
  proof (cases "\<exists>n. r1 = Done n")
    case True
    with tlaw have out1: "out w1 = out w @ hello" "later w w1" "inp w1 = inp w" by auto
    obtain r2 w2 where lp: "loop w1 = (r2, w2)" by (cases "loop w1")
    from loop_spec [OF lp] assms(2) out1(2)
    have spec: "echo_spec quit most w1 r2 w2" "\<forall>n. r2 = Exit n \<longrightarrow> n = 1"
      by (auto intro: reliable_later)
    from run tr True lp have rest: "andthen (r2, w2) (\<lambda>_ w. finish w) = (r, w')" by auto
    have w2: "inp w' = inp w2" "out w' = out w2" "r = Done () \<longrightarrow> r2 = Done ()" "\<forall>n. r = Exit n \<longrightarrow> n = 1"
      using rest spec(2) by (cases r2; auto dest!: finish simp: off_stream_def)+
    from spec(1) obtain e p q where "inp w1 = e @ p @ inp w2" "out w2 = out w1 @ e @ q" "prefix q p"
      "length p \<le> most" "r2 = Done () \<longrightarrow> p = quit \<and> q = []" by (auto simp: echo_spec_def)
    with w2 out1 have "session_spec hello quit most w r w'"
      unfolding session_spec_def by (intro disjI2 exI [of _ e] exI [of _ p] exI [of _ q]) auto
    with w2(4) show ?thesis by blast
  next
    case False
    with run tr have "w' = w1" "r \<noteq> Done ()" "\<forall>n. r = Exit n \<longrightarrow> r1 = Exit n" by (cases r1; auto)+
    with tlaw show ?thesis by (auto simp: session_spec_def)
  qed
qed

end

end
