(* ===== verification/Echo_Servers.thy ===== *)
theory Echo_Servers
  imports Echo_Service
begin

text \<open>
  The connection handlers of the echo servers: lab08 (\<open>base.c\<close>, \<open>multiprocess.c\<close>,
  \<open>multithread.c\<close>), lab09 (\<open>Logger/server.c\<close>), lab11 (\<open>ES-MP-LimitConn/multiprocess.c\<close>,
  \<open>ES-MP-LimitConn/multithread.c\<close>, \<open>ES-MT-Logger/echo_server_mt_logger.c\<close>). Each loop
  interprets \<open>echo_service\<close>. The address of the client, as \<open>inet_ntop\<close> and \<open>ntohs\<close> return
  it, and the process or thread identifier are arguments.
\<close>

section \<open>lab08: one recv, one send\<close>

function base_echo_loop :: "io \<Rightarrow> unit result" where
  "base_echo_loop w = andthen (recv_retry ''Cannot read from socket'' 1024 w) (\<lambda>buf w.
     if buf = SERVER_COMMAND then (Done (), w)
     else andthen (send_retry ''Cannot write to the socket'' buf w) (\<lambda>_ w. base_echo_loop w))"
  by pat_completeness auto
termination
  by (relation "measure (\<lambda>w. length (answers w))")
    (auto dest!: answers_decrease)

declare base_echo_loop.simps [simp del]

definition base_connection_handler :: "string \<Rightarrow> 16 word \<Rightarrow> io \<Rightarrow> unit result" where
  "base_connection_handler client_ip client_port w =
     andthen (send_retry ''Cannot write to the socket'' (welcome_msg client_ip client_port) w) (\<lambda>_ w.
     andthen (base_echo_loop w) (\<lambda>_ w.
     close_or_exit ''socket_desc'' ''Cannot close socket for incoming connection'' w))"

text \<open>
  \<open>multiprocess.c\<close> runs the same handler in a child process, which then exits with status 0;
  \<open>multithread.c\<close> runs it in a thread, which prints a message at its end.
\<close>

definition mp8_connection_handler :: "string \<Rightarrow> 16 word \<Rightarrow> io \<Rightarrow> unit result" where
  "mp8_connection_handler client_ip client_port w =
     andthen (send_retry ''Cannot write to the socket'' (welcome_msg client_ip client_port) w) (\<lambda>_ w.
     andthen (base_echo_loop w) (\<lambda>_ w.
     close_or_exit ''socket_desc'' ''Cannot close socket for incoming connection'' w))"

definition mp8_child :: "string \<Rightarrow> 16 word \<Rightarrow> io \<Rightarrow> unit result" where
  "mp8_child client_ip client_port w =
     andthen (close_or_exit ''listening socket'' ''Cannot close listening socket in child process'' w) (\<lambda>_ w.
     andthen (mp8_connection_handler client_ip client_port w) (\<lambda>_ w.
     (Exit 0, eprint ''Process created to handle the request has completed.'' w)))"

definition mt8_connection_handler :: "string \<Rightarrow> 16 word \<Rightarrow> io \<Rightarrow> unit result" where
  "mt8_connection_handler client_ip client_port w =
     andthen (send_retry ''Cannot write to the socket'' (welcome_msg client_ip client_port) w) (\<lambda>_ w.
     andthen (base_echo_loop w) (\<lambda>_ w.
     andthen (close_or_exit ''socket_desc'' ''Cannot close socket for incoming connection'' w) (\<lambda>_ w.
     (Done (), eprint ''Thread created to handle the request has completed.'' w))))"

section \<open>lab09, Logger: the same loop, with a logger to stop\<close>

text \<open>
  \<open>SRV_ERROR_HELPER_WITH_ACTIVE_LOGGER\<close> prints the message, sends SIGTERM to the logger and
  exits; every exit of the handler is one of these.
\<close>

definition srv_error :: "unit result \<Rightarrow> unit result" where
  "srv_error m = (case m of (Exit n, w) \<Rightarrow> (Exit n, w\<lparr>sigterms := sigterms w + 1\<rparr>) | _ \<Rightarrow> m)"

definition srv_connection_handler :: "nat \<Rightarrow> string \<Rightarrow> 16 word \<Rightarrow> io \<Rightarrow> unit result" where
  "srv_connection_handler thread_id client_ip client_port w =
     (let w = eprint (''[THREAD '' @ show_nat thread_id @ ''] Handling connection from '' @ client_ip
         @ '' on port '' @ show_nat (unat client_port) @ ''...'' @ [NL]) w
      in srv_error (
        andthen (send_retry ''Cannot write to the socket'' (welcome_msg client_ip client_port) w) (\<lambda>_ w.
        andthen (base_echo_loop w) (\<lambda>_ w.
        andthen (close_or_exit ''socket_desc'' ''Cannot close socket for incoming connection'' w) (\<lambda>_ w.
        (Done (), eprint (''[THREAD '' @ show_nat thread_id @ ''] Connection with '' @ client_ip
           @ '' on port '' @ show_nat (unat client_port) @ '' closed.'' @ [NL]) w))))))"

section \<open>lab11, ES-MP-LimitConn: all bytes sent, closed connections detected\<close>

function mp_echo_loop :: "io \<Rightarrow> unit result" where
  "mp_echo_loop w =
     andthen (recv_open ''Connection closed unexpectedly!'' ''Cannot read from socket'' 1024 w) (\<lambda>buf w.
       if buf = SERVER_COMMAND then (Done (), w)
       else andthen (send_all_eq1 ''Cannot write to socket'' buf 0 (length buf) w) (\<lambda>_ w. mp_echo_loop w))"
  by pat_completeness auto
termination
  by (relation "measure (\<lambda>w. length (answers w))") (auto dest!: answers_decrease answers_le)

declare mp_echo_loop.simps [simp del]

definition mp_connection_handler :: "nat \<Rightarrow> string \<Rightarrow> 16 word \<Rightarrow> io \<Rightarrow> unit result" where
  "mp_connection_handler process_id client_ip client_port w =
     (let w = eprint (''[PROCESS '' @ show_nat process_id @ ''] Handling connection from '' @ client_ip
         @ '' on port '' @ show_nat (unat client_port) @ ''...'' @ [NL]) w;
          buf = welcome_msg client_ip client_port
      in andthen (send_all_eq1 ''Cannot write to socket'' buf 0 (length buf) w) (\<lambda>_ w.
         andthen (mp_echo_loop w) (\<lambda>_ w.
         andthen (close_or_exit ''socket_desc'' ''Cannot close socket for incoming connection'' w) (\<lambda>_ w.
         post_or_exit ''Post on named semaphore failed''
           (eprint (''[PROCESS '' @ show_nat process_id @ ''] Connection with '' @ client_ip @ '' on port ''
             @ show_nat (unat client_port) @ '' closed.'' @ [NL]) w)))))"

text \<open>The child process: \<open>connection_handler\<close>, then \<open>exit(EXIT_SUCCESS)\<close>.\<close>

definition mp_child :: "nat \<Rightarrow> string \<Rightarrow> 16 word \<Rightarrow> io \<Rightarrow> unit result" where
  "mp_child process_id client_ip client_port w =
     andthen (sys_close ''listening socket'' w) (\<lambda>ret w.
       if ret = -1 then error_exit (''[PROCESS '' @ show_nat process_id @ ''] Cannot close listening socket'') w
       else andthen (mp_connection_handler process_id client_ip client_port w) (\<lambda>_ w. (Exit 0, w)))"

text \<open>
  \<open>signalHandlerCleanup\<close> of the process server: the main process removes the semaphore, a child
  has nothing to do.
\<close>

definition mp_signalHandlerCleanup :: "bool \<Rightarrow> nat \<Rightarrow> io \<Rightarrow> unit result" where
  "mp_signalHandlerCleanup in_main_process process_id w =
     (if in_main_process then
        andthen (close_or_exit ''connections'' ''[MAIN PROCESS] Cannot close named semaphore'' w) (\<lambda>_ w.
        andthen (unlink_or_exit ''/srv_concurrency'' ''[MAIN PROCESS] Cannot unlink named semaphore'' w) (\<lambda>_ w.
        (Exit 0, eprint (''[MAIN PROCESS] Main process terminated gracefully'' @ [NL]) w)))
      else (Exit 0, eprint (''[PROCESS '' @ show_nat process_id @ ''] Child process terminated gracefully'' @ [NL]) w))"

definition mt_connection_handler :: "nat \<Rightarrow> string \<Rightarrow> 16 word \<Rightarrow> io \<Rightarrow> unit result" where
  "mt_connection_handler thread_id client_ip client_port w =
     (let w = eprint (''[THREAD '' @ show_nat thread_id @ ''] Handling connection from '' @ client_ip
         @ '' on port '' @ show_nat (unat client_port) @ ''...'' @ [NL]) w;
          buf = welcome_msg client_ip client_port
      in andthen (send_all_eq1 ''Cannot write to socket'' buf 0 (length buf) w) (\<lambda>_ w.
         andthen (mp_echo_loop w) (\<lambda>_ w.
         andthen (close_or_exit ''socket_desc'' ''Cannot close socket for incoming connection'' w) (\<lambda>_ w.
         post_or_exit ''Post on semaphore failed''
           (eprint (''[THREAD '' @ show_nat thread_id @ ''] Connection with '' @ client_ip @ '' on port ''
             @ show_nat (unat client_port) @ '' closed.'' @ [NL]) w)))))"

section \<open>lab11, ES-MT-Logger: the same, with every message logged\<close>

definition DEFAULT_BUFFER_SIZE :: nat where "DEFAULT_BUFFER_SIZE = 1024"

text \<open>The item \<open>my_log\<close> puts into the log buffer is the message and a newline.\<close>

definition my_log_item :: "string \<Rightarrow> string" where
  "my_log_item msg = msg @ [NL]"

definition my_log :: "string \<Rightarrow> io \<Rightarrow> io" where
  "my_log msg w = w\<lparr>logged := logged w @ [my_log_item msg]\<rparr>"

text \<open>
  The line for a message received: \<open>snprintf\<close> truncates it to 1023 bytes, \<open>%s\<close> ends at the
  first NUL. The terminator the handler stores first, \<open>buf[recv_bytes] = 0\<close>, is outside of
  \<open>buf\<close> when 1024 bytes have been received.
\<close>

definition log_line :: "string \<Rightarrow> 16 word \<Rightarrow> byte list \<Rightarrow> string" where
  "log_line client_ip client_port buf = take (DEFAULT_BUFFER_SIZE - 1) (''Message received from client ''
     @ client_ip @ '':'' @ show_nat (unat client_port) @ '': '' @ takeWhile (\<lambda>c. c \<noteq> NUL) buf)"

definition log_received :: "string \<Rightarrow> 16 word \<Rightarrow> byte list \<Rightarrow> io \<Rightarrow> unit result" where
  "log_received client_ip client_port buf w =
     (if length buf < DEFAULT_BUFFER_SIZE then (Done (), my_log (log_line client_ip client_port buf) w)
      else (Undefined, w))"

lemma log_received_off_stream: "log_received ip port buf w = (r, w') \<Longrightarrow> off_stream r w w'"
  by (auto simp: log_received_def my_log_def off_stream_def later_def split: if_splits)

function es_echo_loop :: "string \<Rightarrow> 16 word \<Rightarrow> io \<Rightarrow> unit result" where
  "es_echo_loop client_ip client_port w =
     andthen (recv_open ''Connection closed unexpectedly!'' ''Cannot read from socket'' DEFAULT_BUFFER_SIZE w)
       (\<lambda>buf w. andthen (log_received client_ip client_port buf w) (\<lambda>_ w.
       if buf = SERVER_COMMAND then (Done (), w)
       else andthen (send_all_eq1 ''Cannot write to socket'' buf 0 (length buf) w)
         (\<lambda>_ w. es_echo_loop client_ip client_port w)))"
  by pat_completeness auto
termination
  by (relation "measure (\<lambda>(ip, port, w). length (answers w))")
    (auto dest!: answers_decrease log_received_off_stream answers_le(1) simp: off_stream_def later_def)

declare es_echo_loop.simps [simp del]

definition es_connection_handler :: "string \<Rightarrow> 16 word \<Rightarrow> io \<Rightarrow> unit result" where
  "es_connection_handler client_ip client_port w =
     (let buf = welcome_msg client_ip client_port
      in andthen (send_all_eq1 ''Cannot write to socket'' buf 0 (length buf) w) (\<lambda>_ w.
         andthen (es_echo_loop client_ip client_port w) (\<lambda>_ w.
         andthen (close_or_exit ''args->socket_desc'' ''Cannot close socket for incoming connection'' w) (\<lambda>_ w.
         (Done (), my_log (''Thread created to handle the client '' @ client_ip @ '':''
            @ show_nat (unat client_port) @ '' has completed'') w)))))"

section \<open>The loops are echo services\<close>

interpretation lab08: echo_service "recv_retry ''Cannot read from socket'' 1024" 1024
  "send_retry ''Cannot write to the socket''" "full_sends 1024" 1024
  base_echo_loop "\<lambda>_ w. (Done (), w)" SERVER_COMMAND
  by unfold_locales (simp_all add: base_echo_loop.simps off_stream_def)

interpretation lab11: echo_service
  "recv_open ''Connection closed unexpectedly!'' ''Cannot read from socket'' 1024" 1024
  "\<lambda>data. send_all_eq1 ''Cannot write to socket'' data 0 (length data)" uninterrupted 1024
  mp_echo_loop "\<lambda>_ w. (Done (), w)" SERVER_COMMAND
  by unfold_locales (simp_all add: mp_echo_loop.simps off_stream_def)

interpretation lab11_log: echo_service
  "recv_open ''Connection closed unexpectedly!'' ''Cannot read from socket'' DEFAULT_BUFFER_SIZE" DEFAULT_BUFFER_SIZE
  "\<lambda>data. send_all_eq1 ''Cannot write to socket'' data 0 (length data)" uninterrupted 1024
  "es_echo_loop ip port" "log_received ip port" SERVER_COMMAND for ip port
  by unfold_locales (simp_all add: es_echo_loop.simps log_received_off_stream DEFAULT_BUFFER_SIZE_def)

section \<open>Sessions\<close>

text \<open>The state in which a handler starts, for the witnesses.\<close>

definition fresh_io :: "byte list \<Rightarrow> answer list \<Rightarrow> io" where
  "fresh_io input ans = \<lparr>inp = input, out = [], answers = ans, errno = ENONE, stdin = [], stdout = [],
     stderr = [], closed = [], unlinked = [], sigterms = 0, sem_posts = 0, logged = []\<rparr>"

lemma off_stream_Done: "off_stream (Done a) w w" "off_stream (Done a) w (eprint m w)"
  "off_stream (Done a) w (my_log m w)"
  by (simp_all add: off_stream_def later_def eprint_def my_log_def)

lemma session_eprint: "session_spec hello q n (eprint m w) r w' = session_spec hello q n w r w'"
  by (simp add: session_spec_def eprint_def)

text \<open>
  C11: \<open>base.c\<close> (lab08), with a kernel that never sends less than it is asked to: the
  client gets the welcome message and then every byte it sends, in order and once, up to the
  message \<open>QUIT\<close>, which ends the session and is not sent back. At any time at most one
  message of 1024 bytes has been received and not completely sent back.
\<close>

theorem base_session:
  assumes "full_sends 1024 w" and "length client_ip < 16"
    and "base_connection_handler client_ip client_port w = (r, w')"
  shows "session_spec (welcome_msg client_ip client_port) SERVER_COMMAND 1024 w r w' \<and>
    (\<forall>n. r = Exit n \<longrightarrow> n = 1)"
  using assms(3) unfolding base_connection_handler_def
  by (rule lab08.session [OF _ assms(1)])
    (use length_welcome [OF assms(2), of client_port] in \<open>auto dest: off_stream_exit\<close>)

theorem base_session_witness:
  "\<exists>w'. base_connection_handler ''127.0.0.1'' 2015
      (fresh_io ''helloQUITxyz'' [Xfer 0 1023, Xfer 4 1023, Err EINTR, Xfer 0 1023, Xfer 3 1023, Xfer 0 1023]) = (Done (), w') \<and>
    session_spec (welcome_msg ''127.0.0.1'' 2015) SERVER_COMMAND 1024
      (fresh_io ''helloQUITxyz'' [Xfer 0 1023, Xfer 4 1023, Err EINTR, Xfer 0 1023, Xfer 3 1023, Xfer 0 1023]) (Done ()) w' \<and>
    inp w' = ''xyz''"
proof -
  let ?w = "fresh_io ''helloQUITxyz'' [Xfer 0 1023, Xfer 4 1023, Err EINTR, Xfer 0 1023, Xfer 3 1023, Xfer 0 1023]"
  have "(case base_connection_handler ''127.0.0.1'' 2015 ?w of (r, w') \<Rightarrow> (r, inp w')) = (Done (), ''xyz'')"
    by code_simp
  then obtain w' where run: "base_connection_handler ''127.0.0.1'' 2015 ?w = (Done (), w')" and "inp w' = ''xyz''"
    by (auto split: prod.splits)
  moreover have "full_sends 1024 ?w" by (auto simp: full_sends_def fresh_io_def)
  ultimately show ?thesis using base_session [of ?w "''127.0.0.1''" 2015 "Done ()" w'] by auto
qed

lemma SERVER_COMMAND_neq_Nil [simp]: "SERVER_COMMAND \<noteq> []" "[] \<noteq> SERVER_COMMAND"
  by (simp_all add: SERVER_COMMAND_def)

text \<open>One message received and sent back.\<close>

lemma base_echo_message:
  assumes "answers w = Xfer j u # Xfer v k # xs" and "inp w = m @ rest" and "m \<noteq> SERVER_COMMAND"
    and "length m = Suc j" and "length m \<le> Suc k" and "length m \<le> 1024"
  shows "base_echo_loop w = base_echo_loop (w\<lparr>inp := rest, answers := xs, out := out w @ m\<rparr>)"
proof -
  have "min 1024 (Suc j) = length m" using assms by simp
  then show ?thesis using assms
    by (subst base_echo_loop.simps) (simp add: recv_retry_step send_retry_step)
qed

lemma base_echo_quit:
  assumes "answers w = Xfer 3 u # xs" and "inp w = SERVER_COMMAND @ rest"
  shows "base_echo_loop w = (Done (), w\<lparr>inp := rest, answers := xs\<rparr>)"
  using assms by (subst base_echo_loop.simps) (simp add: recv_retry_step SERVER_COMMAND_def)

definition one_by_one :: "byte list list \<Rightarrow> answer list" where
  "one_by_one ms = concat (map (\<lambda>m. [Xfer (length m - 1) 0, Xfer 0 1023]) ms)"

text \<open>
  \<open>base.c\<close> (lab08): a client that sends messages of 1 to 1024 bytes, each of them
  received by one call, and then \<open>QUIT\<close>, gets all of them back; the loop returns.
\<close>

theorem base_conversation:
  assumes "\<forall>m\<in>set ms. m \<noteq> SERVER_COMMAND \<and> m \<noteq> [] \<and> length m \<le> 1024"
    and "inp w = concat ms @ SERVER_COMMAND @ rest" and "answers w = one_by_one ms @ Xfer 3 u # xs"
  shows "base_echo_loop w = (Done (), w\<lparr>inp := rest, answers := xs, out := out w @ concat ms\<rparr>)"
  using assms
proof (induction ms arbitrary: w)
  case Nil
  then show ?case using base_echo_quit [of w u xs rest] by (simp add: one_by_one_def)
next
  case (Cons m ms)
  then have "length m = Suc (length m - 1)" by (cases m) auto
  with Cons.prems base_echo_message [of w "length m - 1" 0 0 1023 "one_by_one ms @ Xfer 3 u # xs" m
      "concat ms @ SERVER_COMMAND @ rest"]
  have "base_echo_loop w = base_echo_loop (w\<lparr>inp := concat ms @ SERVER_COMMAND @ rest,
      answers := one_by_one ms @ Xfer 3 u # xs, out := out w @ m\<rparr>)"
    by (simp add: one_by_one_def)
  with Cons show ?case by simp
qed

theorem base_conversation_witness:
  "base_echo_loop (fresh_io ''helloworldQUIT'' (one_by_one [''hello'', ''world''] @ [Xfer 3 0])) =
    (Done (), fresh_io [] []\<lparr>out := ''helloworld''\<rparr>)"
  using base_conversation [of "[''hello'', ''world'']"
      "fresh_io ''helloworldQUIT'' (one_by_one [''hello'', ''world''] @ [Xfer 3 0])" "[]" 0 "[]"]
  by (simp add: fresh_io_def SERVER_COMMAND_def)

text \<open>Sending no bytes, which is what the loop does after it has received none.\<close>

lemma send_retry_empty:
  assumes "benign (answers v)"
  obtains e where "send_retry msg [] v = (Blocked, v\<lparr>answers := [], errno := e\<rparr>)"
  | e ys where "send_retry msg [] v = (Done 0, v\<lparr>answers := ys, errno := e\<rparr>)" and "benign ys"
      and "length ys < length (answers v)"
  using assms
proof (induction "answers v" arbitrary: v thesis)
  case Nil
  then show ?case using Nil(2) [of "errno v"] by (simp add: send_retry_step)
next
  case (Cons a ys)
  note ans = Cons.hyps(2) [symmetric]
  show ?case
  proof (cases a)
    case (Xfer j u)
    with Cons.prems ans show ?thesis using Cons.prems(2) [of "errno v" ys] by (simp add: send_retry_step)
  next
    case (Err e)
    show ?thesis
      by (rule Cons.hyps(1) [of "v\<lparr>answers := ys, errno := EINTR\<rparr>"])
        (use Err Cons.prems ans in \<open>auto simp: send_retry_step\<close>)
  qed
qed

text \<open>
  C33: the servers of lab08 and lab09 do not notice that a client has gone: \<open>recv\<close> returns 0,
  which is not \<open>QUIT\<close> and not an error, and the loop goes on without end. However many
  calls return, all of them are used up and nothing is sent.
\<close>

theorem base_spins_after_close:
  assumes "inp w = []" and "benign (answers w)"
  shows "\<exists>e. base_echo_loop w = (Blocked, w\<lparr>answers := [], errno := e\<rparr>)"
  using assms
proof (induction "length (answers w)" arbitrary: w rule: less_induct)
  case less
  consider "answers w = []" | xs where "answers w = Err EINTR # xs"
    | j u xs where "answers w = Xfer j u # xs"
    using less.prems(2) by (cases "answers w" rule: list.exhaust; cases "hd (answers w)") auto
  then show ?case
  proof cases
    case 1
    then show ?thesis by (auto simp: base_echo_loop.simps [of w] recv_retry_step intro!: exI [of _ "errno w"])
  next
    case (2 xs)
    then have "base_echo_loop w = base_echo_loop (w\<lparr>answers := xs, errno := EINTR\<rparr>)"
      by (simp add: base_echo_loop.simps [of w] base_echo_loop.simps [of "w\<lparr>answers := xs, errno := EINTR\<rparr>"]
          recv_retry_step)
    with 2 less.prems less.hyps [of "w\<lparr>answers := xs, errno := EINTR\<rparr>"] show ?thesis by simp
  next
    case (3 j u xs)
    note first = this
    then have loop: "base_echo_loop w = andthen (send_retry ''Cannot write to the socket'' [] (w\<lparr>answers := xs\<rparr>))
        (\<lambda>_ w. base_echo_loop w)"
      using less.prems(1) by (subst base_echo_loop.simps, cases w) (simp add: recv_retry_step)
    have "benign (answers (w\<lparr>answers := xs\<rparr>))" using first less.prems(2) by simp
    then show ?thesis
    proof (cases rule: send_retry_empty [where msg = "''Cannot write to the socket''"])
      case (1 e)
      with loop show ?thesis by auto
    next
      case (2 e ys)
      with loop first less.prems(1) less.hyps [of "w\<lparr>answers := ys, errno := e\<rparr>"] show ?thesis by auto
    qed
  qed
qed

theorem base_spins_after_close_witness:
  "\<exists>e. base_echo_loop (fresh_io [] (replicate 1000 (Xfer 0 0))) = (Blocked, (fresh_io [] [])\<lparr>errno := e\<rparr>)"
  using base_spins_after_close [of "fresh_io [] (replicate 1000 (Xfer 0 0))"]
  by (simp add: fresh_io_def benign_def list_all_iff)

section \<open>The servers with a connection limit\<close>

text \<open>The connection slot is given back exactly when the handler returns.\<close>

lemma andthen_keeps:
  assumes "andthen m f = (r, w')" and "\<And>r v. m = (r, v) \<Longrightarrow> g v = c"
    and "\<And>a v. m = (Done a, v) \<Longrightarrow> f a v = (r, w') \<Longrightarrow> g w' = c"
  shows "g w' = c"
  using assms by (cases "(m, f)" rule: andthen.cases) auto

lemma posts_sys: "sys_read n w = (r, w') \<Longrightarrow> sem_posts w' = sem_posts w"
  "sys_write data w = (r', w') \<Longrightarrow> sem_posts w' = sem_posts w"
  "error_exit msg w = (r'', w') \<Longrightarrow> sem_posts w' = sem_posts w"
  by (auto simp: sys_read_def sys_write_def error_exit_def Let_def split: list.splits answer.splits)

lemma posts_send_all_eq1: "send_all_eq1 msg buf k m w = (r, w') \<Longrightarrow> sem_posts w' = sem_posts w"
proof (induction msg buf k m w rule: send_all_eq1.induct)
  case (1 msg buf k m w)
  note run = "1.prems" [unfolded send_all_eq1.simps [of msg buf k m w]]
  obtain q v where c: "sys_write (take (m - k) (drop k buf)) w = (q, v)" by fastforce
  note p = posts_sys(2) [OF c]
  from run c p show ?case
    by (cases q) (auto split: if_splits dest: posts_sys(3) "1.IH")
qed

lemma posts_recv_open: "recv_open cmsg msg n w = (r, w') \<Longrightarrow> sem_posts w' = sem_posts w"
proof (induction "answers w" arbitrary: w)
  case (Cons a xs)
  note ans = Cons.hyps(2)[symmetric]
  show ?case
  proof (cases a)
    case (Err e)
    with Cons.prems ans Cons.hyps(1) [of "w\<lparr>answers := xs, errno := EINTR\<rparr>"] show ?thesis
      by (cases "e = EINTR") (auto simp: recv_open_step error_exit_def)
  qed (use Cons.prems ans in \<open>auto simp: recv_open_step error_exit_def split: if_splits\<close>)
qed (auto simp: recv_open_step)

lemma posts_mp_echo_loop: "mp_echo_loop w = (r, w') \<Longrightarrow> sem_posts w' = sem_posts w"
proof (induction w rule: mp_echo_loop.induct)
  case (1 w)
  note run = "1.prems" [unfolded mp_echo_loop.simps [of w]]
  obtain q v where c: "recv_open ''Connection closed unexpectedly!'' ''Cannot read from socket'' 1024 w = (q, v)"
    by fastforce
  note p = posts_recv_open [OF c]
  show ?case
  proof (cases q)
    case (Done buf)
    obtain q2 v2 where c2: "send_all_eq1 ''Cannot write to socket'' buf 0 (length buf) v = (q2, v2)" by fastforce
    from run c Done c2 p posts_send_all_eq1 [OF c2] show ?thesis
      by (cases q2) (auto split: if_splits dest: "1.IH")
  qed (use run c p in auto)
qed

lemma posts_close: "close_or_exit fd msg w = (r, w') \<Longrightarrow> sem_posts w' = sem_posts w"
  by (auto simp: close_or_exit_def sys_close_def error_helper_def error_exit_def
      split: list.splits answer.splits if_splits)

lemma posts_post: "post_or_exit msg w = (r, w') \<Longrightarrow> sem_posts w' = sem_posts w + (if r = Done () then 1 else 0)"
  by (auto simp: post_or_exit_def sys_sem_post_def error_helper_def error_exit_def
      split: list.splits answer.splits if_splits)

lemma posts_handler:
  assumes "andthen (send_all_eq1 msg buf 0 m w) (\<lambda>_ w. andthen (mp_echo_loop w) (\<lambda>_ w.
      andthen (close_or_exit fd cmsg w) (\<lambda>_ w. post_or_exit pmsg (eprint t w)))) = (r, w')"
  shows "sem_posts w' = sem_posts w + (if r = Done () then 1 else 0)"
proof -
  obtain r1 w1 r2 w2 r3 w3 where parts: "send_all_eq1 msg buf 0 m w = (r1, w1)" "mp_echo_loop w1 = (r2, w2)"
    "close_or_exit fd cmsg w2 = (r3, w3)" by (metis surj_pair)
  with assms show ?thesis
    by (cases r1; cases r2; cases r3)
      (auto dest!: posts_send_all_eq1 posts_mp_echo_loop posts_close posts_post simp: eprint_def)
qed

lemma mp_handler_session:
  assumes "uninterrupted w" and "length client_ip < 16"
    and "mp_connection_handler process_id client_ip client_port w = (r, w')"
  shows "session_spec (welcome_msg client_ip client_port) SERVER_COMMAND 1024 w r w' \<and>
    (\<forall>n. r = Exit n \<longrightarrow> n = 1) \<and> sem_posts w' = sem_posts w + (if r = Done () then 1 else 0)"
proof -
  note run = assms(3) [unfolded mp_connection_handler_def Let_def]
  have un: "uninterrupted (eprint m w)" for m using assms(1) by (simp add: uninterrupted_def eprint_def)
  have "off_stream r v v'" if "andthen (close_or_exit fd cmsg v) (\<lambda>_ w. post_or_exit pmsg (eprint t w)) = (r, v')"
    for fd cmsg pmsg t and v v' and r :: "unit outcome"
    using that by (rule off_stream_andthen)
      (auto dest!: off_stream_exit simp: off_stream_def later_def eprint_def)
  from lab11.session [OF run un _ this] length_welcome [OF assms(2), of client_port] posts_handler [OF run]
  show ?thesis by (auto simp: session_eprint) (auto simp: eprint_def)
qed

text \<open>
  C12: the process server of lab11 (\<open>ES-MP-LimitConn/multiprocess.c\<close>), as long as no call is
  interrupted: whatever the sizes of the pieces the kernel sends, the client gets the welcome
  message and every byte it sends, in order and once, up to \<open>QUIT\<close>. The connection slot is
  given back when the handler returns, and only then: a handler that ends with an error keeps
  it for ever.
\<close>

theorem mp_session:
  assumes "uninterrupted w" and "length client_ip < 16"
    and "mp_connection_handler process_id client_ip client_port w = (r, w')"
  shows "session_spec (welcome_msg client_ip client_port) SERVER_COMMAND 1024 w r w' \<and>
    (\<forall>n. r = Exit n \<longrightarrow> n = 1) \<and> sem_posts w' = sem_posts w + (if r = Done () then 1 else 0)"
  by (rule mp_handler_session [OF assms])

text \<open>The welcome message is sent in pieces, and the answer too; nothing is interrupted.\<close>

definition demo_io :: io where
  "demo_io = fresh_io ''helloQUIT'' ([Xfer 0 99, Xfer 0 99, Xfer 4 0, Xfer 0 1, Xfer 0 0, Xfer 0 1023,
     Xfer 3 0, Xfer 0 0, Xfer 0 0])"

lemma uninterrupted_demo: "uninterrupted demo_io"
  by (simp add: uninterrupted_def demo_io_def fresh_io_def)

theorem mp_session_witness:
  "\<exists>w'. mp_connection_handler 42 ''127.0.0.1'' 2015 demo_io = (Done (), w') \<and>
    session_spec (welcome_msg ''127.0.0.1'' 2015) SERVER_COMMAND 1024 demo_io (Done ()) w' \<and> sem_posts w' = 1"
proof -
  have "fst (mp_connection_handler 42 ''127.0.0.1'' 2015 demo_io) = Done ()"
    by code_simp
  then obtain w' where "mp_connection_handler 42 ''127.0.0.1'' 2015 demo_io = (Done (), w')"
    by (metis prod.collapse)
  with mp_session [OF uninterrupted_demo _ this] show ?thesis
    by (auto simp: demo_io_def fresh_io_def)
qed

text \<open>
  The thread server of lab11 (\<open>ES-MP-LimitConn/multithread.c\<close>) does the same: all bytes
  up to \<open>QUIT\<close> go back, and the handler posts the semaphore once, when it returns.
\<close>

theorem mt_session:
  assumes "uninterrupted w" and "length client_ip < 16"
    and "mt_connection_handler thread_id client_ip client_port w = (r, w')"
  shows "session_spec (welcome_msg client_ip client_port) SERVER_COMMAND 1024 w r w' \<and>
    (\<forall>n. r = Exit n \<longrightarrow> n = 1) \<and> sem_posts w' = sem_posts w + (if r = Done () then 1 else 0)"
proof -
  note run = assms(3) [unfolded mt_connection_handler_def Let_def]
  have un: "uninterrupted (eprint m w)" for m using assms(1) by (simp add: uninterrupted_def eprint_def)
  have "off_stream r v v'" if "andthen (close_or_exit fd cmsg v) (\<lambda>_ w. post_or_exit pmsg (eprint t w)) = (r, v')"
    for fd cmsg pmsg t and v v' and r :: "unit outcome"
    using that by (rule off_stream_andthen)
      (auto dest!: off_stream_exit simp: off_stream_def later_def eprint_def)
  from lab11.session [OF run un _ this] length_welcome [OF assms(2), of client_port] posts_handler [OF run]
  show ?thesis by (auto simp: session_eprint) (auto simp: eprint_def)
qed

theorem mt_session_witness:
  "\<exists>w'. mt_connection_handler 42 ''127.0.0.1'' 2015 demo_io = (Done (), w') \<and>
    session_spec (welcome_msg ''127.0.0.1'' 2015) SERVER_COMMAND 1024 demo_io (Done ()) w' \<and> sem_posts w' = 1"
proof -
  have "fst (mt_connection_handler 42 ''127.0.0.1'' 2015 demo_io) = Done ()"
    by code_simp
  then obtain w' where "mt_connection_handler 42 ''127.0.0.1'' 2015 demo_io = (Done (), w')"
    by (metis prod.collapse)
  with mt_session [OF uninterrupted_demo _ this] show ?thesis
    by (auto simp: demo_io_def fresh_io_def)
qed

text \<open>
  The lab11 servers do notice that the client has gone: the process (in the thread
  servers, all of it) exits with status 1 and the message, having sent nothing more.
\<close>

theorem mp_notices_close:
  assumes "inp w = []" and "benign (answers w)" and "0 < xfers (answers w)"
  shows "\<exists>w'. mp_echo_loop w = (Exit 1, w') \<and> out w' = out w \<and>
    stderr w' = stderr w @ [''Connection closed unexpectedly!'']"
  using assms
proof (induction "answers w" arbitrary: w)
  case (Cons a xs)
  note ans = Cons.hyps(2) [symmetric]
  show ?case
  proof (cases a)
    case (Xfer j u)
    with Cons.prems ans show ?thesis
      by (subst mp_echo_loop.simps) (simp add: recv_open_step error_exit_def)
  next
    case (Err e)
    with Cons.prems ans have e: "e = EINTR" by simp
    have "mp_echo_loop w = mp_echo_loop (w\<lparr>answers := xs, errno := EINTR\<rparr>)"
      using ans Err e by (simp add: mp_echo_loop.simps [of w] recv_open_step
        mp_echo_loop.simps [of "w\<lparr>answers := xs, errno := EINTR\<rparr>"])
    with Cons.prems ans Err e Cons.hyps(1) [of "w\<lparr>answers := xs, errno := EINTR\<rparr>"] show ?thesis by simp
  qed
qed simp

theorem mp_notices_close_witness:
  "\<exists>w'. mp_echo_loop (fresh_io [] [Err EINTR, Xfer 0 0]) = (Exit 1, w') \<and> out w' = [] \<and>
    stderr w' = [''Connection closed unexpectedly!'']"
  using mp_notices_close [of "fresh_io [] [Err EINTR, Xfer 0 0]"] by (simp add: fresh_io_def)

text \<open>
  C34: the test \<open>ret == 1 && errno == EINTR\<close> of the lab11 loops (\<open>ret == -1\<close> is
  meant). If a \<open>recv\<close> is interrupted once, a message of a single byte is sent back again and
  again, as often as the kernel takes it, and the loop never goes on.
\<close>

theorem stale_EINTR_floods:
  assumes "inp w = b # rest"
    and "answers w = Err EINTR # Xfer 0 u # replicate n (Xfer v k)"
  shows "mp_echo_loop w = (Blocked, w\<lparr>errno := EINTR, inp := rest, answers := [], out := out w @ replicate n b\<rparr>)"
proof -
  have "[b] \<noteq> SERVER_COMMAND" by (simp add: SERVER_COMMAND_def)
  moreover define v1 where "v1 = w\<lparr>errno := EINTR, answers := replicate n (Xfer v k), inp := rest\<rparr>"
  then have "send_all_eq1 msg [b] 0 1 v1 = (Blocked, v1\<lparr>answers := [], out := out v1 @ replicate n b\<rparr>)" for msg
    by (intro send_all_eq1_livelock [of _ _ v k]) simp_all
  ultimately show ?thesis using assms
    by (subst mp_echo_loop.simps) (simp add: recv_open_step v1_def)
qed

theorem stale_EINTR_floods_witness:
  "\<exists>w'. mp_echo_loop (fresh_io ''x'' (Err EINTR # Xfer 0 0 # replicate 500 (Xfer 0 0))) = (Blocked, w') \<and>
    out w' = replicate 500 (CHR ''x'')"
  using stale_EINTR_floods [of "fresh_io ''x'' (Err EINTR # Xfer 0 0 # replicate 500 (Xfer 0 0))"
      "CHR ''x''" "[]" 0 500 0 0] by (simp add: fresh_io_def)

section \<open>The server with a logger\<close>

lemma es_echo_message:
  assumes "answers w = Xfer j u # Xfer v k # xs" and "inp w = m @ rest" and "m \<noteq> SERVER_COMMAND"
    and "length m = Suc j" and "length m \<le> Suc k" and "length m < 1024" and "errno w \<noteq> EINTR"
  shows "es_echo_loop ip port w = es_echo_loop ip port
    (w\<lparr>inp := rest, logged := logged w @ [my_log_item (log_line ip port m)], answers := xs, out := out w @ m\<rparr>)"
proof -
  have "min DEFAULT_BUFFER_SIZE (Suc j) = length m" "m \<noteq> []" using assms by (auto simp: DEFAULT_BUFFER_SIZE_def)
  then show ?thesis using assms send_all_eq1_step(3) [of "length m" 0 m]
    by (subst es_echo_loop.simps)
      (simp add: recv_open_step log_received_def DEFAULT_BUFFER_SIZE_def my_log_def)
qed

lemma es_echo_quit:
  assumes "answers w = Xfer 3 u # xs" and "inp w = SERVER_COMMAND @ rest"
  shows "es_echo_loop ip port w = (Done (), w\<lparr>inp := rest, answers := xs,
    logged := logged w @ [my_log_item (log_line ip port SERVER_COMMAND)]\<rparr>)"
  using assms by (subst es_echo_loop.simps) (simp add: recv_open_step SERVER_COMMAND_def log_received_def
      DEFAULT_BUFFER_SIZE_def my_log_def)

lemma es_talks:
  assumes "\<forall>m\<in>set ms. m \<noteq> SERVER_COMMAND \<and> m \<noteq> [] \<and> length m < 1024" and "errno w \<noteq> EINTR"
    and "inp w = concat ms @ SERVER_COMMAND @ rest" and "answers w = one_by_one ms @ Xfer 3 u # xs"
  shows "\<exists>w'. es_echo_loop ip port w = (Done (), w') \<and> inp w' = rest \<and> out w' = out w @ concat ms \<and>
    logged w' = logged w @ map (my_log_item \<circ> log_line ip port) (ms @ [SERVER_COMMAND])"
  using assms
proof (induction ms arbitrary: w)
  case Nil
  then show ?case using es_echo_quit [of w u xs rest ip port] by (simp add: one_by_one_def)
next
  case (Cons m ms)
  then have "length m = Suc (length m - 1)" by (cases m) auto
  with Cons.prems es_echo_message [of w "length m - 1" 0 0 1023 "one_by_one ms @ Xfer 3 u # xs" m
      "concat ms @ SERVER_COMMAND @ rest" ip port]
  have "es_echo_loop ip port w = es_echo_loop ip port (w\<lparr>inp := concat ms @ SERVER_COMMAND @ rest,
      logged := logged w @ [my_log_item (log_line ip port m)],
      answers := one_by_one ms @ Xfer 3 u # xs, out := out w @ m\<rparr>)"
    by (simp add: one_by_one_def)
  with Cons.prems Cons.IH [of "w\<lparr>inp := concat ms @ SERVER_COMMAND @ rest,
      logged := logged w @ [my_log_item (log_line ip port m)],
      answers := one_by_one ms @ Xfer 3 u # xs, out := out w @ m\<rparr>"] show ?case by simp
qed

text \<open>
  The server of lab11 with a logger: a client whose messages are each received by one call
  gets all of them back, and the log buffer is given one line for each message, in the order
  they came, \<open>QUIT\<close> included.
\<close>

theorem es_conversation:
  assumes "\<forall>m\<in>set ms. m \<noteq> SERVER_COMMAND \<and> m \<noteq> [] \<and> length m < 1024" and "errno w \<noteq> EINTR"
    and "inp w = concat ms @ SERVER_COMMAND @ rest" and "answers w = one_by_one ms @ Xfer 3 u # xs"
  shows "\<exists>w'. es_echo_loop ip port w = (Done (), w') \<and> inp w' = rest \<and> out w' = out w @ concat ms \<and>
    logged w' = logged w @ map (my_log_item \<circ> log_line ip port) (ms @ [SERVER_COMMAND])"
  using assms by (rule es_talks)

theorem es_conversation_witness:
  "\<exists>w'. es_echo_loop ''127.0.0.1'' 5000 (fresh_io ''helloQUIT'' (one_by_one [''hello''] @ [Xfer 3 0])) = (Done (), w') \<and>
    inp w' = [] \<and> out w' = ''hello'' \<and> logged w' = map (my_log_item \<circ> log_line ''127.0.0.1'' 5000) [''hello'', SERVER_COMMAND]"
  using es_conversation [of "[''hello'']" "fresh_io ''helloQUIT'' (one_by_one [''hello''] @ [Xfer 3 0])" "[]" 0 "[]"
      "''127.0.0.1''" 5000]
  by (simp add: fresh_io_def SERVER_COMMAND_def)

text \<open>
  The server of lab11 with a logger keeps a session like the others, as long as no
  call is interrupted; before it runs into \<open>Undefined\<close>, all it has sent is right.
\<close>

theorem es_session:
  assumes "uninterrupted w" and "length client_ip < 16"
    and "es_connection_handler client_ip client_port w = (r, w')"
  shows "session_spec (welcome_msg client_ip client_port) SERVER_COMMAND DEFAULT_BUFFER_SIZE w r w'"
proof -
  have "off_stream r v v'" if "andthen (close_or_exit fd cmsg v) (\<lambda>_ w. (Done (), my_log m w)) = (r, v')"
    for fd cmsg m and v v' and r :: "unit outcome"
    using that by (rule off_stream_andthen)
      (auto dest!: off_stream_exit simp: off_stream_def later_def my_log_def)
  from lab11_log.session [OF assms(3) [unfolded es_connection_handler_def Let_def] assms(1) _ this]
    length_welcome [OF assms(2), of client_port]
  show ?thesis by auto
qed

theorem es_session_witness:
  "\<exists>w'. es_connection_handler ''127.0.0.1'' 2015 demo_io = (Done (), w') \<and>
    session_spec (welcome_msg ''127.0.0.1'' 2015) SERVER_COMMAND DEFAULT_BUFFER_SIZE demo_io (Done ()) w'"
proof -
  have "fst (es_connection_handler ''127.0.0.1'' 2015 demo_io) = Done ()"
    by code_simp
  then obtain w' where "es_connection_handler ''127.0.0.1'' 2015 demo_io = (Done (), w')"
    by (metis prod.collapse)
  with es_session [OF uninterrupted_demo _ this] show ?thesis by auto
qed

text \<open>
  C35: a client that sends 1024 bytes which \<open>recv\<close> returns at once makes the server with a
  logger store the terminator outside of \<open>buf\<close>; nothing is sent back.
\<close>

theorem es_overflow:
  assumes "1024 \<le> length (inp w)" and "answers w = Xfer j u # xs" and "1023 \<le> j"
  shows "\<exists>w'. es_echo_loop client_ip client_port w = (Undefined, w') \<and> out w' = out w"
proof -
  have "min DEFAULT_BUFFER_SIZE (Suc j) = 1024" "inp w \<noteq> []" using assms by (auto simp: DEFAULT_BUFFER_SIZE_def)
  with assms show ?thesis
    by (subst es_echo_loop.simps) (auto simp: recv_open_step log_received_def DEFAULT_BUFFER_SIZE_def)
qed

theorem es_overflow_witness:
  "\<exists>w'. es_echo_loop ''127.0.0.1'' 5000 (fresh_io (replicate 1024 (CHR ''a'')) [Xfer 1023 0]) = (Undefined, w') \<and>
    out w' = []"
  using es_overflow [of "fresh_io (replicate 1024 (CHR ''a'')) [Xfer 1023 0]" 1023 0 "[]" "''127.0.0.1''" 5000]
  by (simp add: fresh_io_def)

end
