(* ===== verification/Accept_Loop.thy ===== *)
theory Accept_Loop
  imports Prelude Ring_Machine "HOL-Library.Multiset"
begin

text \<open>
  The \<open>main\<close> functions of the socket servers of lab08, lab09 and lab11: set up the listening
  socket, then accept connections for ever and hand each to a worker (a function call, a child
  process or a thread). The loop body of each program is a list of statements, run by one
  machine; the workers, which run the handlers of \<open>Echo_Servers\<close>, are interleaved with it.
  What is shown is what the loops are responsible for: the limit on the number of workers, the
  descriptors, the address buffers handed to the threads.
\<close>

section \<open>The statements of the loops\<close>

datatype slabel = S_accept  \<comment> \<open>\<open>accept\<close>, repeated when interrupted\<close>
  | S_sem_wait  \<comment> \<open>\<open>sem_wait(connections)\<close>\<close>
  | S_handle  \<comment> \<open>\<open>connection_handler(client_desc, client_addr)\<close> in the server itself\<close>
  | S_fork  \<comment> \<open>\<open>fork()\<close>: the child runs the handler\<close>
  | S_close_client  \<comment> \<open>\<open>close(client_desc)\<close> in the parent\<close>
  | S_reset  \<comment> \<open>\<open>memset(client_addr, 0, ...)\<close>\<close>
  | S_create  \<comment> \<open>\<open>pthread_create\<close> with \<open>client_desc\<close> and \<open>client_addr\<close> as arguments\<close>
  | S_detach  \<comment> \<open>\<open>pthread_detach\<close>\<close>
  | S_calloc  \<comment> \<open>\<open>client_addr = calloc(...)\<close>: a new buffer\<close>

record worker =
  wdesc :: nat
  waddr :: nat

text \<open>
  Descriptors and addresses are numbers, \<open>fresh\<close> the next one never used. \<open>lost\<close> counts the
  children that ended with an error; \<open>fault\<close>: a buffer was freed that is not allocated.
\<close>

record server =
  spc :: slabel
  client_desc :: nat
  client_addr :: nat
  fresh :: nat
  fds :: "nat list"  \<comment> \<open>open descriptors of the server process\<close>
  heap :: "nat list"  \<comment> \<open>address buffers allocated in the server process\<close>
  connections :: nat
  workers :: "worker list"
  lost :: nat
  fault :: bool
  stopped :: bool

datatype sevent = Ok | Intr | Fail | Worker_returns nat | Worker_fails nat

section \<open>One step\<close>

definition delete_nth :: "nat \<Rightarrow> 'a list \<Rightarrow> 'a list" where
  "delete_nth i xs = take i xs @ drop (Suc i) xs"

definition exec_main :: "slabel list \<Rightarrow> sevent \<Rightarrow> server \<Rightarrow> server option" where
  "exec_main body ev s =
    (let go = s\<lparr>spc := next_in body (spc s)\<rparr>; stop = Some (s\<lparr>stopped := True\<rparr>)
     in case spc s of
       S_accept \<Rightarrow> (case ev of
           Ok \<Rightarrow> Some (go\<lparr>client_desc := fresh s, fds := fresh s # fds s, fresh := fresh s + 1\<rparr>)
         | Intr \<Rightarrow> Some s | _ \<Rightarrow> stop)
     | S_sem_wait \<Rightarrow> (case ev of
           Ok \<Rightarrow> if connections s = 0 then None else Some (go\<lparr>connections := connections s - 1\<rparr>)
         | _ \<Rightarrow> stop)
     | S_handle \<Rightarrow> (case ev of Ok \<Rightarrow> Some (go\<lparr>fds := remove1 (client_desc s) (fds s)\<rparr>) | _ \<Rightarrow> stop)
     | S_fork \<Rightarrow> (case ev of
           Ok \<Rightarrow> Some (go\<lparr>workers := workers s @ [\<lparr>wdesc = client_desc s, waddr = client_addr s\<rparr>]\<rparr>)
         | _ \<Rightarrow> stop)
     | S_close_client \<Rightarrow> (case ev of Ok \<Rightarrow> Some (go\<lparr>fds := remove1 (client_desc s) (fds s)\<rparr>) | _ \<Rightarrow> stop)
     | S_reset \<Rightarrow> Some go
     | S_create \<Rightarrow> (case ev of
           Ok \<Rightarrow> Some (go\<lparr>workers := workers s @ [\<lparr>wdesc = client_desc s, waddr = client_addr s\<rparr>]\<rparr>)
         | _ \<Rightarrow> stop)
     | S_detach \<Rightarrow> (case ev of Ok \<Rightarrow> Some go | _ \<Rightarrow> stop)
     | S_calloc \<Rightarrow> Some (go\<lparr>client_addr := fresh s, heap := fresh s # heap s, fresh := fresh s + 1\<rparr>))"

text \<open>
  A worker returns from its handler: it has closed its descriptor, posted the semaphore where
  the server has one, and (a thread) freed its buffer. A child process that fails just
  disappears; a thread that fails ends the whole server.
\<close>

definition exec_worker :: "slabel list \<Rightarrow> sevent \<Rightarrow> server \<Rightarrow> server option" where
  "exec_worker body ev s = (case ev of
     Worker_returns i \<Rightarrow>
       if i < length (workers s) then
         (let t = workers s ! i;
              s' = s\<lparr>workers := delete_nth i (workers s),
                     connections := (if S_sem_wait \<in> set body then connections s + 1 else connections s)\<rparr>
          in Some (if S_fork \<in> set body then s'
                   else s'\<lparr>fds := remove1 (wdesc t) (fds s), heap := remove1 (waddr t) (heap s),
                           fault := (fault s \<or> waddr t \<notin> set (heap s))\<rparr>))
       else None
   | Worker_fails i \<Rightarrow>
       if i < length (workers s) then
         Some (if S_fork \<in> set body then s\<lparr>workers := delete_nth i (workers s), lost := lost s + 1\<rparr>
               else s\<lparr>stopped := True\<rparr>)
       else None
   | _ \<Rightarrow> None)"

definition exec_server :: "slabel list \<Rightarrow> sevent \<Rightarrow> server \<Rightarrow> server option" where
  "exec_server body ev s =
    (if stopped s then None
     else case ev of
       Worker_returns i \<Rightarrow> exec_worker body ev s
     | Worker_fails i \<Rightarrow> exec_worker body ev s
     | _ \<Rightarrow> exec_main body ev s)"

fun run_server :: "slabel list \<Rightarrow> sevent list \<Rightarrow> server \<Rightarrow> server option" where
  "run_server body [] s = Some s"
| "run_server body (ev # evs) s =
     (case exec_server body ev s of None \<Rightarrow> None | Some s' \<Rightarrow> run_server body evs s')"

inductive server_reaches :: "slabel list \<Rightarrow> server \<Rightarrow> server \<Rightarrow> bool" for body s0 where
  start: "server_reaches body s0 s0"
| step: "server_reaches body s0 s \<Longrightarrow> exec_server body ev s = Some s' \<Longrightarrow> server_reaches body s0 s'"

lemma run_server_reaches:
  "server_reaches body s0 s \<Longrightarrow> run_server body evs s = Some s' \<Longrightarrow> server_reaches body s0 s'"
  by (induction evs arbitrary: s) (auto split: option.splits intro: server_reaches.step)

section \<open>The programs\<close>

definition MAX_CONCURRENCY :: nat where "MAX_CONCURRENCY = 3"

text \<open>Socket 0 is the listening socket, buffer 0 the first \<open>client_addr\<close>.\<close>

definition listening :: "nat \<Rightarrow> server" where
  "listening slots = \<lparr>spc = S_accept, client_desc = 0, client_addr = 0, fresh = 1, fds = [0], heap = [0],
     connections = slots, workers = [], lost = 0, fault = False, stopped = False\<rparr>"

definition socket_checks :: "check list" where
  "socket_checks = [ERROR_HELPER ''Could not create socket'', ERROR_HELPER ''Cannot set SO_REUSEADDR option'',
     ERROR_HELPER ''Cannot bind address to socket'', ERROR_HELPER ''Cannot listen on socket'']"

definition signal_checks :: "check list" where
  "signal_checks = [ERROR_HELPER ''Cannot set up handler for SIGTERM'',
     ERROR_HELPER ''Cannot set up handler for SIGINT'']"

definition serve :: "check list \<Rightarrow> server \<Rightarrow> int list \<Rightarrow> startup + server" where
  "serve checks s rets = (case run_checks checks rets of Startup_done _ \<Rightarrow> Inr s | out \<Rightarrow> Inl out)"

lemma serve_Inr: "serve checks s rets = Inr s0 \<Longrightarrow> s0 = s"
  by (auto simp: serve_def split: startup.splits)

text \<open>lab08: \<open>base.c\<close>, \<open>multiprocess.c\<close>, \<open>multithread.c\<close>\<close>

definition base_loop :: "slabel list" where
  "base_loop = [S_accept, S_handle, S_reset]"

definition base_main :: "int list \<Rightarrow> startup + server" where
  "base_main = serve socket_checks (listening 0)"

definition mp8_loop :: "slabel list" where
  "mp8_loop = [S_accept, S_fork, S_close_client, S_reset]"

definition mp8_main :: "int list \<Rightarrow> startup + server" where
  "mp8_main = serve socket_checks (listening 0)"

definition mt8_loop :: "slabel list" where
  "mt8_loop = [S_accept, S_create, S_detach, S_calloc]"

definition mt8_main :: "int list \<Rightarrow> startup + server" where
  "mt8_main = serve socket_checks (listening 0)"

text \<open>
  lab11: \<open>ES-MP-LimitConn/multiprocess.c\<close> (its semaphore has been opened before, with the
  value \<open>MAX_CONCURRENCY\<close>), \<open>ES-MP-LimitConn/multithread.c\<close>
\<close>

definition mp_loop :: "slabel list" where
  "mp_loop = [S_accept, S_sem_wait, S_fork, S_close_client, S_reset]"

definition mp_main :: "int list \<Rightarrow> startup + server" where
  "mp_main = serve (ERROR_HELPER ''Cannot open named semaphore'' # signal_checks @ socket_checks)
     (listening MAX_CONCURRENCY)"

definition mt_loop :: "slabel list" where
  "mt_loop = [S_accept, S_sem_wait, S_create, S_detach, S_calloc]"

definition mt_main :: "int list \<Rightarrow> startup + server" where
  "mt_main = serve (ERROR_HELPER ''Cannot create semaphore'' # signal_checks @ socket_checks)
     (listening MAX_CONCURRENCY)"

text \<open>
  lab09, \<open>Logger/server.c\<close>: the result of \<open>pthread_detach\<close> is not looked at, nor is that of
  \<open>open\<close> (the check after it tests the file's name, which is never negative). After the fork
  the server closes the log file and the reading end of the pipe and redirects \<open>stderr\<close>.
\<close>

definition srv_loop :: "slabel list" where
  "srv_loop = [S_accept, S_create, S_calloc]"

definition srv_main :: "int list \<Rightarrow> startup + server" where
  "srv_main = serve (socket_checks @ [ERROR_HELPER ''Cannot create pipe'', ERROR_HELPER ''Cannot create Logger process'',
     ERROR_HELPER ''Cannot close log file in Server'', ERROR_HELPER ''Cannot close pipe's read descriptor in Server'',
     ERROR_HELPER ''Cannot redirect stderr to the pipe's write descriptor in Server'']) (listening 0)"

text \<open>
  lab11, \<open>ES-MT-Logger\<close>: the loop is that of lab09 with two calls of \<open>my_log\<close> in it, which are
  steps of the log buffer (\<open>Async_Logger\<close>). The check after the first \<open>pthread_detach\<close> tests the result
  of \<open>pthread_create\<close> again.
\<close>

definition es_checks :: "check list" where
  "es_checks = socket_checks @ [ERROR_HELPER ''Could not initialize fill_count'',
     ERROR_HELPER ''Could not initialize empty_count'', ERROR_HELPER ''Could not initialize write_mutex'',
     ERROR_HELPER ''Could not create logging file'', PTHREAD_ERROR_HELPER ''[MAIN THREAD] Cannot create a new thread'']"

definition es_loop :: "slabel list" where
  "es_loop = [S_accept, S_create, S_calloc]"

definition es_main :: "int list \<Rightarrow> startup + server" where
  "es_main = serve es_checks (listening 0)"

lemmas loop_defs = base_loop_def mp8_loop_def mt8_loop_def mp_loop_def mt_loop_def srv_loop_def es_loop_def
lemmas main_defs = base_main_def mp8_main_def mt8_main_def mp_main_def mt_main_def srv_main_def es_main_def

section \<open>Servers with threads\<close>

lemma mset_delete_nth: "i < length xs \<Longrightarrow> mset xs = add_mset (xs ! i) (mset (delete_nth i xs))"
  by (subst id_take_nth_drop [of i xs]) (simp_all add: delete_nth_def)

lemma length_delete_nth [simp]: "i < length xs \<Longrightarrow> length (delete_nth i xs) = length xs - 1"
  by (simp add: delete_nth_def)

lemma mset_map_delete_nth:
  "i < length xs \<Longrightarrow> mset (map f xs) = add_mset (f (xs ! i)) (mset (map f (delete_nth i xs)))"
  using mset_delete_nth [of i xs] by (metis image_mset_add_mset mset_map)

lemma distinct_remove: "mset xs = add_mset x M \<Longrightarrow> mset (remove1 x xs) = M \<and> x \<in> set xs"
  by (metis add_mset_remove_trivial mset_remove1 set_mset_mset union_single_eq_member)

locale thread_server =
  fixes body :: "slabel list" and limited :: bool
  assumes next_accept: "next_in body S_accept = (if limited then S_sem_wait else S_create)"
    and next_wait: "limited \<Longrightarrow> next_in body S_sem_wait = S_create"
    and next_create: "next_in body S_create \<in> {S_detach, S_calloc}"
    and next_detach: "S_detach \<in> set body \<Longrightarrow> next_in body S_detach = S_calloc"
    and detach_in: "next_in body S_create = S_detach \<Longrightarrow> S_detach \<in> set body"
    and next_calloc: "next_in body S_calloc = S_accept"
    and threads: "S_fork \<notin> set body"
    and limited_iff: "S_sem_wait \<in> set body \<longleftrightarrow> limited"
begin

text \<open>
  Where the main thread may be; which buffers are allocated and which descriptors are open
  (each belongs to one thread, or to the main thread); how the semaphore counts the threads.
\<close>

definition main_at :: "server \<Rightarrow> bool" where
  "main_at s \<longleftrightarrow> spc s \<in> {S_accept, S_create, S_calloc} \<or> spc s = S_sem_wait \<and> limited \<or>
     spc s = S_detach \<and> S_detach \<in> set body"

definition buffers_ok :: "server \<Rightarrow> bool" where
  "buffers_ok s \<longleftrightarrow> mset (heap s) = (if spc s \<in> {S_detach, S_calloc} then {#} else {#client_addr s#})
       + mset (map waddr (workers s)) \<and> distinct (heap s) \<and> (\<forall>a\<in>set (heap s). a < fresh s)"

definition descriptors_ok :: "server \<Rightarrow> bool" where
  "descriptors_ok s \<longleftrightarrow> mset (fds s) = add_mset 0 (if spc s \<in> {S_sem_wait, S_create} then {#client_desc s#} else {#})
       + mset (map wdesc (workers s)) \<and> distinct (fds s) \<and> (\<forall>d\<in>set (fds s). d < fresh s)"

definition slots_ok :: "nat \<Rightarrow> server \<Rightarrow> bool" where
  "slots_ok n s \<longleftrightarrow> (limited \<longrightarrow> connections s + length (workers s) + (if spc s = S_create then 1 else 0) = n)"

definition thread_inv :: "nat \<Rightarrow> server \<Rightarrow> bool" where
  "thread_inv n s \<longleftrightarrow> main_at s \<and> buffers_ok s \<and> descriptors_ok s \<and> slots_ok n s \<and> \<not> fault s \<and> lost s = 0"

lemma distinct_remove1_mset:
  assumes "mset xs = M + mset (map f ws)" and "i < length ws" and "distinct xs" and "\<forall>a\<in>set xs. P a"
  shows "mset (remove1 (f (ws ! i)) xs) = M + mset (map f (delete_nth i ws)) \<and> f (ws ! i) \<in> set xs \<and>
    distinct (remove1 (f (ws ! i)) xs) \<and> (\<forall>a\<in>set (remove1 (f (ws ! i)) xs). P a)"
proof -
  have "mset xs = add_mset (f (ws ! i)) (M + mset (map f (delete_nth i ws)))"
    using assms(1) mset_map_delete_nth [OF assms(2), of f] by simp
  from distinct_remove [OF this] assms(3,4) show ?thesis by (auto dest: notin_set_remove1 simp: set_remove1_eq)
qed

lemma worker_inv:
  assumes ex: "exec_worker body ev s = Some s'" and inv: "thread_inv n s"
  shows "thread_inv n s'"
proof (cases ev)
  case (Worker_returns i)
  with ex have i: "i < length (workers s)" by (auto simp: exec_worker_def split: if_splits)
  have b: "mset (heap s) = (if spc s \<in> {S_detach, S_calloc} then {#} else {#client_addr s#}) + mset (map waddr (workers s))"
    "distinct (heap s)" "\<forall>a\<in>set (heap s). a < fresh s"
    and d: "mset (fds s) = add_mset 0 (if spc s \<in> {S_sem_wait, S_create} then {#client_desc s#} else {#}) + mset (map wdesc (workers s))"
    "distinct (fds s)" "\<forall>a\<in>set (fds s). a < fresh s"
    using inv by (simp_all add: thread_inv_def buffers_ok_def descriptors_ok_def)
  note b' = distinct_remove1_mset [OF b(1) i b(2,3)] and d' = distinct_remove1_mset [OF d(1) i d(2,3)]
  have s': "s' = s\<lparr>workers := delete_nth i (workers s),
      connections := (if limited then connections s + 1 else connections s),
      fds := remove1 (wdesc (workers s ! i)) (fds s), heap := remove1 (waddr (workers s ! i)) (heap s)\<rparr>"
    using ex Worker_returns i threads limited_iff b' inv
    by (cases s) (auto simp: exec_worker_def Let_def thread_inv_def)
  show ?thesis using inv b' d' i
    by (auto simp: s' thread_inv_def main_at_def buffers_ok_def descriptors_ok_def slots_ok_def)
next
  case (Worker_fails i)
  with ex threads have "s' = s\<lparr>stopped := True\<rparr>" by (auto simp: exec_worker_def split: if_splits)
  with inv show ?thesis
    by (simp add: thread_inv_def main_at_def buffers_ok_def descriptors_ok_def slots_ok_def)
qed (use ex in \<open>simp_all add: exec_worker_def\<close>)

lemma main_inv:
  assumes ex: "exec_main body ev s = Some s'" and inv: "thread_inv n s"
  shows "thread_inv n s'"
proof -
  note parts = inv [unfolded thread_inv_def main_at_def buffers_ok_def descriptors_ok_def slots_ok_def]
  note goal_defs = thread_inv_def main_at_def buffers_ok_def descriptors_ok_def slots_ok_def
  have new: "fresh s \<notin> set (fds s)" "fresh s \<notin> set (heap s)"
      "\<forall>a\<in>set (fds s). a < Suc (fresh s)" "\<forall>a\<in>set (heap s). a < Suc (fresh s)"
    using parts by (meson less_irrefl less_SucI)+
  have stopped: "thread_inv n (s\<lparr>stopped := True\<rparr>)" using parts by (simp add: goal_defs)
  from inv consider "spc s = S_accept" | "spc s = S_sem_wait" "limited" | "spc s = S_create"
    | "spc s = S_detach" "S_detach \<in> set body" | "spc s = S_calloc"
    by (auto simp: thread_inv_def main_at_def)
  then show ?thesis
  proof cases
    case 1
    with ex have "s' = s\<lparr>spc := next_in body S_accept, client_desc := fresh s, fds := fresh s # fds s,
        fresh := fresh s + 1\<rparr> \<or> s' = s \<or> s' = s\<lparr>stopped := True\<rparr>"
      by (cases ev) (simp_all add: exec_main_def Let_def)
    then show ?thesis using parts next_accept new 1 inv stopped
      by (elim disjE) (simp_all add: goal_defs)
  next
    case 2
    with ex have "s' = s\<lparr>spc := next_in body S_sem_wait, connections := connections s - 1\<rparr> \<and> 0 < connections s \<or>
        s' = s\<lparr>stopped := True\<rparr>"
      by (cases ev) (simp_all add: exec_main_def Let_def split: if_splits)
    then show ?thesis using parts next_wait 2 stopped unfolding goal_defs
      by (elim disjE conjE) simp_all
  next
    case 3
    with ex have "s' = s\<lparr>spc := next_in body S_create,
        workers := workers s @ [\<lparr>wdesc = client_desc s, waddr = client_addr s\<rparr>]\<rparr> \<or> s' = s\<lparr>stopped := True\<rparr>"
      by (cases ev) (simp_all add: exec_main_def Let_def)
    then show ?thesis using parts next_create detach_in 3 stopped
      by (elim disjE) (auto simp add: goal_defs)
  next
    case 4
    with ex have "s' = s\<lparr>spc := next_in body S_detach\<rparr> \<or> s' = s\<lparr>stopped := True\<rparr>"
      by (cases ev) (simp_all add: exec_main_def Let_def)
    then show ?thesis using parts next_detach 4 stopped
      by (elim disjE) (simp_all add: goal_defs)
  next
    case 5
    with ex have "s' = s\<lparr>spc := next_in body S_calloc, client_addr := fresh s, heap := fresh s # heap s,
        fresh := fresh s + 1\<rparr>"
      by (simp add: exec_main_def Let_def)
    then show ?thesis using parts next_calloc 5 new
      by (simp add: goal_defs)
  qed
qed

lemma reaches_inv: "server_reaches body s0 s \<Longrightarrow> thread_inv n s0 \<Longrightarrow> thread_inv n s"
  by (induction rule: server_reaches.induct)
    (auto simp: exec_server_def split: if_splits sevent.splits intro: main_inv worker_inv)

lemma listening_inv: "thread_inv n (listening n)"
  by (simp add: thread_inv_def main_at_def buffers_ok_def descriptors_ok_def slots_ok_def listening_def)

end

section \<open>Servers with child processes\<close>

locale process_server =
  fixes body :: "slabel list" and limited :: bool
  assumes next_accept: "next_in body S_accept = (if limited then S_sem_wait else S_fork)"
    and next_wait: "limited \<Longrightarrow> next_in body S_sem_wait = S_fork"
    and next_fork: "next_in body S_fork = S_close_client"
    and next_close: "next_in body S_close_client = S_reset"
    and next_reset: "next_in body S_reset = S_accept"
    and processes: "S_fork \<in> set body"
    and limited_iff: "S_sem_wait \<in> set body \<longleftrightarrow> limited"
begin

text \<open>
  The parent keeps the listening socket and, from \<open>accept\<close> to \<open>close\<close>, the new one. A slot is
  free, taken by a child, taken by the main loop, or lost with a child that failed.
\<close>

definition process_inv :: "nat \<Rightarrow> server \<Rightarrow> bool" where
  "process_inv n s \<longleftrightarrow> (spc s \<in> {S_accept, S_fork, S_close_client, S_reset} \<or> spc s = S_sem_wait \<and> limited) \<and>
     fds s = (if spc s \<in> {S_sem_wait, S_fork, S_close_client} then [client_desc s, 0] else [0]) \<and>
     0 < fresh s \<and> client_desc s < fresh s \<and> (spc s \<in> {S_sem_wait, S_fork, S_close_client} \<longrightarrow> 0 < client_desc s) \<and>
     heap s = [client_addr s] \<and> \<not> fault s \<and>
     (limited \<longrightarrow> connections s + length (workers s) + lost s + (if spc s = S_fork then 1 else 0) = n)"

lemma worker_inv:
  assumes "exec_worker body ev s = Some s'" and "process_inv n s"
  shows "process_inv n s'"
proof (cases ev)
  case (Worker_returns i)
  with assms(1) processes limited_iff
  have i: "i < length (workers s)" and s': "s' = s\<lparr>workers := delete_nth i (workers s),
      connections := (if limited then connections s + 1 else connections s)\<rparr>"
    by (auto simp: exec_worker_def Let_def split: if_splits)
  with assms(2) show ?thesis unfolding process_inv_def by auto
next
  case (Worker_fails i)
  with assms(1) processes have i: "i < length (workers s)"
    and s': "s' = s\<lparr>workers := delete_nth i (workers s), lost := lost s + 1\<rparr>"
    by (auto simp: exec_worker_def split: if_splits)
  with assms(2) show ?thesis unfolding process_inv_def by auto
qed (use assms in \<open>simp_all add: exec_worker_def\<close>)

lemma main_inv:
  assumes ex: "exec_main body ev s = Some s'" and inv: "process_inv n s"
  shows "process_inv n s'"
proof -
  note parts = inv [unfolded process_inv_def]
  have stopped: "process_inv n (s\<lparr>stopped := True\<rparr>)" using inv by (simp add: process_inv_def)
  from parts consider "spc s = S_accept" | "spc s = S_sem_wait" "limited" | "spc s = S_fork"
    | "spc s = S_close_client" | "spc s = S_reset" by auto
  then show ?thesis
  proof cases
    case 1
    with ex have "s' = s\<lparr>spc := next_in body S_accept, client_desc := fresh s, fds := fresh s # fds s,
        fresh := fresh s + 1\<rparr> \<or> s' = s \<or> s' = s\<lparr>stopped := True\<rparr>"
      by (cases ev) (simp_all add: exec_main_def Let_def)
    then show ?thesis using parts next_accept 1 inv stopped
      by (elim disjE) (simp_all add: process_inv_def)
  next
    case 2
    with ex have "s' = s\<lparr>spc := next_in body S_sem_wait, connections := connections s - 1\<rparr> \<and> 0 < connections s \<or>
        s' = s\<lparr>stopped := True\<rparr>"
      by (cases ev) (simp_all add: exec_main_def Let_def split: if_splits)
    then show ?thesis using parts next_wait 2 stopped unfolding process_inv_def
      by (elim disjE conjE) simp_all
  next
    case 3
    with ex have "s' = s\<lparr>spc := next_in body S_fork,
        workers := workers s @ [\<lparr>wdesc = client_desc s, waddr = client_addr s\<rparr>]\<rparr> \<or> s' = s\<lparr>stopped := True\<rparr>"
      by (cases ev) (simp_all add: exec_main_def Let_def)
    then show ?thesis using parts next_fork 3 stopped
      by (elim disjE) (simp_all add: process_inv_def)
  next
    case 4
    with ex have "s' = s\<lparr>spc := next_in body S_close_client, fds := remove1 (client_desc s) (fds s)\<rparr> \<or>
        s' = s\<lparr>stopped := True\<rparr>"
      by (cases ev) (simp_all add: exec_main_def Let_def)
    then show ?thesis using parts next_close 4 stopped
      by (elim disjE) (simp_all add: process_inv_def)
  next
    case 5
    with ex have "s' = s\<lparr>spc := next_in body S_reset\<rparr>" by (simp add: exec_main_def Let_def)
    then show ?thesis using parts next_reset 5 by (simp add: process_inv_def)
  qed
qed

lemma reaches_inv: "server_reaches body s0 s \<Longrightarrow> process_inv n s0 \<Longrightarrow> process_inv n s"
  by (induction rule: server_reaches.induct)
    (auto simp: exec_server_def split: if_splits sevent.splits intro: main_inv worker_inv)

lemma listening_inv: "process_inv n (listening n)"
  by (simp add: process_inv_def listening_def)

end

section \<open>The programs keep the contracts\<close>

interpretation mp8: process_server mp8_loop False
  by unfold_locales (simp_all add: mp8_loop_def next_in_def)

interpretation mp: process_server mp_loop True
  by unfold_locales (simp_all add: mp_loop_def next_in_def)

interpretation mt8: thread_server mt8_loop False
  by unfold_locales (simp_all add: mt8_loop_def next_in_def)

interpretation mt: thread_server mt_loop True
  by unfold_locales (simp_all add: mt_loop_def next_in_def)

interpretation srv: thread_server srv_loop False
  by unfold_locales (simp_all add: srv_loop_def next_in_def)

interpretation es: thread_server es_loop False
  by unfold_locales (simp_all add: es_loop_def next_in_def)

lemma mp_inv: "mp_main rets = Inr s0 \<Longrightarrow> server_reaches mp_loop s0 s \<Longrightarrow> mp.process_inv MAX_CONCURRENCY s"
  using mp.reaches_inv mp.listening_inv by (auto simp: mp_main_def dest!: serve_Inr)

lemma mp8_inv: "mp8_main rets = Inr s0 \<Longrightarrow> server_reaches mp8_loop s0 s \<Longrightarrow> mp8.process_inv 0 s"
  using mp8.reaches_inv mp8.listening_inv by (auto simp: mp8_main_def dest!: serve_Inr)

lemma mt_inv: "mt_main rets = Inr s0 \<Longrightarrow> server_reaches mt_loop s0 s \<Longrightarrow> mt.thread_inv MAX_CONCURRENCY s"
  using mt.reaches_inv mt.listening_inv by (auto simp: mt_main_def dest!: serve_Inr)

lemma mt8_inv: "mt8_main rets = Inr s0 \<Longrightarrow> server_reaches mt8_loop s0 s \<Longrightarrow> mt8.thread_inv 0 s"
  using mt8.reaches_inv mt8.listening_inv by (auto simp: mt8_main_def dest!: serve_Inr)

lemma srv_inv: "srv_main rets = Inr s0 \<Longrightarrow> server_reaches srv_loop s0 s \<Longrightarrow> srv.thread_inv 0 s"
  using srv.reaches_inv srv.listening_inv by (auto simp: srv_main_def dest!: serve_Inr)

lemma es_inv: "es_main rets = Inr s0 \<Longrightarrow> server_reaches es_loop s0 s \<Longrightarrow> es.thread_inv 0 s"
  using es.reaches_inv es.listening_inv by (auto simp: es_main_def dest!: serve_Inr)

section \<open>Properties\<close>


lemma mp_demo_main: "mp_main [0, 0, 0, 3, 0, 0, 0] = Inr (listening 3)"
  by code_simp

definition three_failures :: "sevent list" where
  "three_failures = concat (replicate 3 [Ok, Ok, Ok, Ok, Worker_fails 0, Ok]) @ [Ok]"

lemma mp_demo_run:
  obtains s where "server_reaches mp_loop (listening 3) s" and "lost s = 3" and "spc s = S_sem_wait"
    and "workers s = []" and "stopped s = False"
proof -
  have "map_option (\<lambda>s. (lost s, spc s, workers s, stopped s)) (run_server mp_loop three_failures (listening 3))
      = Some (3, S_sem_wait, [], False)" by code_simp
  then obtain s where "run_server mp_loop three_failures (listening 3) = Some s"
    and s: "lost s = 3" "spc s = S_sem_wait" "workers s = []" "stopped s = False"
    by (auto simp: map_option_eq_Some)
  from run_server_reaches [OF server_reaches.start this(1)] s that show ?thesis by blast
qed


text \<open>
  C21: in the process server of lab11 a child that ends with an error never posts the
  semaphore. After three of them the server waits in \<open>sem_wait\<close> with no child left: no worker
  can move, the call cannot succeed, and the next connection is never handled.
\<close>

theorem mp_starves:
  assumes "mp_main rets = Inr s0" and "server_reaches mp_loop s0 s"
    and "lost s = MAX_CONCURRENCY" and "spc s = S_sem_wait"
  shows "workers s = [] \<and> exec_server mp_loop Ok s = None \<and>
    exec_server mp_loop (Worker_returns i) s = None \<and> exec_server mp_loop (Worker_fails i) s = None"
proof -
  have "workers s = []" "connections s = 0"
    using mp_inv [OF assms(1,2)] assms(3) by (auto simp: mp.process_inv_def)
  then show ?thesis using assms(4) by (simp add: exec_server_def exec_main_def exec_worker_def)
qed

theorem mp_starves_witness:
  "\<exists>s. server_reaches mp_loop (listening 3) s \<and> stopped s = False \<and> workers s = [] \<and> exec_server mp_loop Ok s = None"
proof -
  obtain s where s: "server_reaches mp_loop (listening 3) s" "lost s = 3" "spc s = S_sem_wait" "stopped s = False"
    by (rule mp_demo_run)
  from mp_starves [OF mp_demo_main s(1) _ s(3), of 0] s show ?thesis
    by (intro exI [of _ s]) (simp add: MAX_CONCURRENCY_def)
qed

text \<open>
  The thread server of lab11 never has more than \<open>MAX_CONCURRENCY\<close> handlers running and
  never loses a slot: where it waits for one, a handler is running, or the call succeeds.
\<close>

theorem mt_limit:
  assumes "mt_main rets = Inr s0" and "server_reaches mt_loop s0 s"
  shows "length (workers s) \<le> MAX_CONCURRENCY \<and> lost s = 0 \<and>
    (spc s = S_sem_wait \<and> \<not> stopped s \<longrightarrow>
      (\<exists>s'. exec_server mt_loop Ok s = Some s') \<or> length (workers s) = MAX_CONCURRENCY)"
  using mt_inv [OF assms]
  by (auto simp: mt.thread_inv_def mt.slots_ok_def exec_server_def exec_main_def)

lemma mt_demo_main: "mt_main [0, 0, 0, 3, 0, 0, 0] = Inr (listening 3)"
  by code_simp

lemma mt_demo_run:
  obtains s where "server_reaches mt_loop (listening 3) s" and "length (workers s) = 3" and "spc s = S_sem_wait"
proof -
  let ?evs = "concat (replicate 3 [Ok, Ok, Ok, Ok, Ok]) @ [Intr, Ok]"
  have "map_option (\<lambda>s. (length (workers s), spc s)) (run_server mt_loop ?evs (listening 3)) = Some (3, S_sem_wait)"
    by code_simp
  then obtain s where "run_server mt_loop ?evs (listening 3) = Some s"
    and s: "length (workers s) = 3" "spc s = S_sem_wait" by (auto simp: map_option_eq_Some)
  from run_server_reaches [OF server_reaches.start this(1)] s that show ?thesis by blast
qed

theorem mt_limit_witness:
  "\<exists>s. server_reaches mt_loop (listening 3) s \<and> length (workers s) = 3 \<and> lost s = 0"
proof -
  obtain s where s: "server_reaches mt_loop (listening 3) s" "length (workers s) = 3" by (rule mt_demo_run)
  from mt_limit [OF mt_demo_main s(1)] s show ?thesis by blast
qed

text \<open>
  C20: in the thread servers of lab08, lab09 and lab11, two handlers running at the same time
  have different sockets and different address buffers, none of them is the one \<open>accept\<close>
  writes to, and every buffer is freed once: nothing is freed that is not allocated.
\<close>

theorem thread_arguments_separate:
  assumes "mt8_main rets = Inr s0 \<and> server_reaches mt8_loop s0 s \<or>
    srv_main rets = Inr s0 \<and> server_reaches srv_loop s0 s \<or>
    es_main rets = Inr s0 \<and> server_reaches es_loop s0 s \<or>
    mt_main rets = Inr s0 \<and> server_reaches mt_loop s0 s"
  shows "distinct (map wdesc (workers s)) \<and> distinct (map waddr (workers s)) \<and> \<not> fault s \<and>
    (spc s = S_accept \<longrightarrow> client_addr s \<notin> waddr ` set (workers s))"
proof -
  have sep: "distinct (map wdesc ws) \<and> distinct (map waddr ws) \<and> \<not> f \<and> (pc = S_accept \<longrightarrow> a \<notin> waddr ` set ws)"
    if "distinct hp" "distinct fd" "\<not> f"
      "mset hp = (if pc \<in> {S_detach, S_calloc} then {#} else {#a#}) + mset (map waddr ws)"
      "mset fd = add_mset 0 (if pc \<in> {S_sem_wait, S_create} then {#d#} else {#}) + mset (map wdesc ws)"
    for hp fd ws f pc a d
  proof -
    have "mset hp = mset ((if pc \<in> {S_detach, S_calloc} then [] else [a]) @ map waddr ws)"
      unfolding that(4) by (cases "pc \<in> {S_detach, S_calloc}") simp_all
    from mset_eq_imp_distinct_iff [OF this] that(1)
    have "distinct ((if pc \<in> {S_detach, S_calloc} then [] else [a]) @ map waddr ws)" by blast
    moreover have "mset fd = mset (0 # (if pc \<in> {S_sem_wait, S_create} then [d] else []) @ map wdesc ws)"
      unfolding that(5) by (cases "pc \<in> {S_sem_wait, S_create}") simp_all
    from mset_eq_imp_distinct_iff [OF this] that(2)
    have "distinct (0 # (if pc \<in> {S_sem_wait, S_create} then [d] else []) @ map wdesc ws)" by blast
    ultimately show ?thesis using that(3) by (auto split: if_splits)
  qed
  from assms have "mt8.thread_inv 0 s \<or> srv.thread_inv 0 s \<or> es.thread_inv 0 s \<or> mt.thread_inv MAX_CONCURRENCY s"
    using mt8_inv srv_inv es_inv mt_inv by blast
  then have "distinct (heap s)" "distinct (fds s)" "\<not> fault s"
    "mset (heap s) = (if spc s \<in> {S_detach, S_calloc} then {#} else {#client_addr s#}) + mset (map waddr (workers s))"
    "mset (fds s) = add_mset 0 (if spc s \<in> {S_sem_wait, S_create} then {#client_desc s#} else {#})
      + mset (map wdesc (workers s))"
    unfolding mt8.thread_inv_def mt8.buffers_ok_def mt8.descriptors_ok_def srv.thread_inv_def
      srv.buffers_ok_def srv.descriptors_ok_def
      es.thread_inv_def es.buffers_ok_def es.descriptors_ok_def mt.thread_inv_def mt.buffers_ok_def mt.descriptors_ok_def
    by blast+
  then show ?thesis by (rule sep)
qed

theorem thread_arguments_separate_witness:
  "\<exists>s. server_reaches mt_loop (listening 3) s \<and> length (workers s) = 3 \<and> distinct (map waddr (workers s))"
proof -
  obtain s where s: "server_reaches mt_loop (listening 3) s" "length (workers s) = 3" by (rule mt_demo_run)
  from thread_arguments_separate [of "[0, 0, 0, 3, 0, 0, 0]" "listening 3" s] mt_demo_main s show ?thesis by blast
qed

end
