(* ===== verification/Async_Logger.thy ===== *)
theory Async_Logger
  imports Ring_Contract Echo_Servers Accept_Loop
begin

text \<open>
  The two loggers. lab11 (\<open>ES-MT-Logger\<close>): the handler threads call \<open>my_log\<close>, which puts a line
  into a circular buffer of 128 pointers; the thread \<open>logger\<close> takes them out and appends them to
  the log file. This is a producer/consumer program like those of lab05, and interprets the same
  contract, for any number of threads. lab09 (\<open>Logger/server.c\<close>): \<open>stderr\<close> of the server is a
  pipe, which the process \<open>startLogger\<close> copies to the log file.
\<close>

section \<open>lab11: the log buffer\<close>

definition LOG_BUFFER_SIZE :: nat where "LOG_BUFFER_SIZE = 128"

text \<open>
  A call of \<open>my_log\<close> is one round of a producer: the duplicate of the message is the item.
\<close>

definition my_log_steps :: "plabel list" where
  "my_log_steps =
    [P_produce, P_wait_empty, P_wait_mutex, P_load_slot, P_store_slot, P_load_idx, P_store_idx,
     P_post_mutex, P_post_fill]"

definition logger_steps :: "clabel list" where
  "logger_steps =
    [C_wait_fill, C_load_slot, C_load_item, C_load_idx, C_store_idx, C_load_dep, C_store_dep,
     C_free, C_post_empty]"

text \<open>
  The logger writes \<open>strlen(log_msg)\<close> bytes at the end of the log file, which only it writes to,
  with the loop \<open>write_all\<close>; a failing \<open>write\<close> ends the process, which \<open>C_store_dep\<close> leaves out.
\<close>

definition append_to_log :: "string \<Rightarrow> byte list \<Rightarrow> byte list" where
  "append_to_log log_msg logfile = logfile @ takeWhile (\<lambda>c. c \<noteq> NUL) log_msg"

definition es_prog :: "(string, string, byte list) prog" where
  "es_prog = \<lparr>producer_body = my_log_steps, consumer_body = logger_steps, bufsize = LOG_BUFFER_SIZE,
     produce = my_log_item, consume = append_to_log\<rparr>"

text \<open>\<open>threads\<close> handler threads (and the main thread) log into a file with the given contents.\<close>

definition es_globals :: "nat \<Rightarrow> byte list \<Rightarrow> (string, byte list) ring" where
  "es_globals threads logfile =
    \<lparr>transactions = replicate LOG_BUFFER_SIZE [], fill_count = 0, empty_count = LOG_BUFFER_SIZE,
     read_mutex = 0, write_mutex = 1, read_index = 0, write_index = 0, deposit = logfile, printed = [],
     prods = replicate threads \<lparr>plab = P_produce, pcur = [], preg = 0\<rparr>,
     cons = [\<lparr>clab = C_wait_fill, citem = [], cidx = 0, cdep = []\<rparr>],
     exited = None, written = [], taken = [], consumed = []\<rparr>"

interpretation es_log: ring_program es_prog True False Before_post np 1 for np
proof
  fix l m
  show "plive True l \<Longrightarrow> next_in (producer_body es_prog) l = prod_next True l"
    by (cases l) (simp_all add: es_prog_def my_log_steps_def next_in_def)
  show "clive Before_post False m \<Longrightarrow> next_in (consumer_body es_prog) m = cons_next Before_post False m"
    by (cases m) (simp_all add: es_prog_def logger_steps_def next_in_def clive_def)
qed (simp_all add: es_prog_def LOG_BUFFER_SIZE_def)

lemma es_start: "ring_inv es_prog True False Before_post np 1 logfile (es_globals np logfile)"
  by (auto simp: ring_inv_def ring_shape_def ring_tokens_def ring_slots_def ring_sink_def es_globals_def
      es_prog_def LOG_BUFFER_SIZE_def plive_def clive_def)

lemmas es_log_inv = es_log.reachable_inv [OF _ es_start]

lemma fold_append_to_log:
  "fold append_to_log xs f = f @ concat (map (takeWhile (\<lambda>c. c \<noteq> NUL)) xs)"
  by (induction xs arbitrary: f) (simp_all add: append_to_log_def)


definition es_demo :: "string event list" where
  "es_demo = replicate 7 (Prod 0 ''first'') @ [Prod 1 ''second'', Prod 1 []] @ replicate 2 (Prod 0 [])
     @ replicate 7 (Prod 1 []) @ replicate 9 (Cons 0)"

lemma es_demo_run:
  obtains s where "reachable es_prog (es_globals 2 ''# '') s" and "written s = [''first'' @ [NL], ''second'' @ [NL]]"
    and "consumed s = [''first'' @ [NL]]" and "exited s = None"
proof -
  have "map_option (\<lambda>s. (written s, consumed s, exited s)) (run es_prog es_demo (es_globals 2 ''# ''))
      = Some ([''first'' @ [NL], ''second'' @ [NL]], [''first'' @ [NL]], None)" by code_simp
  then obtain s where "run es_prog es_demo (es_globals 2 ''# '') = Some s"
    and s: "written s = [''first'' @ [NL], ''second'' @ [NL]]" "consumed s = [''first'' @ [NL]]" "exited s = None"
    by (auto simp: map_option_eq_Some)
  from run_reachable [OF reachable.start this(1)] s that show ?thesis by blast
qed


text \<open>
  C6: lab11 with a logger: two threads are never both between reading and advancing
  \<open>write_index\<close>, and unless the process has exited, a handler thread or the logger can move:
  a full buffer delays the handlers but never blocks the server for good.
\<close>

theorem es_log_progress:
  assumes "reachable es_prog (es_globals np logfile) s" and "0 < np" and "exited s = None"
  shows "cnt (Pcrit \<circ> plab) (prods s) \<le> 1 \<and>
    ((\<exists>i s'. i < np \<and> exec es_prog (Prod i msg) s = Some s') \<or> (\<exists>s'. exec es_prog (Cons 0) s = Some s'))"
proof -
  note inv = es_log_inv [OF assms(1)]
  from inv have "cnt (Pcrit \<circ> plab) (prods s) \<le> 1"
    using es_log.producer_alone by (auto simp: ring_inv_def)
  with es_log.no_deadlock [OF inv assms(2), of msg] assms(3) show ?thesis by (auto simp: exec_def)
qed

theorem es_log_progress_witness:
  "\<exists>s s'. reachable es_prog (es_globals 2 ''# '') s \<and>
    ((\<exists>i. exec es_prog (Prod i ''x'') s = Some s') \<or> exec es_prog (Cons 0) s = Some s')"
proof -
  obtain s where s: "reachable es_prog (es_globals 2 ''# '') s" "exited s = None"
    by (rule es_demo_run)
  from es_log_progress [OF s(1) _ s(2), of "''x''"] s(1) show ?thesis by auto
qed

section \<open>lab09: the logger process\<close>

text \<open>
  The main loop of \<open>startLogger\<close>. \<open>stops\<close> are the values of the flag \<open>logger_shouldStop\<close>, which a
  signal handler sets at some time, at the ends of the rounds (not set where the list has ended).
\<close>

function logger_loop :: "bool list \<Rightarrow> io \<Rightarrow> unit result" where
  "logger_loop stops w =
     andthen (sys_read 512 w) (\<lambda>r w. case r of (ret, buf) \<Rightarrow>
       if ret = 0 then (Done (), w)
       else if ret = -1 \<and> errno w = EINTR then logger_loop stops w
       else if ret < 0 then error_exit ''Cannot read from pipe'' w
       else andthen (write_all ''Cannot write to log file'' buf 0 (length buf) w) (\<lambda>_ w.
         if stops \<noteq> [] \<and> hd stops then (Done (), w) else logger_loop (tl stops) w))"
  by pat_completeness auto
termination
  by (relation "measure (\<lambda>(stops, w). length (answers w))") (auto dest!: sys_read_Done answers_le(2))

declare logger_loop.simps [simp del]

definition startLogger :: "bool list \<Rightarrow> io \<Rightarrow> unit result" where
  "startLogger stops w =
     andthen (close_or_exit ''logging_pipe[1]'' ''Cannot close pipe's write descriptor in Logger'' w) (\<lambda>_ w.
     andthen (logger_loop stops w) (\<lambda>_ w.
     andthen (close_or_exit ''logfile_desc'' ''Cannot close log file from Logger'' w) (\<lambda>_ w.
     andthen (sys_close ''logging_pipe[0]'' w) (\<lambda>_ w. (Exit 0, w)))))"

lemma logger_loop_spec:
  assumes "logger_loop stops w = (r, w')"
  shows "(\<exists>e. out w' = out w @ e \<and> prefix e (inp w) \<and> (r = Done () \<longrightarrow> True \<in> set stops \<or> e = inp w)) \<and>
    r \<noteq> Undefined \<and> (\<forall>n. r = Exit n \<longrightarrow> n = 1)"
  using assms
proof (induction stops w rule: logger_loop.induct)
  case (1 stops w)
  note run = "1.prems" [unfolded logger_loop.simps [of stops w]]
  obtain r1 w1 where rd: "sys_read 512 w = (r1, w1)" by fastforce
  show ?case
  proof (cases r1)
    case (Done rc)
    obtain ret buf where rc: "rc = (ret, buf)" by fastforce
    note s = sys_read_Done [OF rd [unfolded Done rc]]
    from s have w1: "out w1 = out w" by (auto dest: arg_cong [where f = out])
    consider "ret = 0" | "ret = -1" "errno w1 = EINTR" | "ret < 0" "\<not> (ret = -1 \<and> errno w1 = EINTR)" | "0 < ret"
      by linarith
    then show ?thesis
    proof cases
      case 1
      with run rd Done rc have "r = Done ()" "w' = w1" by auto
      moreover from s 1 have "inp w = []" by auto
      ultimately show ?thesis using w1 by auto
    next
      case 2
      with s have "inp w1 = inp w" by (auto dest: arg_cong [where f = inp])
      moreover from run rd Done rc 2 have "logger_loop stops w1 = (r, w')" by simp
      from "1.IH"(1) [OF rd [unfolded Done] rc [symmetric]] 2 this
      have "(\<exists>e. out w' = out w1 @ e \<and> prefix e (inp w1) \<and> (r = Done () \<longrightarrow> True \<in> set stops \<or> e = inp w1)) \<and>
        r \<noteq> Undefined \<and> (\<forall>n. r = Exit n \<longrightarrow> n = 1)" by simp
      ultimately show ?thesis using w1 by simp
    next
      case 3
      with run rd Done rc w1 show ?thesis by (auto simp: error_exit_def)
    next
      case 4
      with s have buf: "inp w = buf @ inp w1" by auto
      obtain r2 w2 where wr: "write_all ''Cannot write to log file'' buf 0 (length buf) w1 = (r2, w2)" by fastforce
      note t = write_all_transmits [OF wr]
      show ?thesis
      proof (cases "\<exists>m. r2 = Done m")
        case no: False
        with run rd Done rc 4 wr have "w' = w2" "r \<noteq> Done ()" "r = Undefined \<longrightarrow> r2 = Undefined"
          "\<forall>n. r = Exit n \<longrightarrow> r2 = Exit n" by (cases r2; auto)+
        with t w1 buf show ?thesis by (auto intro: prefix_prefix)
      next
        case True
        then obtain m where m: "r2 = Done m" by blast
        with t w1 have w2: "out w2 = out w @ buf" "inp w2 = inp w1" by auto
        show ?thesis
        proof (cases "stops \<noteq> [] \<and> hd stops")
          case True
          with run rd Done rc 4 wr m have "r = Done ()" "w' = w2" by auto
          moreover from True have "True \<in> set stops" by (cases stops) auto
          ultimately show ?thesis using w2 buf by auto
        next
          case False
          with run rd Done rc 4 wr m have "logger_loop (tl stops) w2 = (r, w')" by auto
          from "1.IH"(2) [OF rd [unfolded Done] rc [symmetric] _ _ _ wr [unfolded m] False this] 4 obtain e
            where "out w' = out w2 @ e" "prefix e (inp w2)" "r = Done () \<longrightarrow> True \<in> set (tl stops) \<or> e = inp w2"
              "r \<noteq> Undefined" "\<forall>n. r = Exit n \<longrightarrow> n = 1" by auto
          moreover have "set (tl stops) \<subseteq> set stops" by (cases stops) auto
          ultimately show ?thesis using w2 buf by (intro conjI exI [of _ "buf @ e"]) auto
        qed
      qed
    qed
  qed (use run rd in \<open>auto simp: sys_read_def Let_def split: list.splits answer.splits\<close>)
qed

lemma startLogger_spec:
  assumes "startLogger stops w = (r, w')"
  shows "\<exists>e. out w' = out w @ e \<and> prefix e (inp w) \<and> (r = Exit 0 \<longrightarrow> True \<in> set stops \<or> e = inp w)"
proof -
  obtain r1 w1 where c: "close_or_exit ''logging_pipe[1]'' ''Cannot close pipe's write descriptor in Logger'' w = (r1, w1)"
    by fastforce
  note o1 = off_stream_exit(1) [OF c, unfolded off_stream_def]
  show ?thesis
  proof (cases "r1 = Done ()")
    case True
    obtain r2 w2 where l: "logger_loop stops w1 = (r2, w2)" by fastforce
    from logger_loop_spec [OF l] o1 obtain e where e: "out w2 = out w @ e" "prefix e (inp w)"
      "r2 = Done () \<longrightarrow> True \<in> set stops \<or> e = inp w" "\<forall>n. r2 = Exit n \<longrightarrow> n = 1" by auto
    have rest: "andthen (r2, w2) (\<lambda>_ w. andthen (close_or_exit ''logfile_desc'' ''Cannot close log file from Logger'' w)
        (\<lambda>_ w. andthen (sys_close ''logging_pipe[0]'' w) (\<lambda>_ w. (Exit 0, w)))) = (r, w')"
      using assms c True l by (simp add: startLogger_def)
    show ?thesis
    proof (cases "r2 = Done ()")
      case True
      have "out w' = out w2" using rest True
        by (auto simp: close_or_exit_def sys_close_def error_helper_def error_exit_def
            split: list.splits answer.splits if_splits)
      with e True show ?thesis by auto
    next
      case False
      with rest have "w' = w2" "\<forall>n. r = Exit n \<longrightarrow> r2 = Exit n" by (cases r2; auto)+
      with e show ?thesis by auto
    qed
  next
    case False
    with assms c have "w' = w1" "\<forall>n. r = Exit n \<longrightarrow> r1 = Exit n" by (cases r1; auto simp: startLogger_def)+
    with o1 show ?thesis by auto
  qed
qed

text \<open>
  C24: the logger process of lab09: what is in the log file is always an initial part of what the
  server wrote to the pipe, whatever the pieces in which it is read and written; and the logger
  exits normally only after it has copied everything up to the end of the pipe, or after it has
  been told to stop.
\<close>

theorem pipe_log_complete:
  assumes "startLogger stops w = (r, w')"
  shows "(\<exists>e. out w' = out w @ e \<and> prefix e (inp w)) \<and>
    (r = Exit 0 \<and> True \<notin> set stops \<longrightarrow> out w' = out w @ inp w)"
  using startLogger_spec [OF assms] by auto

theorem pipe_log_complete_witness:
  "\<exists>w'. startLogger [] (fresh_io ''boot. connection.'' [Xfer 0 0, Xfer 5 0, Err EINTR, Xfer 0 2, Xfer 0 9,
      Xfer 99 0, Xfer 0 99, Xfer 0 0, Xfer 0 0, Xfer 0 0]) = (Exit 0, w') \<and> out w' = ''boot. connection.''"
proof -
  let ?w = "fresh_io ''boot. connection.'' [Xfer 0 0, Xfer 5 0, Err EINTR, Xfer 0 2, Xfer 0 9,
      Xfer 99 0, Xfer 0 99, Xfer 0 0, Xfer 0 0, Xfer 0 0]"
  have "fst (startLogger [] ?w) = Exit 0" by code_simp
  then obtain w' where "startLogger [] ?w = (Exit 0, w')" by (metis prod.collapse)
  with pipe_log_complete [OF this] show ?thesis by (auto simp: fresh_io_def)
qed

text \<open>
  The comment at the test of the flag in \<open>startLogger\<close> says that there are no more data to
  read when it is set. There may be: the loop ends after the piece it has just read, and what
  the server has written since stays in the pipe.
\<close>

theorem pipe_log_drops_rest:
  assumes "inp w = c @ rest" and "length c = Suc j" and "j < 512"
    and "answers w = Xfer j u # Xfer v k # xs" and "j \<le> k"
  shows "\<exists>w'. logger_loop (True # stops) w = (Done (), w') \<and> out w' = out w @ c \<and> inp w' = rest"
proof -
  have "sys_read 512 w = (Done (int (Suc j), c), w\<lparr>answers := Xfer v k # xs, inp := rest\<rparr>)"
    using assms by (simp add: sys_read_def Let_def)
  moreover have "write_all msg c 0 (Suc j) (w\<lparr>answers := Xfer v k # xs, inp := rest\<rparr>) =
      (Done (Suc j), w\<lparr>answers := xs, inp := rest, out := out w @ c\<rparr>)" for msg
    using assms write_all_step(4) [of "Suc j" 0 c "w\<lparr>answers := Xfer v k # xs, inp := rest\<rparr>" v k xs msg]
    by (simp add: min_def)
  ultimately show ?thesis using assms(2) by (subst logger_loop.simps) simp
qed

theorem pipe_log_drops_rest_witness:
  "\<exists>w'. logger_loop [True] (fresh_io ''seenlost'' [Xfer 3 0, Xfer 0 9]) = (Done (), w') \<and>
    out w' = ''seen'' \<and> inp w' = ''lost''"
  using pipe_log_drops_rest [of "fresh_io ''seenlost'' [Xfer 3 0, Xfer 0 9]" "''seen''" "''lost''" 3 0 0 9 "[]" "[]"]
  by (simp add: fresh_io_def)

end
