(* ===== verification/File_Copy.thy ===== *)
theory File_Copy
  imports Stream_Contract C_Library
begin

text \<open>
  \<open>lab06-cpoy+timeserver/copy/copy.c\<close>: copy a file block by block. The descriptors are the two
  streams of a process (\<open>inp\<close> what is left of the source, \<open>out\<close> what has been written); the
  files are a map from names to contents. \<open>FD_ERROR_HELPER\<close>, which the program uses once and
  does not define, is taken for \<open>ERROR_HELPER\<close>.
\<close>

section \<open>The copy loop\<close>

text \<open>
  Filling the buffer: \<open>read\<close> until it is full or the file ends. The result is the part of the
  buffer that has been filled.
\<close>

function fill_block :: "byte list \<Rightarrow> nat \<Rightarrow> io \<Rightarrow> byte list result" where
  "fill_block buf bytes_left w =
     (if bytes_left > 0 then
        andthen (sys_read bytes_left w) (\<lambda>r w. case r of (ret, c) \<Rightarrow>
          if ret = 0 then (Done buf, w)
          else if ret = -1 \<and> errno w = EINTR then fill_block buf bytes_left w
          else if ret < 0 then error_exit ''Cannot read from source file'' w
          else fill_block (buf @ c) (bytes_left - nat ret) w)
      else (Done buf, w))"
  by pat_completeness auto
termination
  by (relation "measure (\<lambda>(buf, bytes_left, w). length (answers w))") (auto dest: sys_read_Done)

declare fill_block.simps [simp del]

lemma fill_block_0 [simp]: "fill_block buf 0 w = (Done buf, w)"
  by (simp add: fill_block.simps)

lemma fill_block_step:
  assumes "0 < n"
  shows "answers w = [] \<Longrightarrow> fill_block buf n w = (Blocked, w)"
    and "answers w = Err EINTR # xs \<Longrightarrow>
      fill_block buf n w = fill_block buf n (w\<lparr>answers := xs, errno := EINTR\<rparr>)"
    and "answers w = Err e # xs \<Longrightarrow> e \<noteq> EINTR \<Longrightarrow>
      fill_block buf n w = error_exit ''Cannot read from source file'' (w\<lparr>answers := xs, errno := e\<rparr>)"
    and "answers w = Xfer j u # xs \<Longrightarrow> inp w = [] \<Longrightarrow> fill_block buf n w = (Done buf, w\<lparr>answers := xs\<rparr>)"
  using assms
  by (subst fill_block.simps, simp add: sys_read_def Let_def)+

lemma fill_block_more:
  assumes "0 < n" and "answers w = Xfer j u # xs" and "inp w = c @ rest" and "c \<noteq> []"
    and "length c = min (length (inp w)) (min n (Suc j))"
  shows "fill_block buf n w = fill_block (buf @ c) (n - length c) (w\<lparr>answers := xs, inp := rest\<rparr>)"
proof -
  have "take (min n (Suc j)) (inp w) = c \<and> drop (min n (Suc j)) (inp w) = rest"
    using assms(3,5) by (auto simp: min_def split: if_splits)
  then show ?thesis using assms(1,2,4)
    by (subst fill_block.simps) (simp add: sys_read_def Let_def)
qed

lemma fill_block_induct [consumes 0, case_names full blocked intr fail eof more]:
  assumes "\<And>buf w. P buf 0 w (Done buf, w)"
    and "\<And>buf n w. 0 < n \<Longrightarrow> answers w = [] \<Longrightarrow> P buf n w (Blocked, w)"
    and "\<And>buf n w xs res. 0 < n \<Longrightarrow> answers w = Err EINTR # xs \<Longrightarrow>
      P buf n (w\<lparr>answers := xs, errno := EINTR\<rparr>) res \<Longrightarrow> P buf n w res"
    and "\<And>buf n w e xs. 0 < n \<Longrightarrow> answers w = Err e # xs \<Longrightarrow> e \<noteq> EINTR \<Longrightarrow>
      P buf n w (error_exit ''Cannot read from source file'' (w\<lparr>answers := xs, errno := e\<rparr>))"
    and "\<And>buf n w j u xs. 0 < n \<Longrightarrow> answers w = Xfer j u # xs \<Longrightarrow> inp w = [] \<Longrightarrow>
      P buf n w (Done buf, w\<lparr>answers := xs\<rparr>)"
    and "\<And>buf n w j u xs c rest res. answers w = Xfer j u # xs \<Longrightarrow> inp w = c @ rest \<Longrightarrow> c \<noteq> [] \<Longrightarrow>
      length c \<le> n \<Longrightarrow> P (buf @ c) (n - length c) (w\<lparr>answers := xs, inp := rest\<rparr>) res \<Longrightarrow> P buf n w res"
  shows "P buf n w (fill_block buf n w)"
proof (induction "answers w" arbitrary: buf n w)
  case Nil
  with assms(1,2) show ?case by (cases "n = 0") (auto simp: fill_block_step)
next
  case (Cons a xs)
  note ans = Cons.hyps(2) [symmetric]
  show ?case
  proof (cases "n = 0")
    case False
    then have n: "0 < n" by simp
    show ?thesis
    proof (cases a)
      case (Xfer j u)
      show ?thesis
      proof (cases "inp w = []")
        case True
        with assms(5) n ans Xfer show ?thesis by (simp add: fill_block_step)
      next
        case False
        let ?c = "take (min n (Suc j)) (inp w)" and ?r = "drop (min n (Suc j)) (inp w)"
        have c: "inp w = ?c @ ?r" "?c \<noteq> []" "length ?c = min (length (inp w)) (min n (Suc j))" "length ?c \<le> n"
          using False n by auto
        have "P (buf @ ?c) (n - length ?c) (w\<lparr>answers := xs, inp := ?r\<rparr>)
            (fill_block (buf @ ?c) (n - length ?c) (w\<lparr>answers := xs, inp := ?r\<rparr>))"
          by (rule Cons.hyps(1)) simp
        with assms(6) [OF ans [unfolded Xfer] c(1,2,4)] fill_block_more [OF n ans [unfolded Xfer] c(1-3), of buf]
        show ?thesis by simp
      qed
    next
      case (Err e)
      with n ans Cons.hyps(1) [of "w\<lparr>answers := xs, errno := EINTR\<rparr>" buf n]
        assms(3) [of n w xs buf] assms(4) [of n w e xs buf] show ?thesis
        by (cases "e = EINTR") (simp_all add: fill_block_step)
    qed
  qed (use assms(1) in simp)
qed

text \<open>A block that is not full ends the file; nothing read is lost, also when the call fails.\<close>

lemma fill_block_spec:
  "case fill_block buf n w of (r, w') \<Rightarrow> later w w' \<and> out w' = out w \<and>
     (case r of Done c \<Rightarrow> (\<exists>d. c = buf @ d \<and> inp w = d @ inp w' \<and> length d \<le> n \<and>
         (length d < n \<longrightarrow> inp w' = []) \<and> (0 < n \<longrightarrow> length (answers w') < length (answers w)))
      | Exit e \<Rightarrow> e = 1 \<and> \<not> benign (answers w) \<and> suffix (inp w') (inp w)
      | Blocked \<Rightarrow> suffix (inp w') (inp w)
      | Undefined \<Rightarrow> False)"
proof (induction rule: fill_block_induct [where buf = buf and n = n and w = w])
  case (intr buf n w xs res)
  then show ?case by (auto simp: later_def split: outcome.splits prod.splits)
next
  case (more buf n w j u xs c rest res)
  obtain r w' where res: "res = (r, w')" by (cases res)
  show ?case
  proof (cases r)
    case (Done b)
    with more res obtain d where "b = (buf @ c) @ d" "rest = d @ inp w'" "length d \<le> n - length c"
      "length d < n - length c \<longrightarrow> inp w' = []" "length (answers w') \<le> length xs" by (auto simp: later_def)
    with more res Done show ?thesis
      by (auto simp: later_def less_Suc_eq_le intro!: exI [of _ "c @ d"])
  qed (use more res in \<open>auto simp: later_def suffix_def\<close>)
qed (auto simp: later_def error_exit_def)

lemma fill_block_Done:
  assumes "fill_block [] n w = (Done c, w')"
  shows "out w' = out w" and "inp w = c @ inp w'" and "length c \<le> n" and "length c < n \<Longrightarrow> inp w' = []"
    and "0 < n \<Longrightarrow> length (answers w') < length (answers w)" and "later w w'"
  using fill_block_spec [where buf = "[]" and n = n and w = w] assms by auto

function performCopyBetweenDescriptors :: "nat \<Rightarrow> io \<Rightarrow> unit result" where
  "performCopyBetweenDescriptors block_size w =
     andthen (fill_block [] block_size w) (\<lambda>buf w.
       if buf = [] then (Done (), w)
       else andthen (write_all ''Cannot write to destination file'' buf 0 (length buf) w) (\<lambda>_ w.
         performCopyBetweenDescriptors block_size w))"
  by pat_completeness auto
termination
proof (relation "measure (\<lambda>(b, w). length (answers w))", goal_cases)
  case (2 b w buf w1 m w2)
  have "0 < b"
  proof (rule ccontr)
    assume "\<not> 0 < b"
    with 2(1,2) show False by simp
  qed
  with 2(1) fill_block_Done(5) have "length (answers w1) < length (answers w)" by blast
  moreover from 2(3) have "length (answers w2) \<le> length (answers w1)" by (rule answers_le)
  ultimately show ?case by simp
qed simp

declare performCopyBetweenDescriptors.simps [simp del]

text \<open>
  What has been written is always an initial part of the source; when the copy returns it is all
  of it. The second part is about the kernel's answers: enough that are not failures, and the
  copy returns.
\<close>

lemma copy_spec:
  assumes "performCopyBetweenDescriptors b w = (r, w')"
  shows "(\<exists>e. out w' = out w @ e \<and> prefix e (inp w) \<and> (0 < b \<and> r = Done () \<longrightarrow> e = inp w)) \<and>
    r \<noteq> Undefined \<and> (\<forall>n. r = Exit n \<longrightarrow> n = 1)"
  using assms
proof (induction b w rule: performCopyBetweenDescriptors.induct)
  case (1 b w)
  note run = "1.prems" [unfolded performCopyBetweenDescriptors.simps [of b w]]
  obtain r1 w1 where fill: "fill_block [] b w = (r1, w1)" by fastforce
  show ?case
  proof (cases r1)
    case (Done buf)
    note f = fill_block_Done [OF fill [unfolded Done]]
    show ?thesis
    proof (cases "buf = []")
      case True
      with run fill Done have "r = Done ()" "w' = w1" by auto
      with True f show ?thesis by auto
    next
      case False
      obtain r2 w2 where wr: "write_all ''Cannot write to destination file'' buf 0 (length buf) w1 = (r2, w2)" by fastforce
      note t = write_all_transmits [OF wr]
      show ?thesis
      proof (cases "\<exists>m. r2 = Done m")
        case True
        with t have w2: "out w2 = out w1 @ buf" "inp w2 = inp w1" by auto
        from True run fill Done False wr have "performCopyBetweenDescriptors b w2 = (r, w')" by auto
        with "1.IH" fill Done False wr True
        obtain e where "out w' = out w2 @ e" "prefix e (inp w2)" "0 < b \<and> r = Done () \<longrightarrow> e = inp w2"
          "r \<noteq> Undefined" "\<forall>n. r = Exit n \<longrightarrow> n = 1" by blast
        with w2 f show ?thesis by (intro conjI exI [of _ "buf @ e"]) auto
      next
        case no: False
        with run fill Done False wr have "w' = w2" "r \<noteq> Done ()" "r = Undefined \<longrightarrow> r2 = Undefined"
          "\<forall>n. r = Exit n \<longrightarrow> r2 = Exit n" by (cases r2; auto)+
        moreover from t obtain e where "out w2 = out w1 @ e" "prefix e buf" "r2 \<noteq> Undefined" "\<forall>n. r2 = Exit n \<longrightarrow> n = 1"
          by auto
        ultimately show ?thesis using f by (intro conjI exI [of _ e]) (auto intro: prefix_order.trans)
      qed
    qed
  qed (use run fill fill_block_spec [where buf = "[]" and n = b and w = w] in auto)
qed

lemma fill_block_completes:
  assumes "benign (answers w)" and "length (inp w) < xfers (answers w)" and "0 < n"
  shows "\<exists>c w'. fill_block buf n w = (Done (buf @ c), w') \<and> inp w = c @ inp w' \<and> length c \<le> n \<and>
    (length c < n \<longrightarrow> inp w' = []) \<and> benign (answers w') \<and>
    xfers (answers w) \<le> xfers (answers w') + length c + (if length c < n then 1 else 0)"
proof -
  let ?P = "\<lambda>buf n w res. benign (answers w) \<longrightarrow> length (inp w) < xfers (answers w) \<longrightarrow>
    (\<exists>c w'. res = (Done (buf @ c), w') \<and> inp w = c @ inp w' \<and> length c \<le> n \<and>
    (length c < n \<longrightarrow> inp w' = []) \<and> benign (answers w') \<and>
    xfers (answers w) \<le> xfers (answers w') + length c + (if length c < n then 1 else 0))"
  have "?P buf n w (fill_block buf n w)"
  proof (induction rule: fill_block_induct [where P = ?P])
    case (more buf n w j u xs c rest res)
    show ?case
    proof (intro impI)
      assume ok: "benign (answers w)" and enough: "length (inp w) < xfers (answers w)"
      have "0 < length c" "length c + length rest < Suc (xfers xs)" using more(1-3) enough by simp_all
      then obtain k where k: "length c = Suc k" by (cases c) auto
      from \<open>0 < length c\<close> \<open>length c + length rest < Suc (xfers xs)\<close> have "length rest < xfers xs" by linarith
      with ok obtain d w' where "res = (Done ((buf @ c) @ d), w')" "rest = d @ inp w'" "length d \<le> n - length c"
        "length d < n - length c \<longrightarrow> inp w' = []" "benign (answers w')"
        "xfers xs \<le> xfers (answers w') + length d + (if length d < n - length c then 1 else 0)"
        using more by auto
      then show "\<exists>c w'. res = (Done (buf @ c), w') \<and> inp w = c @ inp w' \<and> length c \<le> n \<and>
        (length c < n \<longrightarrow> inp w' = []) \<and> benign (answers w') \<and>
        xfers (answers w) \<le> xfers (answers w') + length c + (if length c < n then 1 else 0)"
        using more k by (intro exI [of _ "c @ d"] exI [of _ w']) (auto split: if_splits)
    qed
  qed (auto simp: error_exit_def)
  with assms show ?thesis by blast
qed

lemma copy_completes:
  assumes "0 < b" and "benign (answers w)" and "2 * length (inp w) + 2 \<le> xfers (answers w)"
  shows "fst (performCopyBetweenDescriptors b w) = Done ()"
  using assms
proof (induction "length (inp w)" arbitrary: w rule: less_induct)
  case less
  from fill_block_completes [OF less.prems(2) _ less.prems(1), of "[]"] less.prems(3)
  obtain c w1 where fill: "fill_block [] b w = (Done c, w1)" and c: "inp w = c @ inp w1"
    "length c < b \<longrightarrow> inp w1 = []" "benign (answers w1)"
    "xfers (answers w) \<le> xfers (answers w1) + length c + (if length c < b then 1 else 0)" by auto
  show ?case
  proof (cases "c = []")
    case True
    with fill show ?thesis by (simp add: performCopyBetweenDescriptors.simps [of b w])
  next
    case False
    have bound: "length c \<le> xfers (answers w1)" using c less.prems(3) by (auto split: if_splits)
    from write_all_completes [of 0 "length c" c w1 "''Cannot write to destination file''"] c(3) bound
    obtain w2 where wr: "write_all ''Cannot write to destination file'' c 0 (length c) w1 = (Done (length c), w2)"
      and w2: "benign (answers w2)" "xfers (answers w1) \<le> xfers (answers w2) + length c" by auto
    from write_all_transmits [OF wr] have inp2: "inp w2 = inp w1" by simp
    have copy: "performCopyBetweenDescriptors b w = performCopyBetweenDescriptors b w2"
      using fill False wr by (simp add: performCopyBetweenDescriptors.simps [of b w])
    have x: "2 * length (inp w2) + 2 \<le> xfers (answers w2) + (if length c < b then 1 else 0)"
      using c w2(2) less.prems(3) inp2 by (auto split: if_splits)
    show ?thesis
    proof (cases "length c < b")
      case True
      with c inp2 have nil: "inp w2 = []" by simp
      with x True have "length (inp w2) < xfers (answers w2)" by simp
      from fill_block_completes [OF w2(1) this less.prems(1), of "[]"] nil
      obtain w3 where "fill_block [] b w2 = (Done [], w3)" by auto
      with copy show ?thesis by (simp add: performCopyBetweenDescriptors.simps [of b w2])
    next
      case False
      with x have "2 * length (inp w2) + 2 \<le> xfers (answers w2)" by simp
      moreover have "length (inp w2) < length (inp w)" using c inp2 \<open>c \<noteq> []\<close> by simp
      ultimately show ?thesis using less.hyps [of w2] less.prems(1) w2(1) copy by simp
    qed
  qed
qed

section \<open>main\<close>

definition DEFAULT_BLOCK_SIZE :: int where "DEFAULT_BLOCK_SIZE = 128"

text \<open>
  Opening for writing without \<open>O_TRUNC\<close> leaves the contents of an existing file as they are: what
  is written replaces an initial part of them.
\<close>

definition overwrite :: "byte list \<Rightarrow> byte list \<Rightarrow> byte list" where
  "overwrite old new = new @ drop (length new) old"

text \<open>
  The files, and which of them the kernel lets the process open or create (\<open>may_open\<close>). The
  descriptors are those of \<open>src_fd\<close> and \<open>dest_fd\<close>.
\<close>

definition copy_main :: "string list \<Rightarrow> (string \<Rightarrow> bool) \<Rightarrow> (string \<rightharpoonup> byte list) \<Rightarrow> io \<Rightarrow>
    unit result \<times> (string \<rightharpoonup> byte list)" where
  "copy_main argv may_open files w =
     (let block_size = (if length argv = 4 then atoi (argv ! 3) else DEFAULT_BLOCK_SIZE) in
      if length argv < 3 \<or> length argv > 4 \<or> block_size \<le> 0 then
        (error_exit (''Syntax: '' @ hd (argv @ [[]]) @ '' <source_file> <dest_file> [<block_size>]'') w, files)
      else (case files (argv ! 1) of
        None \<Rightarrow> (error_exit ''Could not open source file'' w, files)
      | Some src \<Rightarrow>
          if \<not> may_open (argv ! 1) then (error_exit ''Could not open source file'' w, files)
          else
            let w = (if files (argv ! 2) = None then w
                     else eprint (''WARNING: file '' @ argv ! 2 @ '' already exists, I will overwrite it!'') w);
                old = (case files (argv ! 2) of None \<Rightarrow> [] | Some old \<Rightarrow> old) in
            if \<not> may_open (argv ! 2) then (error_exit ''Could not create destination file'' w, files)
            else
              (case performCopyBetweenDescriptors (nat block_size) (w\<lparr>inp := src, out := []\<rparr>) of (r, w') \<Rightarrow>
                (andthen (r, w') (\<lambda>_ w. andthen (close_or_exit ''src_fd'' ''Could not close source file'' w) (\<lambda>_ w.
                   andthen (close_or_exit ''dest_fd'' ''Could not close destination file'' w) (\<lambda>_ w. (Exit 0, w)))),
                 files(argv ! 2 \<mapsto> overwrite old (out w'))))))"

lemma copy_main_success:
  assumes "copy_main [cmd, src, dest, bs] may_open files w = ((Exit 0, w'), files')"
  shows "\<exists>s. files src = Some s \<and> 0 < atoi bs \<and>
    files' = files(dest \<mapsto> overwrite (case files dest of None \<Rightarrow> [] | Some old \<Rightarrow> old) s)"
proof -
  obtain s where s: "files src = Some s" "0 < atoi bs"
    using assms by (auto simp: copy_main_def error_exit_def Let_def split: option.splits if_splits)
  define v where "v = (if files dest = None then w
    else eprint (''WARNING: file '' @ dest @ '' already exists, I will overwrite it!'') w)\<lparr>inp := s, out := []\<rparr>"
  obtain r w1 where cp: "performCopyBetweenDescriptors (nat (atoi bs)) v = (r, w1)" by fastforce
  have "files' = files(dest \<mapsto> overwrite (case files dest of None \<Rightarrow> [] | Some old \<Rightarrow> old) (out w1)) \<and> r = Done ()"
    using assms s cp copy_spec [OF cp]
    by (cases r) (auto simp: copy_main_def error_exit_def Let_def v_def split: if_splits)
  moreover from this copy_spec [OF cp] s have "out w1 = s" by (auto simp: v_def)
  ultimately show ?thesis using s by blast
qed

section \<open>Properties\<close>

text \<open>
  C9: \<open>performCopyBetweenDescriptors\<close>: whatever the kernel does (short reads, short writes,
  interruptions, failures), what has been written to the destination is an initial part of the
  source; if the function returns, it is all of the source; a failure ends the process with
  status 1.
\<close>

theorem copy_correct:
  assumes "0 < block_size" and "performCopyBetweenDescriptors block_size w = (r, w')"
  shows "(\<exists>e. out w' = out w @ e \<and> prefix e (inp w)) \<and> (r = Done () \<longrightarrow> out w' = out w @ inp w) \<and>
    r \<noteq> Undefined \<and> (\<forall>n. r = Exit n \<longrightarrow> n = 1)"
  using copy_spec [OF assms(2)] assms(1) by auto

definition copy_demo :: io where
  "copy_demo = \<lparr>inp = ''hello world'', out = [], answers = [Xfer 1 0, Err EINTR, Xfer 0 0, Xfer 9 0, Xfer 0 1, Err EINTR,
       Xfer 0 9, Xfer 9 0, Xfer 0 9, Xfer 9 0, Xfer 0 0, Xfer 0 9, Xfer 0 0, Xfer 0 0], errno = ENONE, stdin = [],
     stdout = [], stderr = [], closed = [], unlinked = [], sigterms = 0, sem_posts = 0, logged = []\<rparr>"

theorem copy_correct_witness:
  "\<exists>w'. performCopyBetweenDescriptors 4 copy_demo = (Done (), w') \<and> out w' = ''hello world''"
proof -
  have "fst (performCopyBetweenDescriptors 4 copy_demo) = Done ()" by code_simp
  then obtain w' where "performCopyBetweenDescriptors 4 copy_demo = (Done (), w')" by (metis prod.collapse)
  with copy_correct [OF _ this] show ?thesis by (simp add: copy_demo_def)
qed

text \<open>
  C10: the copy loop returns if no call fails and the kernel answers often enough:
  \<open>2 n + 2\<close> successful calls suffice for a file of \<open>n\<close> bytes, however small its pieces and
  however often a call is interrupted.
\<close>

theorem copy_terminates:
  assumes "0 < block_size" and "benign (answers w)" and "2 * length (inp w) + 2 \<le> xfers (answers w)"
  shows "\<exists>w'. performCopyBetweenDescriptors block_size w = (Done (), w') \<and> out w' = out w @ inp w"
proof -
  from copy_completes [OF assms] obtain w' where "performCopyBetweenDescriptors block_size w = (Done (), w')"
    by (metis prod.collapse)
  with copy_spec [OF this] assms(1) show ?thesis by auto
qed

theorem copy_terminates_witness:
  "\<exists>w'. performCopyBetweenDescriptors 2 (copy_demo\<lparr>inp := ''abc'', answers := Err EINTR # replicate 8 (Xfer 0 0)\<rparr>)
      = (Done (), w') \<and> out w' = ''abc''"
  using copy_terminates [of 2 "copy_demo\<lparr>inp := ''abc'', answers := Err EINTR # replicate 8 (Xfer 0 0)\<rparr>"]
  by (simp add: copy_demo_def benign_def xfers_def list_all_iff)



end
