(* ===== verification/Echo_Clients.thy ===== *)
theory Echo_Clients
  imports Echo_Servers
begin

text \<open>
  The clients of the echo servers: lab08 (\<open>client.c\<close>), lab09 (\<open>Logger/client.c\<close>), lab11
  (\<open>ES-MP-LimitConn/client.c\<close>, \<open>ES-MT-Logger/echo_client.c\<close>, which is the same file, and the
  client with many threads \<open>ES-MT-Logger/echo_client_mt.c\<close>). One round of the first four is
  \<open>client_round\<close>, over the loop that sends and the loop that receives; the locale
  \<open>echo_client\<close> says what such a client sends for any sender and receiver. The buffer is modelled
  byte by byte, because what the clients print depends on what is left in it.
\<close>

section \<open>The user's line\<close>

text \<open>What \<open>fgets\<close> takes from the input, and the lines into which it cuts the whole input.\<close>

definition first_line :: "nat \<Rightarrow> byte list \<Rightarrow> byte list" where
  "first_line n s = take (n - 1) (takeWhile (\<lambda>c. c \<noteq> NL) s @ (if NL \<in> set s then [NL] else []))"

lemma fgets_first_line:
  "fgets n w = (if stdin w = [] then (None, w)
     else (Some (first_line n (stdin w)), w\<lparr>stdin := drop (length (first_line n (stdin w))) (stdin w)\<rparr>))"
proof -
  have "(if dropWhile (\<lambda>c. c \<noteq> NL) (stdin w) = [] then [] else [NL]) = (if NL \<in> set (stdin w) then [NL] else [])"
    by (auto simp: dropWhile_eq_Nil_conv)
  then show ?thesis by (simp only: fgets_def Let_def first_line_def)
qed

lemma takeWhile_line: "NL \<notin> set m \<Longrightarrow> takeWhile (\<lambda>c. c \<noteq> NL) (m @ NL # rest) = m"
  by (subst takeWhile_append2) auto

lemma first_line_prefix: "prefix (first_line n s) s"
proof -
  have "prefix (takeWhile (\<lambda>c. c \<noteq> NL) s @ (if NL \<in> set s then [NL] else [])) s"
  proof (cases "NL \<in> set s")
    case True
    then obtain s1 s2 where "s = s1 @ NL # s2" "NL \<notin> set s1" by (meson split_list_first)
    then show ?thesis by (simp add: takeWhile_line)
  qed (simp add: takeWhile_is_prefix)
  then show ?thesis unfolding first_line_def by (meson prefix_order.trans take_is_prefix)
qed

lemma first_line_nonempty: "s \<noteq> [] \<Longrightarrow> 1 < n \<Longrightarrow> first_line n s \<noteq> []"
  by (cases s) (auto simp: first_line_def)

lemma length_first_line: "length (first_line n s) \<le> n - 1"
  by (simp add: first_line_def)

function typed_lines :: "nat \<Rightarrow> byte list \<Rightarrow> byte list list" where
  "typed_lines n s = (if s = [] \<or> n \<le> 1 then []
     else first_line n s # typed_lines n (drop (length (first_line n s)) s))"
  by pat_completeness auto
termination by (relation "measure (\<lambda>(n, s). length s)") (auto simp: first_line_nonempty)

declare typed_lines.simps [simp del]

text \<open>Lines that end with a newline and fit into the buffer are taken one by one.\<close>

lemma first_line_line: "NL \<notin> set m \<Longrightarrow> length m + 2 \<le> n \<Longrightarrow> first_line n (m @ NL # rest) = m @ [NL]"
  by (simp add: first_line_def takeWhile_line)

lemma typed_lines_lines:
  assumes "\<forall>m\<in>set ms. NL \<notin> set m \<and> length m + 2 \<le> n" and "2 \<le> n"
  shows "typed_lines n (concat (map (\<lambda>m. m @ [NL]) ms)) = map (\<lambda>m. m @ [NL]) ms"
  using assms by (induction ms) (simp_all add: typed_lines.simps first_line_line)

text \<open>
  \<open>fgets(buf, sizeof(buf), stdin)\<close>, then \<open>msg_len = strlen(buf); buf[--msg_len] = 0\<close>: the last
  character, meant to be the newline, is removed. On an empty string the terminator would be
  stored before the buffer. The result is the buffer and \<open>msg_len\<close>.
\<close>

definition read_line :: "byte list \<Rightarrow> io \<Rightarrow> (byte list \<times> nat) result" where
  "read_line buf w = (case fgets (length buf) (print ''Insert your message: '' w) of
      (None, w) \<Rightarrow> error_exit ''Error while reading from stdin, exiting...'' w
    | (Some line, w) \<Rightarrow>
        (let buf = blit 0 (line @ [NUL]) buf;
             msg_len = length (takeWhile (\<lambda>c. c \<noteq> NUL) line)
         in if msg_len = 0 then (Undefined, w) else (Done (buf[msg_len - 1 := NUL], msg_len - 1), w)))"

lemma read_line_result:
  assumes "stdin w \<noteq> []" and "NUL \<notin> set (stdin w)" and "1 < length buf"
    and line: "line = first_line (length buf) (stdin w)"
  shows "read_line buf w = (Done (butlast line @ NUL # NUL # drop (Suc (length line)) buf, length line - 1),
     w\<lparr>stdout := stdout w @ [''Insert your message: ''], stdin := drop (length line) (stdin w)\<rparr>)"
proof -
  have ne: "line \<noteq> []" using assms by (simp add: first_line_nonempty)
  then obtain m x where l: "line = m @ [x]" by (cases line rule: rev_cases) auto
  have "set line \<subseteq> set (stdin w)" using first_line_prefix [of "length buf" "stdin w"] line
    by (auto dest: set_mono_prefix)
  with assms(2) have "takeWhile (\<lambda>c. c \<noteq> NUL) line = line" by (auto simp: takeWhile_eq_all_conv)
  moreover have "length line < length buf" using length_first_line [of "length buf" "stdin w"] assms by simp
  ultimately show ?thesis using assms(1) l
    by (simp add: read_line_def fgets_first_line print_def line [symmetric] Let_def blit_def list_update_append)
qed

definition is_quit :: "byte list \<Rightarrow> nat \<Rightarrow> bool" where
  "is_quit buf msg_len \<longleftrightarrow> msg_len = length SERVER_COMMAND \<and> starts_with buf SERVER_COMMAND"

lemma is_quit_line: "is_quit (m @ NUL # r) (length m) \<longleftrightarrow> m = SERVER_COMMAND"
  by (auto simp: is_quit_def starts_with_def)

text \<open>\<open>printf("Server response: %s\n", buf)\<close>: a buffer without terminator is read past its end.\<close>

definition print_response :: "byte list \<Rightarrow> io \<Rightarrow> unit result" where
  "print_response buf w = (case c_str buf of
      None \<Rightarrow> (Undefined, w) | Some s \<Rightarrow> (Done (), print (''Server response: '' @ s @ [NL]) w))"

section \<open>One round\<close>

text \<open>
  The body of the clients' main loop: \<open>None\<close> after the quit command, otherwise the buffer with
  which the next round begins. What is received is stored over the message that has been sent.
\<close>

definition client_round :: "(byte list \<Rightarrow> io \<Rightarrow> nat result) \<Rightarrow> (io \<Rightarrow> byte list result) \<Rightarrow> byte list \<Rightarrow> io \<Rightarrow>
    byte list option result" where
  "client_round send recv buf w =
     andthen (read_line buf w) (\<lambda>r w. case r of (buf, msg_len) \<Rightarrow>
     andthen (send (take msg_len buf) w) (\<lambda>_ w.
       if is_quit buf msg_len then (Done None, w)
       else andthen (recv w) (\<lambda>c w.
         let buf = blit 0 c buf in
         andthen (print_response buf w) (\<lambda>_ w. (Done (Some buf), w)))))"

lemma read_line_answers: "read_line buf w = (r, w') \<Longrightarrow> answers w' = answers w \<and> inp w' = inp w \<and> out w' = out w \<and>
    errno w' = errno w"
  by (auto simp: read_line_def fgets_def print_def error_exit_def Let_def split: if_splits)

lemma print_response_answers: "print_response buf w = (r, w') \<Longrightarrow> answers w' = answers w"
  by (auto simp: print_response_def print_def split: option.splits)

lemma client_round_answers:
  assumes run: "client_round send recv buf w = (Done (Some b), w')"
    and s: "\<And>d v r v'. send d v = (r, v') \<Longrightarrow> length (answers v') \<le> length (answers v)"
    and r: "\<And>v c v'. recv v = (Done c, v') \<Longrightarrow> length (answers v') < length (answers v)"
  shows "length (answers w') < length (answers w)"
proof -
  obtain b1 n w1 where 1: "read_line buf w = (Done (b1, n), w1)"
    using run by (auto simp: client_round_def andthen_Done)
  with run obtain m w2 where 2: "send (take n b1) w1 = (Done m, w2)" by (auto simp: client_round_def andthen_Done)
  with run 1 obtain c w3 u where 3: "recv w2 = (Done c, w3)" "print_response (blit 0 c b1) w3 = (Done u, w')"
    by (auto simp: client_round_def andthen_Done Let_def split: if_splits)
  from read_line_answers [OF 1] s [OF 2] r [OF 3(1)] print_response_answers [OF 3(2)] show ?thesis by simp
qed

section \<open>The clients\<close>

definition client_checks :: "check list" where
  "client_checks = [ERROR_HELPER ''Could not create socket'', ERROR_HELPER ''Could not create connection'']"

text \<open>lab11: \<open>send_all_eq1\<close> and \<open>recv_open\<close>.\<close>

definition mp_send :: "byte list \<Rightarrow> io \<Rightarrow> nat result" where
  "mp_send = (\<lambda>data. send_all_eq1 ''Cannot write to socket'' data 0 (length data))"

definition mp_recv :: "nat \<Rightarrow> io \<Rightarrow> byte list result" where
  "mp_recv = recv_open ''Connection closed unexpectedly!'' ''Cannot read from socket''"

lemma mp_calls_answers: "mp_send d v = (r, v') \<Longrightarrow> length (answers v') \<le> length (answers v)"
  "mp_recv n v = (Done c, v') \<Longrightarrow> length (answers v') < length (answers v)"
  unfolding mp_send_def mp_recv_def by (rule answers_le answers_decrease; assumption)+

function mp_client_loop :: "byte list \<Rightarrow> io \<Rightarrow> unit result" where
  "mp_client_loop buf w =
     andthen (client_round mp_send (mp_recv 1024) buf w) (\<lambda>r w. case r of
       None \<Rightarrow> (Done (), w) | Some buf \<Rightarrow> mp_client_loop buf w)"
  by pat_completeness auto
termination
  by (relation "measure (\<lambda>(buf, w). length (answers w))") (auto intro: client_round_answers mp_calls_answers)

text \<open>
  \<open>buf\<close> is what the 1024 bytes of the buffer hold at first. \<open>printf("%s", buf)\<close> of the welcome
  message ends at the first terminator.
\<close>

definition mp_client_main :: "byte list \<Rightarrow> int list \<Rightarrow> io \<Rightarrow> unit result" where
  "mp_client_main buf rets w = (case run_checks client_checks rets of
      Startup_exit msg \<Rightarrow> error_exit msg w | Startup_pending \<Rightarrow> (Blocked, w)
    | Startup_done _ \<Rightarrow>
        andthen (mp_recv (1024 - 1) (eprint ''Connection established!'' w)) (\<lambda>c w.
        andthen (mp_client_loop (blit 0 (c @ [NUL]) buf) (print (takeWhile (\<lambda>c. c \<noteq> NUL) c) w)) (\<lambda>_ w.
        andthen (close_or_exit ''socket_desc'' ''Cannot close socket'' w) (\<lambda>_ w.
          (Exit 0, eprint ''Exiting...'' w)))))"

text \<open>lab09: one \<open>send\<close>; a closed connection counts as an empty message.\<close>

definition log_send :: "byte list \<Rightarrow> io \<Rightarrow> nat result" where
  "log_send = send_retry ''Cannot write to socket''"

definition log_recv :: "nat \<Rightarrow> io \<Rightarrow> byte list result" where
  "log_recv = recv_retry ''Cannot read from socket''"

lemma log_calls_answers: "log_send d v = (r, v') \<Longrightarrow> length (answers v') \<le> length (answers v)"
  "log_recv n v = (Done c, v') \<Longrightarrow> length (answers v') < length (answers v)"
  unfolding log_send_def log_recv_def using later_send_retry by (auto simp: later_def dest: answers_decrease)

function log_client_loop :: "byte list \<Rightarrow> io \<Rightarrow> unit result" where
  "log_client_loop buf w =
     andthen (client_round log_send (log_recv 1024) buf w) (\<lambda>r w. case r of
       None \<Rightarrow> (Done (), w) | Some buf \<Rightarrow> log_client_loop buf w)"
  by pat_completeness auto
termination
  by (relation "measure (\<lambda>(buf, w). length (answers w))") (auto intro: client_round_answers log_calls_answers)

definition log_client_main :: "byte list \<Rightarrow> int list \<Rightarrow> io \<Rightarrow> unit result" where
  "log_client_main buf rets w = (case run_checks client_checks rets of
      Startup_exit msg \<Rightarrow> error_exit msg w | Startup_pending \<Rightarrow> (Blocked, w)
    | Startup_done _ \<Rightarrow>
        andthen (log_recv (1024 - 1) (eprint ''Connection established!'' w)) (\<lambda>c w.
        andthen (log_client_loop (blit 0 (c @ [NUL]) buf) (print (takeWhile (\<lambda>c. c \<noteq> NUL) c) w)) (\<lambda>_ w.
        andthen (close_or_exit ''socket_desc'' ''Cannot close socket'' w) (\<lambda>_ w.
          (Exit 0, eprint ''Exiting...'' w)))))"

text \<open>
  lab08: \<open>msg_len\<close> is a \<open>size_t\<close>, and \<open>while ((msg_len = recv(...)) < 0)\<close> never repeats: a failing
  call counts as a message of \<open>2 ^ 64 - 1\<close> bytes. In the main loop \<open>msg_len\<close> is not used after it;
  at the welcome message the terminator is stored at this index.
\<close>

definition base_recv_len :: "nat \<Rightarrow> io \<Rightarrow> (64 word \<times> byte list) result" where
  "base_recv_len n w = andthen (sys_read n w) (\<lambda>r w. case r of (ret, c) \<Rightarrow> (Done (word_of_int ret, c), w))"

definition base_recv :: "nat \<Rightarrow> io \<Rightarrow> byte list result" where
  "base_recv n w = andthen (base_recv_len n w) (\<lambda>r w. (Done (snd r), w))"

lemma base_recv_answers: "base_recv n v = (Done c, v') \<Longrightarrow> length (answers v') < length (answers v)"
  by (auto simp: base_recv_def base_recv_len_def andthen_Done dest: sys_read_Done)

function base_client_loop :: "byte list \<Rightarrow> io \<Rightarrow> unit result" where
  "base_client_loop buf w =
     andthen (client_round log_send (base_recv 1024) buf w) (\<lambda>r w. case r of
       None \<Rightarrow> (Done (), w) | Some buf \<Rightarrow> base_client_loop buf w)"
  by pat_completeness auto
termination
  by (relation "measure (\<lambda>(buf, w). length (answers w))")
    (auto intro: client_round_answers log_calls_answers base_recv_answers)

definition base_client_main :: "byte list \<Rightarrow> int list \<Rightarrow> io \<Rightarrow> unit result" where
  "base_client_main buf rets w = (case run_checks client_checks rets of
      Startup_exit msg \<Rightarrow> error_exit msg w | Startup_pending \<Rightarrow> (Blocked, w)
    | Startup_done _ \<Rightarrow>
        andthen (base_recv_len (1024 - 1) (eprint ''Connection established!'' w)) (\<lambda>r w. case r of (msg_len, c) \<Rightarrow>
        if length buf \<le> unat msg_len then (Undefined, w)
        else andthen (base_client_loop ((blit 0 c buf)[unat msg_len := NUL])
            (print (takeWhile (\<lambda>c. c \<noteq> NUL) c) w)) (\<lambda>_ w.
        andthen (close_or_exit ''socket_desc'' ''Cannot close socket'' w) (\<lambda>_ w.
          (Exit 0, eprint ''Exiting...'' w)))))"

declare mp_client_loop.simps [simp del] log_client_loop.simps [simp del] base_client_loop.simps [simp del]

section \<open>What the clients send\<close>

text \<open>The messages a client makes of its input: the lines without their last characters.\<close>

definition client_messages :: "nat \<Rightarrow> byte list \<Rightarrow> byte list list" where
  "client_messages n s = map butlast (typed_lines n s)"

definition upto_quit :: "byte list list \<Rightarrow> byte list list" where
  "upto_quit ms = takeWhile (\<lambda>m. m \<noteq> SERVER_COMMAND) ms @ (if SERVER_COMMAND \<in> set ms then [SERVER_COMMAND] else [])"

lemma upto_quit_simps [simp]:
  "upto_quit [] = []" "upto_quit (SERVER_COMMAND # ms) = [SERVER_COMMAND]"
  "m \<noteq> SERVER_COMMAND \<Longrightarrow> upto_quit (m # ms) = m # upto_quit ms"
  by (simp_all add: upto_quit_def)

lemma client_messages_lines:
  assumes "\<forall>m\<in>set ms. NL \<notin> set m \<and> length m + 2 \<le> n" and "2 \<le> n"
  shows "client_messages n (concat (map (\<lambda>m. m @ [NL]) ms)) = ms"
  by (simp add: client_messages_def typed_lines_lines [OF assms] comp_def)

lemma client_round_line:
  assumes "stdin w \<noteq> []" and "NUL \<notin> set (stdin w)" and "1 < length buf"
    and line: "line = first_line (length buf) (stdin w)" and m: "m = butlast line"
  shows "client_round send recv buf w =
    andthen (send m (w\<lparr>stdout := stdout w @ [''Insert your message: ''], stdin := drop (length line) (stdin w)\<rparr>))
     (\<lambda>_ w. if m = SERVER_COMMAND then (Done None, w)
       else andthen (recv w) (\<lambda>c w. let buf = blit 0 c (m @ NUL # NUL # drop (Suc (Suc (length m))) buf) in
         andthen (print_response buf w) (\<lambda>_ w. (Done (Some buf), w))))"
proof -
  have "line \<noteq> []" using assms by (simp add: first_line_nonempty)
  then have l: "length line = Suc (length m)" using m by (cases line rule: rev_cases) auto
  show ?thesis
    by (simp add: client_round_def read_line_result [OF assms(1-3) line] m [symmetric] l is_quit_line)
qed

lemma client_round_eof: "stdin w = [] \<Longrightarrow> client_round send recv buf w =
    error_exit ''Error while reading from stdin, exiting...'' (w\<lparr>stdout := stdout w @ [''Insert your message: '']\<rparr>)"
  by (simp add: client_round_def read_line_def fgets_def print_def error_exit_def)

locale echo_client = receiver receive most + sender transmit reliable limit
  for receive :: "io \<Rightarrow> byte list result" and most :: nat
    and transmit :: "byte list \<Rightarrow> io \<Rightarrow> nat result" and reliable :: "io \<Rightarrow> bool" and limit :: nat +
  fixes loop :: "byte list \<Rightarrow> io \<Rightarrow> unit result" and bufsize :: nat
  assumes loop_eq: "loop buf w = andthen (client_round transmit receive buf w) (\<lambda>r w. case r of
      None \<Rightarrow> (Done (), w) | Some buf \<Rightarrow> loop buf w)"
    and sizes: "2 \<le> bufsize" "most \<le> bufsize" "bufsize \<le> limit"
    and receive_stdin: "receive w = (Done c, w') \<Longrightarrow> stdin w' = stdin w"
    and transmit_stdin: "transmit data w = (Done n, w') \<Longrightarrow> reliable w \<Longrightarrow> length data \<le> limit \<Longrightarrow> stdin w' = stdin w"
begin

lemma loop_sends:
  assumes "loop buf w = (r, w')" and "reliable w" and "length buf = bufsize" and "NUL \<notin> set (stdin w)"
  shows "\<exists>e. out w' = out w @ e \<and> prefix e (concat (upto_quit (client_messages bufsize (stdin w)))) \<and>
    (r = Done () \<longrightarrow> SERVER_COMMAND \<in> set (client_messages bufsize (stdin w)) \<and>
       e = concat (upto_quit (client_messages bufsize (stdin w))))"
  using assms
proof (induction "length (stdin w)" arbitrary: w buf rule: less_induct)
  case less
  show ?case
  proof (cases "stdin w = []")
    case True
    with less.prems(1) have "r = Exit 1" "out w' = out w"
      by (auto simp: loop_eq [of buf w] client_round_eof error_exit_def)
    then show ?thesis by simp
  next
    case False
    define line where "line = first_line bufsize (stdin w)"
    define m where "m = butlast line"
    have ne: "line \<noteq> []" using False sizes by (simp add: line_def first_line_nonempty)
    then have len: "length line = Suc (length m)" by (cases line rule: rev_cases) (auto simp: m_def)
    have fits: "length line < bufsize" using length_first_line [of bufsize "stdin w"] sizes by (simp add: line_def)
    define w1 where "w1 = w\<lparr>stdout := stdout w @ [''Insert your message: ''], stdin := drop (length line) (stdin w)\<rparr>"
    have ms: "client_messages bufsize (stdin w) = m # client_messages bufsize (stdin w1)"
      using False sizes by (simp add: client_messages_def typed_lines.simps [of bufsize "stdin w"] line_def m_def w1_def)
    have round: "client_round transmit receive buf w = andthen (transmit m w1)
       (\<lambda>_ w. if m = SERVER_COMMAND then (Done None, w)
         else andthen (receive w) (\<lambda>c w. let buf = blit 0 c (m @ NUL # NUL # drop (Suc (Suc (length m))) buf) in
           andthen (print_response buf w) (\<lambda>_ w. (Done (Some buf), w))))"
      unfolding w1_def
      by (rule client_round_line) (use False less.prems sizes in \<open>simp_all add: line_def m_def\<close>)
    obtain r1 w2 where tr: "transmit m w1 = (r1, w2)" by fastforce
    have rel: "reliable w1" using less.prems(2) by (rule reliable_later) (simp add: w1_def later_def)
    have "length m \<le> limit" using len fits sizes by simp
    note tlaw = transmit_law [OF tr rel this]
    note keep = transmit_stdin [OF tr [THEN trans] rel \<open>length m \<le> limit\<close>]
    show ?thesis
    proof (cases "\<exists>n. r1 = Done n")
      case no: False
      with less.prems(1) tr have "w' = w2" "r \<noteq> Done ()"
        by (cases r1; auto simp: loop_eq [of buf w] round)+
      with tlaw ms show ?thesis
        by (cases "m = SERVER_COMMAND") (auto simp: w1_def intro: prefix_prefix)
    next
      case True
      with tlaw have w2: "out w2 = out w @ m" "later w1 w2" by (auto simp: w1_def)
      from True keep have in2: "stdin w2 = stdin w1" by auto
      show ?thesis
      proof (cases "m = SERVER_COMMAND")
        case quit: True
        with less.prems(1) tr True have "r = Done ()" "w' = w2" by (auto simp: loop_eq [of buf w] round)
        with quit w2 ms show ?thesis by auto
      next
        case no: False
        obtain r3 w3 where rc: "receive w2 = (r3, w3)" by fastforce
        note law = receive_law [OF rc]
        have "\<exists>e. out w' = out w2 @ e \<and> prefix e (concat (upto_quit (client_messages bufsize (stdin w1)))) \<and>
          (r = Done () \<longrightarrow> SERVER_COMMAND \<in> set (client_messages bufsize (stdin w1)) \<and>
            e = concat (upto_quit (client_messages bufsize (stdin w1))))"
        proof (cases "\<exists>c s. r3 = Done c \<and> c_str (blit 0 c (m @ NUL # NUL # drop (Suc (Suc (length m))) buf)) = Some s")
          case True
          then obtain c s where c: "r3 = Done c" "c_str (blit 0 c (m @ NUL # NUL # drop (Suc (Suc (length m))) buf)) = Some s"
            by blast
          let ?b = "blit 0 c (m @ NUL # NUL # drop (Suc (Suc (length m))) buf)"
          define w4 where "w4 = print (''Server response: '' @ s @ [NL]) w3"
          have "loop ?b w4 = (r, w')"
            using less.prems(1) tr \<open>\<exists>n. r1 = Done n\<close> no rc c
            by (auto simp: loop_eq [of buf w] round Let_def print_response_def w4_def)
          moreover have "stdin w3 = stdin w2" using receive_stdin rc c by blast
          with in2 have in4: "stdin w4 = stdin w1" by (simp add: w4_def print_def)
          moreover from this have "length (stdin w4) < length (stdin w)"
            using False ne by (simp add: w1_def)
          moreover have "reliable w4"
            using reliable_later [OF rel later_trans [OF w2(2)]] law by (simp add: w4_def print_def later_def)
          moreover have "length (m @ NUL # NUL # drop (Suc (Suc (length m))) buf) = bufsize"
            using fits len less.prems(3) by simp
          then have "length ?b = bufsize" using law c(1) sizes by simp
          moreover have "NUL \<notin> set (stdin w4)"
            using less.prems(4) in4 by (auto simp: w1_def dest: in_set_dropD)
          ultimately show ?thesis
            using less.hyps [of w4 ?b] law by (simp add: in4) (simp add: w4_def print_def)
        next
          case nostr: False
          have "r \<noteq> Done () \<and> out w' = out w2"
            using less.prems(1) tr \<open>\<exists>n. r1 = Done n\<close> no rc nostr law
            by (cases r3) (auto simp: loop_eq [of buf w] round Let_def print_response_def split: option.splits)
          then show ?thesis by auto
        qed
        with w2 ms no show ?thesis by auto
      qed
    qed
  qed
qed

end

interpretation base_recv: receiver "base_recv n" n for n
  by unfold_locales (auto simp: base_recv_def base_recv_len_def sys_read_def Let_def later_def
      split: list.splits answer.splits)

lemma base_recv_stdin: "base_recv n w = (r, w') \<Longrightarrow> stdin w' = stdin w"
  by (auto simp: base_recv_def base_recv_len_def sys_read_def Let_def split: list.splits answer.splits)

lemma stdin_kept:
  "w' = w\<lparr>inp := inp w', answers := answers w', errno := errno w'\<rparr> \<Longrightarrow> stdin w' = stdin w"
  "w' = w\<lparr>out := x, answers := answers w', errno := errno w'\<rparr> \<Longrightarrow> stdin w' = stdin w"
  by (erule ssubst, simp)+

lemma log_send_stdin: "log_send data w = (Done n, w') \<Longrightarrow> stdin w' = stdin w"
  unfolding log_send_def by (drule send_retry_result) (simp, blast intro: stdin_kept)

lemma log_recv_stdin: "log_recv n w = (Done c, w') \<Longrightarrow> stdin w' = stdin w"
  unfolding log_recv_def by (drule recv_retry_result) (simp, blast intro: stdin_kept)

lemma mp_recv_stdin: "mp_recv n w = (Done c, w') \<Longrightarrow> stdin w' = stdin w"
  unfolding mp_recv_def by (drule recv_open_result) (simp, blast intro: stdin_kept)

lemma mp_send_stdin: "mp_send data w = (Done n, w') \<Longrightarrow> uninterrupted w \<Longrightarrow> stdin w' = stdin w"
  unfolding mp_send_def
proof -
  assume "send_all_eq1 ''Cannot write to socket'' data 0 (length data) w = (Done n, w')" "uninterrupted w"
  then have "write_all ''Cannot write to socket'' data 0 (length data) w = (Done n, w')"
    using send_all_eq1_write_all [of w 0 "length data" data] by (simp add: uninterrupted_def)
  from write_all_Done [OF this, simplified, THEN conjunct2, THEN conjunct2] show "stdin w' = stdin w" by (rule stdin_kept)
qed

interpretation mp_client: echo_client "mp_recv 1024" 1024 mp_send uninterrupted 1024 mp_client_loop 1024
  unfolding mp_recv_def mp_send_def
  by unfold_locales (use mp_send_stdin mp_recv_stdin in \<open>auto simp: mp_recv_def mp_send_def mp_client_loop.simps\<close>)

interpretation log_client: echo_client "log_recv 1024" 1024 log_send "full_sends 1024" 1024 log_client_loop 1024
  unfolding log_recv_def log_send_def
  by unfold_locales (use log_send_stdin log_recv_stdin in \<open>auto simp: log_recv_def log_send_def log_client_loop.simps\<close>)

interpretation base_client: echo_client "base_recv 1024" 1024 log_send "full_sends 1024" 1024 base_client_loop 1024
  unfolding log_send_def
  by unfold_locales (use log_send_stdin base_recv_stdin in \<open>auto simp: log_send_def base_client_loop.simps\<close>)

section \<open>The client with many threads\<close>

text \<open>
  \<open>connection_handler\<close> of \<open>echo_client_mt.c\<close>: \<open>rounds\<close> is the number of rounds that begin before
  the main thread sets \<open>should_stop\<close>.
\<close>

definition mt_message :: "nat \<Rightarrow> nat \<Rightarrow> string" where
  "mt_message thread_idx counter = ''[Thread '' @ show_nat thread_idx @ ''] message #'' @ show_nat counter"

function mt_client_loop :: "nat \<Rightarrow> nat \<Rightarrow> nat \<Rightarrow> io \<Rightarrow> unit result" where
  "mt_client_loop thread_idx counter rounds w =
     (let msg = (if rounds = 0 then SERVER_COMMAND else mt_message thread_idx (counter + 1)) in
      andthen (mp_send msg w) (\<lambda>_ w.
      if msg = SERVER_COMMAND then (Done (), w)
      else andthen (mp_recv DEFAULT_BUFFER_SIZE w) (\<lambda>_ w. mt_client_loop thread_idx (counter + 1) (rounds - 1) w)))"
  by pat_completeness auto
termination
proof (relation "measure (\<lambda>(i, k, n, w). length (answers w))", goal_cases)
  case (2 i k n w msg m w1 c w2)
  from 2(2) have "length (answers w1) \<le> length (answers w)" by (rule mp_calls_answers)
  moreover from 2(4) have "length (answers w2) < length (answers w1)" by (rule mp_calls_answers)
  ultimately show ?case by simp
qed simp

declare mt_client_loop.simps [simp del]

definition mt_client_handler :: "nat \<Rightarrow> int list \<Rightarrow> nat \<Rightarrow> io \<Rightarrow> unit result" where
  "mt_client_handler thread_idx rets rounds w = (case run_checks client_checks rets of
      Startup_exit msg \<Rightarrow> error_exit msg w | Startup_pending \<Rightarrow> (Blocked, w)
    | Startup_done _ \<Rightarrow>
        andthen (mp_recv (DEFAULT_BUFFER_SIZE - 1) w) (\<lambda>_ w.
        andthen (mt_client_loop thread_idx 0 rounds w) (\<lambda>_ w.
        close_or_exit ''socket_desc'' ''Cannot close socket'' w)))"

text \<open>
  \<open>main\<close>: the threads are created; a line from the terminal stops them, and they are joined.
\<close>

definition THREAD_COUNT :: nat where "THREAD_COUNT = 10"

definition mt_client_main :: "int list \<Rightarrow> io \<Rightarrow> unit result" where
  "mt_client_main rets w =
     (case run_checks (replicate THREAD_COUNT (PTHREAD_ERROR_HELPER ''Error creating a new thread'')) rets of
        Startup_exit msg \<Rightarrow> error_exit msg w | Startup_pending \<Rightarrow> (Blocked, w)
      | Startup_done _ \<Rightarrow> (case fgets DEFAULT_BUFFER_SIZE w of
          (None, w) \<Rightarrow> error_exit ''Error while reading from stdin, exiting...'' w
        | (Some line, w) \<Rightarrow> (Exit 0, w)))"

lemma mt_message_not_quit [simp]: "mt_message i k \<noteq> SERVER_COMMAND" "SERVER_COMMAND \<noteq> mt_message i k"
  by (simp_all add: mt_message_def SERVER_COMMAND_def)

lemma length_mt_message:
  assumes "i < 10 ^ 10" and "k < 10 ^ 10"
  shows "length (mt_message i k) \<le> 39"
  using length_show_nat [OF assms(1)] length_show_nat [OF assms(2)] by (simp add: mt_message_def)

lemma mt_client_loop_sends:
  assumes "mt_client_loop i k n w = (r, w')" and "uninterrupted w" and "i < 10 ^ 10" and "k + n < 10 ^ 10"
  shows "\<exists>e. out w' = out w @ e \<and> prefix e (concat (map (mt_message i) [Suc k ..< Suc (k + n)]) @ SERVER_COMMAND) \<and>
    (r = Done () \<longrightarrow> e = concat (map (mt_message i) [Suc k ..< Suc (k + n)]) @ SERVER_COMMAND)"
  using assms
proof (induction n arbitrary: k w)
  case 0
  obtain r1 w1 where tr: "mp_send SERVER_COMMAND w = (r1, w1)" by fastforce
  from mp_client.transmit_law [OF tr 0(2)] have "\<exists>e. out w1 = out w @ e \<and> prefix e SERVER_COMMAND \<and> (\<forall>n. r1 = Done n \<longrightarrow> e = SERVER_COMMAND)"
    by (simp add: SERVER_COMMAND_def)
  moreover from 0(1) tr have "w' = w1 \<and> (r = Done () \<longrightarrow> (\<exists>n. r1 = Done n))"
    by (cases r1) (auto simp: mt_client_loop.simps [of i k 0 w])
  ultimately show ?case by auto
next
  case (Suc n)
  let ?m = "mt_message i (Suc k)"
  let ?rest = "concat (map (mt_message i) [Suc (Suc k) ..< Suc (Suc k + n)]) @ SERVER_COMMAND"
  have all: "concat (map (mt_message i) [Suc k ..< Suc (k + Suc n)]) @ SERVER_COMMAND = ?m @ ?rest"
    by (simp add: upt_conv_Cons del: upt_Suc)
  obtain r1 w1 where tr: "mp_send ?m w = (r1, w1)" by fastforce
  have "length ?m \<le> 1024" using length_mt_message [of i "Suc k"] Suc.prems by simp
  note tlaw = mp_client.transmit_law [OF tr Suc.prems(2) this]
  show ?case
  proof (cases "\<exists>m. r1 = Done m")
    case True
    with tlaw have w1: "out w1 = out w @ ?m" "later w w1" by auto
    obtain r2 w2 where rc: "mp_recv DEFAULT_BUFFER_SIZE w1 = (r2, w2)" by fastforce
    note law = mp_client.receive_law [OF rc [unfolded DEFAULT_BUFFER_SIZE_def]]
    have "\<exists>e. out w' = out w1 @ e \<and> prefix e ?rest \<and> (r = Done () \<longrightarrow> e = ?rest)"
    proof (cases "\<exists>c. r2 = Done c")
      case True
      with Suc.prems(1) tr rc \<open>\<exists>m. r1 = Done m\<close> have "mt_client_loop i (Suc k) n w2 = (r, w')"
        by (auto simp: mt_client_loop.simps [of i k "Suc n" w] Let_def)
      moreover have "uninterrupted w2"
        using mp_client.reliable_later [OF Suc.prems(2) later_trans [OF w1(2)]] law by blast
      ultimately show ?thesis using Suc.IH [of "Suc k" w2] Suc.prems law by simp
    next
      case False
      with Suc.prems(1) tr rc \<open>\<exists>m. r1 = Done m\<close> law have "out w' = out w1 \<and> r \<noteq> Done ()"
        by (cases r2) (auto simp: mt_client_loop.simps [of i k "Suc n" w] Let_def)
      then show ?thesis by auto
    qed
    with w1 show ?thesis unfolding all by auto
  next
    case False
    with Suc.prems(1) tr tlaw have "w' = w1 \<and> r \<noteq> Done ()"
      by (cases r1) (auto simp: mt_client_loop.simps [of i k "Suc n" w] Let_def)
    with tlaw show ?thesis unfolding all by (auto intro: prefix_prefix)
  qed
qed

section \<open>Properties\<close>


text \<open>A user who types the given lines, and whose messages all come back in one piece.\<close>

definition typed :: "byte list list \<Rightarrow> byte list" where
  "typed ms = concat (map (\<lambda>m. m @ [NL]) (ms @ [SERVER_COMMAND]))"

definition echo_turns :: "byte list list \<Rightarrow> answer list" where
  "echo_turns ms = concat (map (\<lambda>m. [Xfer 0 1023, Xfer (length m - 1) 0]) ms) @ [Xfer 0 1023]"

definition transcript :: "byte list list \<Rightarrow> string list" where
  "transcript ms = concat (map (\<lambda>m. [''Insert your message: '', ''Server response: '' @ m @ [NL]]) ms)
     @ [''Insert your message: '']"

definition blank :: "byte list" where "blank = replicate 1024 NUL"

lemma length_blank [simp]: "length blank = 1024" by (simp add: blank_def)

definition client_io :: "byte list list \<Rightarrow> byte list \<Rightarrow> answer list \<Rightarrow> io" where
  "client_io ms input ans = (fresh_io input ans)\<lparr>stdin := typed ms\<rparr>"


text \<open>The response printed is what was received, then what is left of the message sent.\<close>

lemma c_str_blit:
  assumes "NUL \<notin> set c" and "NUL \<notin> set m" and "length c \<le> length m"
  shows "c_str (blit 0 c (m @ NUL # rest)) = Some (c @ drop (length c) m)"
proof -
  have "blit 0 c (m @ NUL # rest) = (c @ drop (length c) m) @ NUL # rest" using assms(3) by (simp add: blit_def)
  moreover have "NUL \<notin> set (c @ drop (length c) m)" using assms by (auto dest: in_set_dropD)
  ultimately show ?thesis using c_str_terminated by metis
qed

text \<open>One round of a client when \<open>c\<close> is received after the message \<open>m\<close> has been sent.\<close>

lemma client_round_reply:
  assumes "stdin w = m @ NL # rest" and "NUL \<notin> set (stdin w)" and "NL \<notin> set m" and "length m + 2 \<le> length buf"
    and "m \<noteq> SERVER_COMMAND" and "NUL \<notin> set c" and "length c \<le> length m"
    and "send m (w\<lparr>stdout := stdout w @ [''Insert your message: ''], stdin := rest\<rparr>) = (Done n, w1)"
    and "recv w1 = (Done c, w2)"
  shows "\<exists>b. length b = length buf \<and> client_round send recv buf w = (Done (Some b),
    print (''Server response: '' @ (c @ drop (length c) m) @ [NL]) w2)"
proof -
  let ?b = "blit 0 c (m @ NUL # NUL # drop (Suc (Suc (length m))) buf)"
  have fl: "first_line (length buf) (stdin w) = m @ [NL]" using assms first_line_line by simp
  have "client_round send recv buf w =
     andthen (send m (w\<lparr>stdout := stdout w @ [''Insert your message: ''], stdin := rest\<rparr>))
     (\<lambda>_ w. if m = SERVER_COMMAND then (Done None, w)
       else andthen (recv w) (\<lambda>c w. let buf = blit 0 c (m @ NUL # NUL # drop (Suc (Suc (length m))) buf) in
         andthen (print_response buf w) (\<lambda>_ w. (Done (Some buf), w))))"
    using client_round_line [OF _ assms(2) _ fl [symmetric], of m send recv] assms(1,4) by simp
  moreover have "c_str ?b = Some (c @ drop (length c) m)"
    by (rule c_str_blit) (use assms in auto)
  ultimately have "client_round send recv buf w = (Done (Some ?b),
      print (''Server response: '' @ (c @ drop (length c) m) @ [NL]) w2)"
    using assms by (simp add: print_response_def)
  moreover have "length ?b = length buf" using assms(4,7) by (simp add: blit_def)
  ultimately show ?thesis by blast
qed

lemma mp_client_message:
  assumes "stdin w = m @ NL # rest" and "NUL \<notin> set (stdin w)" and "NL \<notin> set m" and "m \<noteq> []" and "length m \<le> 1022"
    and "m \<noteq> SERVER_COMMAND" and "length buf = 1024" and "errno w \<noteq> EINTR"
    and "inp w = m @ others" and "answers w = Xfer u 1023 # Xfer (length m - 1) v # xs"
  shows "\<exists>b. length b = 1024 \<and> mp_client_loop buf w = mp_client_loop b (w\<lparr>stdin := rest, out := out w @ m, answers := xs, inp := others,
    stdout := stdout w @ [''Insert your message: '', ''Server response: '' @ m @ [NL]]\<rparr>)"
proof -
  define w0 where "w0 = w\<lparr>stdout := stdout w @ [''Insert your message: ''], stdin := rest\<rparr>"
  define w1 where "w1 = w0\<lparr>answers := Xfer (length m - 1) v # xs, out := out w @ m\<rparr>"
  define w2 where "w2 = w1\<lparr>answers := xs, inp := others\<rparr>"
  have "mp_send m w0 = (Done (length m), w1)"
    using assms send_all_eq1_step(3) [of "length m" 0 m w0 u 1023 "Xfer (length m - 1) v # xs"]
    by (simp add: mp_send_def w0_def w1_def min_def)
  moreover have "mp_recv 1024 w1 = (Done m, w2)"
    using assms by (simp add: mp_recv_def recv_open_step(4) w0_def w1_def w2_def min_def)
  ultimately obtain b where "length b = 1024" "client_round mp_send (mp_recv 1024) buf w =
      (Done (Some b), print (''Server response: '' @ m @ [NL]) w2)"
    using client_round_reply [of w m rest buf m mp_send "length m" w1 "mp_recv 1024" w2] assms
    by (auto simp: w0_def)
  then show ?thesis
    by (intro exI [of _ b]) (simp add: mp_client_loop.simps [of buf w] print_def w2_def w1_def w0_def)
qed

lemma mp_client_quit:
  assumes "stdin w = SERVER_COMMAND @ NL # rest" and "NUL \<notin> set (stdin w)" and "length buf = 1024" and "errno w \<noteq> EINTR"
    and "answers w = Xfer u 1023 # xs"
  shows "mp_client_loop buf w = (Done (), w\<lparr>stdout := stdout w @ [''Insert your message: ''], stdin := rest, answers := xs,
    out := out w @ SERVER_COMMAND\<rparr>)"
proof -
  have "NL \<notin> set SERVER_COMMAND" "length SERVER_COMMAND = 4" by (simp_all add: SERVER_COMMAND_def NL_def)
  then have fl: "first_line (length buf) (stdin w) = SERVER_COMMAND @ [NL]"
    using assms(1,3) by (simp add: first_line_line)
  have "mp_send SERVER_COMMAND (w\<lparr>stdout := stdout w @ [''Insert your message: ''], stdin := rest\<rparr>) =
      (Done 4, w\<lparr>stdout := stdout w @ [''Insert your message: ''], stdin := rest, answers := xs, out := out w @ SERVER_COMMAND\<rparr>)"
    using assms send_all_eq1_step(3) [of 4 0 SERVER_COMMAND
        "w\<lparr>stdout := stdout w @ [''Insert your message: ''], stdin := rest\<rparr>" u 1023 xs] \<open>length SERVER_COMMAND = 4\<close>
    by (simp add: mp_send_def)
  then show ?thesis
    using client_round_line [OF _ assms(2) _ fl [symmetric], of SERVER_COMMAND mp_send "mp_recv 1024"] assms(1,3)
    by (simp add: mp_client_loop.simps [of buf w])
qed

text \<open>
  The client of lab11: if every message is sent by one call and comes back in one piece,
  the client prints every message as the server's response, although it never terminates what
  it receives: the terminator of the message sent, which has the same length, is still there.
\<close>

lemma mp_client_talks:
  assumes "\<forall>m\<in>set ms. m \<noteq> SERVER_COMMAND \<and> m \<noteq> [] \<and> length m \<le> 1022 \<and> NL \<notin> set m \<and> NUL \<notin> set m"
    and "length buf = 1024" and "errno w \<noteq> EINTR"
    and "stdin w = typed ms" and "inp w = concat ms @ others" and "answers w = echo_turns ms @ xs"
  shows "\<exists>w'. mp_client_loop buf w = (Done (), w') \<and> out w' = out w @ concat ms @ SERVER_COMMAND \<and>
    stdout w' = stdout w @ transcript ms \<and> stdin w' = [] \<and> inp w' = others \<and> answers w' = xs"
  using assms
proof (induction ms arbitrary: w buf)
  case Nil
  have "NUL \<notin> set (typed [])" by (simp add: typed_def NUL_def NL_def SERVER_COMMAND_def)
  with Nil mp_client_quit [of w "[]" buf 0 xs] show ?case by (simp add: typed_def echo_turns_def transcript_def)
next
  case (Cons m ms)
  have "NUL \<noteq> NL" by (simp add: NUL_def NL_def)
  moreover have "NUL \<notin> set SERVER_COMMAND" by (simp add: NUL_def SERVER_COMMAND_def)
  ultimately have nul: "NUL \<notin> set (m @ NL # typed ms)" using Cons.prems(1) by (auto simp: typed_def)
  have st: "stdin w = m @ NL # typed ms" using Cons.prems(4) by (simp add: typed_def)
  obtain b where b: "length b = 1024" "mp_client_loop buf w = mp_client_loop b (w\<lparr>stdin := typed ms, out := out w @ m,
      answers := echo_turns ms @ xs, inp := concat ms @ others,
      stdout := stdout w @ [''Insert your message: '', ''Server response: '' @ m @ [NL]]\<rparr>)"
    using mp_client_message [of w m "typed ms" buf "concat ms @ others" 0 0 "echo_turns ms @ xs"] Cons.prems(1-3,5,6) nul st
    by (auto simp: echo_turns_def)
  with Cons.prems Cons.IH [of b "w\<lparr>stdin := typed ms, out := out w @ m,
      answers := echo_turns ms @ xs, inp := concat ms @ others,
      stdout := stdout w @ [''Insert your message: '', ''Server response: '' @ m @ [NL]]\<rparr>"]
  show ?case by (simp add: transcript_def)
qed

text \<open>
  C36: the client of lab08: when \<open>recv\<close> fails, or the server has closed the connection, the
  client does not notice it: it prints the user's own message as the response of the server.
\<close>

theorem base_client_answers_itself:
  assumes "stdin w = m @ NL # rest" and "NUL \<notin> set (stdin w)" and "NL \<notin> set m" and "m \<noteq> []" and "length m \<le> 1022"
    and "m \<noteq> SERVER_COMMAND" and "length buf = 1024"
    and "answers w = Xfer u 1023 # a # xs" and "(\<exists>e. a = Err e) \<or> inp w = []"
  shows "\<exists>b w'. base_client_loop buf w = base_client_loop b w' \<and> length b = 1024 \<and> stdin w' = rest \<and>
    out w' = out w @ m \<and> answers w' = xs \<and>
    stdout w' = stdout w @ [''Insert your message: '', ''Server response: '' @ m @ [NL]]"
proof -
  define w0 where "w0 = w\<lparr>stdout := stdout w @ [''Insert your message: ''], stdin := rest\<rparr>"
  define w1 where "w1 = w0\<lparr>answers := a # xs, out := out w @ m\<rparr>"
  obtain w2 where w2: "base_recv 1024 w1 = (Done [], w2)" "stdin w2 = rest" "out w2 = out w @ m" "answers w2 = xs"
    "stdout w2 = stdout w @ [''Insert your message: '']"
    using assms(9) by (cases a) (auto simp: base_recv_def base_recv_len_def sys_read_def w1_def w0_def)
  have "log_send m w0 = (Done (length m), w1)"
    using assms by (simp add: log_send_def send_retry_step(4) w0_def w1_def min_def)
  then obtain b where "length b = 1024" "client_round log_send (base_recv 1024) buf w =
      (Done (Some b), print (''Server response: '' @ m @ [NL]) w2)"
    using client_round_reply [of w m rest buf "[]" log_send "length m" w1 "base_recv 1024" w2] assms w2
    by (auto simp: w0_def)
  with w2 show ?thesis
    by (intro exI [of _ b] exI [of _ "print (''Server response: '' @ m @ [NL]) w2"])
      (simp add: base_client_loop.simps [of buf w] print_def)
qed

theorem base_client_answers_itself_witness:
  "\<exists>b w'. base_client_loop blank (client_io [''hi''] [] [Xfer 0 1023, Xfer 0 0]) = base_client_loop b w' \<and>
    stdout w' = [''Insert your message: '', ''Server response: hi'' @ [NL]]"
  using base_client_answers_itself [of "client_io [''hi''] [] [Xfer 0 1023, Xfer 0 0]" "''hi''" "SERVER_COMMAND @ [NL]"
      blank 0 "Xfer 0 0" "[]"]
  by (auto simp: client_io_def typed_def fresh_io_def SERVER_COMMAND_def NUL_def NL_def)

text \<open>
  A thread of \<open>echo_client_mt.c\<close>, uninterrupted, sends its numbered messages in order and
  then \<open>QUIT\<close>; whatever the server answers, what has been sent is an initial part of this.
\<close>

theorem mt_client_sends:
  assumes "mt_client_loop thread_idx 0 rounds w = (r, w')" and "uninterrupted w"
    and "thread_idx < 10 ^ 10" and "rounds < 10 ^ 10"
  shows "\<exists>e. out w' = out w @ e \<and>
    prefix e (concat (map (mt_message thread_idx) [1 ..< Suc rounds]) @ SERVER_COMMAND) \<and>
    (r = Done () \<longrightarrow> e = concat (map (mt_message thread_idx) [1 ..< Suc rounds]) @ SERVER_COMMAND)"
  using mt_client_loop_sends [OF assms(1-3)] assms(4) by simp

theorem mt_client_sends_witness:
  "\<exists>w'. mt_client_loop 7 0 1 (fresh_io ''pong'' [Xfer 0 1023, Xfer 3 0, Xfer 0 1023]) = (Done (), w') \<and>
    out w' = mt_message 7 1 @ SERVER_COMMAND"
proof -
  let ?w = "fresh_io ''pong'' [Xfer 0 1023, Xfer 3 0, Xfer 0 1023]"
  have "fst (mt_client_loop 7 0 1 ?w) = Done ()" by code_simp
  then obtain w' where run: "mt_client_loop 7 0 1 ?w = (Done (), w')" by (metis prod.collapse)
  moreover have "uninterrupted ?w" by (simp add: uninterrupted_def fresh_io_def)
  ultimately show ?thesis using mt_client_sends [OF run] by (simp add: fresh_io_def)
qed

end
