(* ===== verification/Time_Server.thy ===== *)
theory Time_Server
  imports Echo_Clients
begin

text \<open>
  \<open>lab06-cpoy+timeserver/time_server\<close>: a server that answers one request per connection with the
  time (\<open>server.c\<close>), and its client (\<open>client.c\<close>). What \<open>ctime\<close> returns is a parameter.
\<close>

section \<open>The server\<close>

definition TIME_COMMAND :: string where "TIME_COMMAND = ''TIME''"

definition time_reply :: "string \<Rightarrow> byte list \<Rightarrow> string" where
  "time_reply now request = (if request = TIME_COMMAND then now else ''INVALID REQUEST'')"

definition time_connection_handler :: "string \<Rightarrow> io \<Rightarrow> unit result" where
  "time_connection_handler now w =
     andthen (recv_retry ''Cannot write to socket'' 256 w) (\<lambda>recv_buf w.
     let w = eprint (''Message of '' @ show_nat (length recv_buf) @ '' bytes received'' @ [NL]) w;
         send_buf = time_reply now recv_buf in
     andthen (send_retry ''Cannot write to the socket'' send_buf w) (\<lambda>ret w.
     let w = eprint (''Message of '' @ show_nat ret @ '' bytes sent'' @ [NL]) w in
     close_or_exit ''socket_desc'' ''Cannot close socket for incoming connection'' w))"

text \<open>
  The loop of \<open>main\<close> serves one connection after the other. The outcomes of \<open>accept\<close> are given:
  \<open>None\<close> where it fails, otherwise what the client of the connection sends, and the time. The
  result has what has been sent over each connection.
\<close>

fun time_loop :: "(byte list \<times> string) option list \<Rightarrow> io \<Rightarrow> byte list list \<times> unit result" where
  "time_loop [] w = ([], (Blocked, w))"
| "time_loop (None # cs) w = ([], error_exit ''Cannot open socket for incoming connection'' w)"
| "time_loop (Some (request, now) # cs) w =
     (case time_connection_handler now (eprint (''Incoming connection accepted...'' @ [NL]) (w\<lparr>inp := request, out := []\<rparr>)) of
       (Done u, w') \<Rightarrow> (case time_loop cs (eprint (''Done!'' @ [NL]) w') of (sent, r) \<Rightarrow> (out w' # sent, r))
     | (r, w') \<Rightarrow> ([out w'], (r, w')))"

definition time_checks :: "check list" where
  "time_checks = [ERROR_HELPER ''Could not create socket'', ERROR_HELPER ''Cannot set SO_REUSEADDR option'',
     ERROR_HELPER ''Cannot bind address to socket'', ERROR_HELPER ''Cannot listen on socket'']"

definition time_main :: "int list \<Rightarrow> (byte list \<times> string) option list \<Rightarrow> io \<Rightarrow> byte list list \<times> unit result" where
  "time_main rets conns w = (case run_checks time_checks rets of
      Startup_exit msg \<Rightarrow> ([], error_exit msg w) | Startup_pending \<Rightarrow> ([], (Blocked, w))
    | Startup_done _ \<Rightarrow> time_loop conns w)"

section \<open>The client\<close>

definition time_client_main :: "int list \<Rightarrow> io \<Rightarrow> unit result" where
  "time_client_main rets w = (case run_checks client_checks rets of
      Startup_exit msg \<Rightarrow> error_exit msg w | Startup_pending \<Rightarrow> (Blocked, w)
    | Startup_done _ \<Rightarrow>
        andthen (send_retry ''Cannot write to socket'' TIME_COMMAND (eprint (''Connection established!'' @ [NL]) w)) (\<lambda>ret w.
        let w = eprint (''Message of '' @ show_nat ret @ '' bytes sent'' @ [NL]) w in
        andthen (recv_retry ''Cannot write to socket'' (256 - 1) w) (\<lambda>recv_buf w.
        let w = eprint (''Message of '' @ show_nat (length recv_buf) @ '' bytes received'' @ [NL]) w in
        andthen (close_or_exit ''socket_desc'' ''Cannot close socket'' w) (\<lambda>_ w.
        (Exit 0, eprint (''Exiting...'' @ [NL])
          (print (''Answer from server: '' @ takeWhile (\<lambda>c. c \<noteq> NUL) recv_buf) w))))))"

section \<open>Properties\<close>

lemma eprint_simps [simp]: "inp (eprint m w) = inp w" "out (eprint m w) = out w" "answers (eprint m w) = answers w"
  "errno (eprint m w) = errno w" "later (eprint m w) w' = later w w'" "later w' (eprint m w) = later w' w"
  "full_sends n (eprint m w) = full_sends n w" "stdout (eprint m w) = stdout w"
  by (simp_all add: eprint_def later_def full_sends_def)

text \<open>
  \<open>ctime\<close> gives 25 characters and the terminator: nothing is sent but an initial part of the reply
  to what was received by one call, and all of it where the handler returns.
\<close>

lemma handler_spec:
  assumes "time_connection_handler now w = (r, w')" and "full_sends 256 w" and "length now \<le> 25"
  shows "later w w' \<and> (\<exists>c q. prefix c (inp w) \<and> length c \<le> 256 \<and> out w' = out w @ q \<and> prefix q (time_reply now c) \<and>
    (r = Done () \<longrightarrow> q = time_reply now c)) \<and> (\<forall>n. r = Exit n \<longrightarrow> n = 1)"
proof -
  obtain r1 w1 where rc: "recv_retry ''Cannot write to socket'' 256 w = (r1, w1)" by fastforce
  note law = recv_retry.receive_law [OF rc]
  show ?thesis
  proof (cases "\<exists>c. r1 = Done c")
    case True
    then obtain c where c: "r1 = Done c" by blast
    with law have w1: "inp w = c @ inp w1" "length c \<le> 256" "later w w1" "out w1 = out w" by auto
    define v where "v = eprint (''Message of '' @ show_nat (length c) @ '' bytes received'' @ [NL]) w1"
    obtain r2 w2 where tr: "send_retry ''Cannot write to the socket'' (time_reply now c) v = (r2, w2)" by fastforce
    have "full_sends 256 v" using assms(2) w1(3) by (simp add: v_def send_retry.reliable_later)
    moreover have "length (time_reply now c) \<le> 256" using assms(3) by (simp add: time_reply_def)
    ultimately have tlaw: "later v w2 \<and> inp w2 = inp v \<and> r2 \<noteq> Undefined \<and> (\<forall>n. r2 = Exit n \<longrightarrow> n = 1) \<and>
      (\<exists>e. out w2 = out v @ e \<and> prefix e (time_reply now c) \<and> (\<forall>n. r2 = Done n \<longrightarrow> e = time_reply now c))"
      using send_retry.transmit_law [OF tr] by blast
    have l2: "later w w2" using w1(3) tlaw by (auto simp: v_def intro: later_trans)
    show ?thesis
    proof (cases "\<exists>n. r2 = Done n")
      case True
      then obtain n where n: "r2 = Done n" by blast
      have "close_or_exit ''socket_desc'' ''Cannot close socket for incoming connection''
          (eprint (''Message of '' @ show_nat n @ '' bytes sent'' @ [NL]) w2) = (r, w')"
        using assms(1) rc c tr n by (simp add: time_connection_handler_def v_def Let_def)
      from off_stream_exit(1) [OF this] have "later w2 w'" "out w' = out w2" "\<forall>n. r = Exit n \<longrightarrow> n = 1"
        by (auto simp: off_stream_def)
      moreover from n tlaw have "out w2 = out w @ time_reply now c" using w1(4) by (auto simp: v_def)
      moreover have "prefix c (inp w)" using w1(1) by simp
      ultimately show ?thesis using w1(2) l2
        by (intro conjI exI [of _ c] exI [of _ "time_reply now c"]) (auto intro: later_trans)
    next
      case False
      with assms(1) rc c tr have "w' = w2" "r \<noteq> Done ()" "\<forall>n. r = Exit n \<longrightarrow> r2 = Exit n"
        by (cases r2; auto simp: time_connection_handler_def v_def Let_def)+
      moreover from tlaw obtain e where "out w2 = out w @ e" "prefix e (time_reply now c)" using w1(4) by (auto simp: v_def)
      moreover have "prefix c (inp w)" using w1(1) by simp
      ultimately show ?thesis using w1(2) l2 tlaw by (intro conjI exI [of _ c] exI [of _ e]) auto
    qed
  next
    case False
    with assms(1) rc have "w' = w1" "r \<noteq> Done ()" "\<forall>n. r = Exit n \<longrightarrow> r1 = Exit n"
      by (cases r1; auto simp: time_connection_handler_def)+
    with law False show ?thesis by (cases r1) (auto intro!: exI [of _ "[]"])
  qed
qed

lemma time_loop_spec:
  assumes "time_loop conns w = (sent, r)" and "full_sends 256 w"
    and "\<forall>request now. Some (request, now) \<in> set conns \<longrightarrow> length now \<le> 25"
  shows "length sent \<le> length conns \<and> fst r \<noteq> Done () \<and> (\<forall>i < length sent. \<exists>request now c. conns ! i = Some (request, now) \<and>
    prefix c request \<and> prefix (sent ! i) (time_reply now c) \<and> (Suc i < length sent \<longrightarrow> sent ! i = time_reply now c))"
  using assms
proof (induction conns w arbitrary: sent rule: time_loop.induct)
  case (3 request now cs w)
  let ?v = "eprint (''Incoming connection accepted...'' @ [NL]) (w\<lparr>inp := request, out := []\<rparr>)"
  obtain r1 w1 where h: "time_connection_handler now ?v = (r1, w1)" by fastforce
  have "full_sends 256 ?v" "length now \<le> 25" using 3(3,4) by (auto simp: full_sends_def eprint_def)
  from handler_spec [OF h this] obtain c where c: "later ?v w1" "prefix c request" "prefix (out w1) (time_reply now c)"
    "r1 = Done () \<longrightarrow> out w1 = time_reply now c" by auto
  show ?case
  proof (cases "r1 = Done ()")
    case True
    obtain rest r' where t: "time_loop cs (eprint (''Done!'' @ [NL]) w1) = (rest, r')"
      by (cases "time_loop cs (eprint (''Done!'' @ [NL]) w1)")
    with 3(2) h True have s: "sent = out w1 # rest" "r = r'" by simp_all
    have full: "full_sends 256 (eprint (''Done!'' @ [NL]) w1)"
      using send_retry.reliable_later [OF _ c(1), of 256] \<open>full_sends 256 ?v\<close> by simp
    have "\<forall>request now. Some (request, now) \<in> set cs \<longrightarrow> length now \<le> 25" using 3(4) by simp
    from 3(1) [OF h [symmetric] True t [folded s(2)] full this]
    show ?thesis using c True s by (auto simp: nth_Cons split: nat.splits)
  next
    case False
    with 3(2) h have "sent = [out w1]" "r = (r1, w1)" by (cases r1; simp)+
    with c False show ?thesis by auto
  qed
qed (auto simp: error_exit_def)



text \<open>
  The time server and its client: when the command and the reply are each moved in one piece,
  what the client sends is what the server receives and the other way round, and the client
  prints the time and exits with status 0.
\<close>

theorem time_exchange:
  assumes "length now \<le> 25" and "now \<noteq> []" and "NUL \<notin> set now"
    and "s = fresh_io to_server [Xfer 3 0, Xfer 0 255, Xfer 0 0]"
    and "c = fresh_io to_client [Xfer 0 255, Xfer (length now - 1) 0, Xfer 0 0]"
    and "to_server = TIME_COMMAND" and "to_client = now"
  shows "\<exists>s' c'. time_connection_handler now s = (Done (), s') \<and> time_client_main [3, 0] c = (Exit 0, c') \<and>
    out s' = to_client \<and> out c' = to_server \<and> stdout c' = [''Answer from server: '' @ now]"
proof -
  have "takeWhile (\<lambda>c. c \<noteq> NUL) now = now" using assms(3) by (auto simp: takeWhile_eq_all_conv)
  moreover have "min 255 (length now) = length now" "Suc (length now - 1) = length now"
    using assms(1,2) by (cases now; simp)+
  moreover have "min 256 4 = (4 :: nat)" by simp
  ultimately show ?thesis using assms
    by (auto simp: time_connection_handler_def time_client_main_def client_checks_def fresh_io_def time_reply_def
        recv_retry_step(4) send_retry_step(4) TIME_COMMAND_def Let_def close_or_exit_def sys_close_def error_helper_def
        eprint_def print_def simp del: takeWhile_eq_all_conv)
qed

theorem time_exchange_witness:
  "\<exists>s' c'. time_connection_handler ''noon'' (fresh_io ''TIME'' [Xfer 3 0, Xfer 0 255, Xfer 0 0]) = (Done (), s') \<and>
    time_client_main [3, 0] (fresh_io ''noon'' [Xfer 0 255, Xfer (length ''noon'' - 1) 0, Xfer 0 0]) = (Exit 0, c') \<and>
    out s' = ''noon'' \<and> out c' = ''TIME'' \<and> stdout c' = [''Answer from server: '' @ ''noon'']"
  by (rule time_exchange [OF _ _ _ refl refl, of "''noon''" "''TIME''" "''noon''"])
    (simp_all add: TIME_COMMAND_def NUL_def)

end
