(* ===== verification/Echo_Fifo.thy ===== *)
theory Echo_Fifo
  imports Echo_Clients
begin

text \<open>
  \<open>lab09-fifo-logger/EchoFIFO\<close>: the echo process (\<open>echo.c\<close>) and its client (\<open>client.c\<close>) over two
  FIFOs. The echo process is another implementation of \<open>echo_service\<close>, with the loop that writes
  everything, so that no assumption on the kernel is left.
\<close>

section \<open>Opening the FIFOs\<close>

text \<open>
  Opening a FIFO blocks until another process opens it in the other direction. Two processes
  that open FIFOs in the given orders get through only if their calls meet one by one.
\<close>

datatype fifo_mode = O_RDONLY | O_WRONLY

fun both_open :: "(string \<times> fifo_mode) list \<Rightarrow> (string \<times> fifo_mode) list \<Rightarrow> bool" where
  "both_open [] ys \<longleftrightarrow> ys = []"
| "both_open xs [] \<longleftrightarrow> xs = []"
| "both_open ((f, a) # xs) ((g, b) # ys) \<longleftrightarrow> f = g \<and> a \<noteq> b \<and> both_open xs ys"

definition echo_opens :: "(string \<times> fifo_mode) list" where
  "echo_opens = [(''fifo_echo'', O_WRONLY), (''fifo_client'', O_RDONLY)]"

definition fifo_client_opens :: "(string \<times> fifo_mode) list" where
  "fifo_client_opens = [(''fifo_echo'', O_RDONLY), (''fifo_client'', O_WRONLY)]"

lemma both_open_length: "both_open xs ys \<Longrightarrow> length xs = length ys \<and> map fst xs = map fst ys"
  by (induction xs ys rule: both_open.induct) auto

section \<open>The echo process\<close>

definition QUIT_COMMAND :: string where "QUIT_COMMAND = ''QUIT''"

definition cleanFIFOs :: "io \<Rightarrow> unit result" where
  "cleanFIFOs w =
     andthen (close_or_exit ''echo_fifo'' ''Cannot close Echo FIFO'' w) (\<lambda>_ w.
     andthen (close_or_exit ''client_fifo'' ''Cannot close Client FIFO'' w) (\<lambda>_ w.
     andthen (unlink_or_exit ''fifo_echo'' ''Cannot unlink Echo FIFO'' w) (\<lambda>_ w.
     unlink_or_exit ''fifo_client'' ''Cannot unlink Client FIFO'' w)))"

function fifo_read :: "io \<Rightarrow> byte list result" where
  "fifo_read w =
     andthen (sys_read 1023 w) (\<lambda>r w. case r of (bytes_read, c) \<Rightarrow>
       if bytes_read = 0 then
         andthen (cleanFIFOs (eprint ''Client process has closed the Client FIFO unexpectedly! Exiting...'' w))
           (\<lambda>_ w. (Exit 1, w))
       else if bytes_read < 0 then
         (if errno w = EINTR then fifo_read w else error_exit ''Cannot read from Client FIFO'' w)
       else (Done c, w))"
  by pat_completeness auto
termination
  by (relation "measure (\<lambda>w. length (answers w))") (auto dest: sys_read_Done)

definition fifo_write :: "byte list \<Rightarrow> io \<Rightarrow> nat result" where
  "fifo_write = (\<lambda>data. write_all ''Cannot write to Echo FIFO'' data 0 (length data))"

definition fifo_welcome :: string where
  "fifo_welcome = ''Hi! I'm an Echo process based on FIFOs.'' @ [NL] @ ''I will send you back through a FIFO whatever'' @
     '' you send me through the other FIFO, and I will stop and exit when you send me '' @ QUIT_COMMAND @ ''.'' @ [NL]"

text \<open>\<open>printf("Message received: %s\n", buf)\<close>, up to the first terminator.\<close>

definition print_received :: "byte list \<Rightarrow> io \<Rightarrow> io" where
  "print_received buf w = print (''Message received: '' @ takeWhile (\<lambda>c. c \<noteq> NUL) buf @ [NL]) w"

lemma off_stream_clean: "cleanFIFOs w = (r, w') \<Longrightarrow> off_stream r w w'"
  unfolding cleanFIFOs_def by (erule off_stream_andthen off_stream_exit)+

lemma cleanFIFOs_not_undefined: "fst (cleanFIFOs w) \<noteq> Undefined"
  by (auto simp: cleanFIFOs_def close_or_exit_def unlink_or_exit_def sys_close_def sys_unlink_def error_helper_def
      error_exit_def split: list.splits answer.splits)

lemma sys_read_law:
  "sys_read n w = (Done (r, c), w') \<Longrightarrow> inp w = c @ inp w' \<and> out w' = out w \<and> length c \<le> n \<and>
    length (answers w') < length (answers w) \<and> (r = -1 \<and> c = [] \<or> r = int (length c))"
  by (auto simp: sys_read_def Let_def split: list.splits answer.splits)

lemma fifo_read_result:
  "fifo_read w = (r, w') \<Longrightarrow> later w w' \<and> out w' = out w \<and>
    (case r of Done c \<Rightarrow> inp w = c @ inp w' \<and> c \<noteq> [] \<and> length c \<le> 1023 \<and> length (answers w') < length (answers w)
     | Exit e \<Rightarrow> e = 1 \<and> inp w' = inp w | Blocked \<Rightarrow> inp w' = inp w | Undefined \<Rightarrow> False)"
proof (induction w rule: fifo_read.induct)
  case (1 w)
  note run = "1.prems" [unfolded fifo_read.simps [of w]]
  obtain r1 w1 where rd: "sys_read 1023 w = (r1, w1)" by fastforce
  note l1 = later_sys(1) [OF rd]
  show ?case
  proof (cases r1)
    case (Done rc)
    obtain n c where rc: "rc = (n, c)" by fastforce
    note s = sys_read_law [OF rd [unfolded Done rc]]
    consider (closed) "n = 0" | (intr) "n < 0" "errno w1 = EINTR" | (fail) "n < 0" "errno w1 \<noteq> EINTR" | (ok) "0 < n"
      by linarith
    then show ?thesis
    proof cases
      case closed
      let ?v = "eprint ''Client process has closed the Client FIFO unexpectedly! Exiting...'' w1"
      have w1: "inp w1 = inp w" "out w1 = out w"
        using s closed by auto
      have "andthen (cleanFIFOs ?v) (\<lambda>_ w. (Exit 1, w)) = (r, w')" using run rd Done rc closed by simp
      moreover obtain r2 w2 where cl: "cleanFIFOs ?v = (r2, w2)" by fastforce
      ultimately have r: "w' = w2" "r = (case r2 of Done _ \<Rightarrow> Exit 1 | Exit e \<Rightarrow> Exit e | Blocked \<Rightarrow> Blocked | Undefined \<Rightarrow> Undefined)"
        by (cases r2; simp)+
      have "off_stream r2 ?v w2" by (rule off_stream_clean [OF cl])
      then have o: "later ?v w2" "inp w2 = inp w1" "out w2 = out w1" "\<forall>n. r2 = Exit n \<longrightarrow> n = 1"
        by (simp_all add: off_stream_def eprint_def)
      from o(1) have "later w1 w2" by (simp add: later_def eprint_def)
      with l1 have "later w w2" by (rule later_trans)
      moreover have "r2 \<noteq> Undefined" using cleanFIFOs_not_undefined [of ?v] cl by simp
      ultimately show ?thesis using r w1 o(2-4) by (cases r2) simp_all
    next
      case intr
      with s have "inp w1 = inp w" "out w1 = out w" by auto
      moreover from run rd Done rc intr have "fifo_read w1 = (r, w')" by simp
      moreover have "length (answers w1) < length (answers w)" using s by simp
      ultimately show ?thesis
        using "1.IH" [OF rd [unfolded Done] rc [symmetric]] intr l1 by (auto elim: later_trans split: outcome.splits)
    next
      case fail
      with s have "inp w1 = inp w" "out w1 = out w" by auto
      with run rd Done rc fail l1 show ?thesis by (auto simp: error_exit_def later_def)
    next
      case ok
      with s have "inp w = c @ inp w1" "out w1 = out w" "c \<noteq> []" "length c \<le> 1023"
        by auto
      moreover from run rd Done rc ok have "r = Done c" "w' = w1" by auto
      ultimately show ?thesis using s l1 by auto
    qed
  qed (use run rd l1 in \<open>auto simp: sys_read_def Let_def split: list.splits answer.splits\<close>)
qed

function fifo_echo_loop :: "io \<Rightarrow> unit result" where
  "fifo_echo_loop w =
     andthen (fifo_read w) (\<lambda>buf w.
     let w = print_received buf w in
     if buf = QUIT_COMMAND then (Done (), w)
     else andthen (fifo_write buf w) (\<lambda>_ w. fifo_echo_loop w))"
  by pat_completeness auto
termination
proof (relation "measure (\<lambda>w. length (answers w))", goal_cases)
  case (2 w buf w1 w2 m w3)
  from fifo_read_result [OF 2(1)] have "length (answers w1) < length (answers w)" by simp
  moreover from 2(4) have "length (answers w3) \<le> length (answers w2)"
    unfolding fifo_write_def by (rule answers_le)
  ultimately show ?case using 2(2) by (simp add: print_received_def print_def)
qed simp

declare fifo_read.simps [simp del] fifo_echo_loop.simps [simp del]

definition echo_checks :: "check list" where
  "echo_checks = [ERROR_HELPER ''Cannot create Echo FIFO'', ERROR_HELPER ''Cannot create Client FIFO'',
     ERROR_HELPER ''Cannot open Echo FIFO for writing'', ERROR_HELPER ''Cannot open Client FIFO for reading'']"

text \<open>From the welcome message to the end of the program.\<close>

definition fifo_echo :: "io \<Rightarrow> unit result" where
  "fifo_echo w = andthen (fifo_write fifo_welcome w) (\<lambda>_ w. andthen (fifo_echo_loop w) (\<lambda>_ w. cleanFIFOs w))"

definition fifo_echo_main :: "int list \<Rightarrow> io \<Rightarrow> unit result" where
  "fifo_echo_main rets w = (case run_checks echo_checks rets of
      Startup_exit msg \<Rightarrow> error_exit msg w | Startup_pending \<Rightarrow> (Blocked, w)
    | Startup_done _ \<Rightarrow> andthen (fifo_echo w) (\<lambda>_ w. (Exit 0, w)))"

interpretation fifo: echo_service fifo_read 1023 fifo_write "\<lambda>w. True" 1024 fifo_echo_loop
    "\<lambda>buf w. (Done (), print_received buf w)" QUIT_COMMAND
proof
  fix w r w'
  assume "fifo_read w = (r, w')"
  then show "later w w' \<and> out w' = out w \<and>
    (case r of Done c \<Rightarrow> inp w = c @ inp w' \<and> length c \<le> 1023 \<and> length (answers w') < length (answers w)
     | Exit e \<Rightarrow> e = 1 \<and> inp w' = inp w | Blocked \<Rightarrow> inp w' = inp w | Undefined \<Rightarrow> False)"
    by (drule_tac fifo_read_result) (simp split: outcome.splits)
next
  fix w show "fifo_echo_loop w = andthen (fifo_read w) (\<lambda>buf w. andthen (Done (), print_received buf w) (\<lambda>_ w.
      if buf = QUIT_COMMAND then (Done (), w) else andthen (fifo_write buf w) (\<lambda>_ w. fifo_echo_loop w)))"
    by (simp add: fifo_echo_loop.simps [of w] Let_def)
qed (use write_all_transmits in \<open>auto simp: fifo_write_def off_stream_def print_received_def print_def later_def\<close>)

lemma close_or_exit_Done: "close_or_exit fd msg w = (Done (), w') \<Longrightarrow>
    closed w' = closed w @ [fd] \<and> unlinked w' = unlinked w"
  by (auto simp: close_or_exit_def sys_close_def error_helper_def error_exit_def
      split: list.splits answer.splits if_splits)

lemma unlink_or_exit_Done: "unlink_or_exit name msg w = (Done (), w') \<Longrightarrow>
    closed w' = closed w \<and> unlinked w' = unlinked w @ [name]"
  by (auto simp: unlink_or_exit_def sys_unlink_def error_helper_def error_exit_def
      split: list.splits answer.splits if_splits)

lemma cleanFIFOs_Done:
  assumes "cleanFIFOs w = (Done (), w')"
  shows "closed w' = closed w @ [''echo_fifo'', ''client_fifo''] \<and>
    unlinked w' = unlinked w @ [''fifo_echo'', ''fifo_client'']"
  using assms by (auto simp: cleanFIFOs_def andthen_Done dest!: close_or_exit_Done unlink_or_exit_Done)

lemma fifo_read_keeps: "fifo_read w = (Done c, w') \<Longrightarrow> closed w' = closed w \<and> unlinked w' = unlinked w"
proof (induction w rule: fifo_read.induct)
  case (1 w)
  from "1.prems" obtain n d w1 where rd: "sys_read 1023 w = (Done (n, d), w1)"
    by (auto simp: fifo_read.simps [of w] andthen_Done)
  then have w1: "closed w1 = closed w" "unlinked w1 = unlinked w"
    by (auto simp: sys_read_def Let_def split: list.splits answer.splits)
  show ?case
  proof (cases "n < 0 \<and> errno w1 = EINTR")
    case True
    with "1.prems" rd have "fifo_read w1 = (Done c, w')" by (simp add: fifo_read.simps [of w])
    with "1.IH" [OF rd refl] True w1 show ?thesis by simp
  next
    case False
    with "1.prems" rd have "w' = w1"
      by (auto simp: fifo_read.simps [of w] andthen_Done error_exit_def split: if_splits)
    with w1 show ?thesis by simp
  qed
qed

lemma fifo_write_keeps:
  assumes "fifo_write d w = (Done n, w')"
  shows "closed w' = closed w \<and> unlinked w' = unlinked w"
proof -
  from assms have "w' = w\<lparr>out := out w @ d, answers := answers w', errno := errno w'\<rparr>"
    unfolding fifo_write_def by (auto dest: write_all_Done)
  from arg_cong [OF this, of closed] arg_cong [OF this, of unlinked] show ?thesis by simp
qed

lemma fifo_echo_loop_keeps: "fifo_echo_loop w = (Done (), w') \<Longrightarrow> closed w' = closed w \<and> unlinked w' = unlinked w"
proof (induction w rule: fifo_echo_loop.induct)
  case (1 w)
  from "1.prems" obtain c w1 where rd: "fifo_read w = (Done c, w1)"
    by (auto simp: fifo_echo_loop.simps [of w] andthen_Done)
  let ?v = "print_received c w1"
  have v: "closed ?v = closed w" "unlinked ?v = unlinked w"
    using fifo_read_keeps [OF rd] by (simp_all add: print_received_def print_def)
  show ?case
  proof (cases "c = QUIT_COMMAND")
    case True
    with "1.prems" rd v show ?thesis by (auto simp: fifo_echo_loop.simps [of w])
  next
    case False
    with "1.prems" rd obtain n w2 where "fifo_write c ?v = (Done n, w2)" "fifo_echo_loop w2 = (Done (), w')"
      by (auto simp: fifo_echo_loop.simps [of w] andthen_Done)
    with "1.IH" [OF rd refl False] fifo_write_keeps v show ?thesis by auto
  qed
qed

lemma fifo_echo_cleans:
  assumes "fifo_echo w = (Done (), w')"
  shows "closed w' = closed w @ [''echo_fifo'', ''client_fifo''] \<and>
    unlinked w' = unlinked w @ [''fifo_echo'', ''fifo_client'']"
  using assms unfolding fifo_echo_def andthen_Done
  by (auto dest!: fifo_write_keeps fifo_echo_loop_keeps cleanFIFOs_Done)

section \<open>The client\<close>

text \<open>
  The line is sent without its last character (\<open>strlen(buf) - 1\<close> bytes, none when this is not
  positive), and what is received is terminated before it is printed.
\<close>

definition fifo_client_read :: "io \<Rightarrow> byte list result" where
  "fifo_client_read = recv_open ''Echo process has closed the Echo FIFO unexpectedly! Exiting...''
     ''Cannot read from Echo FIFO'' 1023"

definition fifo_client_write :: "byte list \<Rightarrow> nat \<Rightarrow> io \<Rightarrow> nat result" where
  "fifo_client_write buf = write_all ''Cannot write to Client FIFO'' buf 0"

function fifo_client_loop :: "io \<Rightarrow> unit result" where
  "fifo_client_loop w = (case fgets 1024 (print ''Insert your message: '' w) of
      (None, w) \<Rightarrow> error_exit ''Error while reading from stdin, exiting...'' w
    | (Some line, w) \<Rightarrow>
        andthen (fifo_client_write line (length (takeWhile (\<lambda>c. c \<noteq> NUL) line) - 1) w) (\<lambda>bytes_sent w.
        if bytes_sent = length QUIT_COMMAND \<and> starts_with line QUIT_COMMAND then (Done (), w)
        else andthen (fifo_client_read w) (\<lambda>c w.
          fifo_client_loop (print (''Server response: '' @ takeWhile (\<lambda>c. c \<noteq> NUL) c @ [NL]) w))))"
  by pat_completeness auto
termination
proof (relation "measure (\<lambda>w. length (answers w))", goal_cases)
  case (2 w x w1 line m w2 c w3)
  then have "answers w1 = answers w" by (auto simp: fgets_first_line print_def split: if_splits)
  moreover from 2 have "length (answers w2) \<le> length (answers w1)"
    unfolding fifo_client_write_def by (auto dest: answers_le)
  moreover from 2 have "length (answers w3) < length (answers w2)"
    unfolding fifo_client_read_def by (auto dest: answers_decrease)
  ultimately show ?case by (simp add: print_def)
qed simp

declare fifo_client_loop.simps [simp del]

definition fifo_client_checks :: "check list" where
  "fifo_client_checks = [ERROR_HELPER ''Cannot open Echo FIFO for reading'', ERROR_HELPER ''Cannot open Client FIFO for writing'']"

definition fifo_client_main :: "int list \<Rightarrow> io \<Rightarrow> unit result" where
  "fifo_client_main rets w = (case run_checks fifo_client_checks rets of
      Startup_exit msg \<Rightarrow> error_exit msg w | Startup_pending \<Rightarrow> (Blocked, w)
    | Startup_done _ \<Rightarrow>
        andthen (fifo_client_read w) (\<lambda>c w.
        andthen (fifo_client_loop (print (takeWhile (\<lambda>c. c \<noteq> NUL) c) w)) (\<lambda>_ w.
        andthen (close_or_exit ''echo_fifo'' ''Cannot close Echo FIFO'' w) (\<lambda>_ w.
        andthen (close_or_exit ''client_fifo'' ''Cannot close Client FIFO'' w) (\<lambda>_ w. (Exit 0, w))))))"

section \<open>Properties\<close>

lemma length_fifo_welcome: "length fifo_welcome \<le> 1022" "fifo_welcome \<noteq> []"
  by (simp_all add: fifo_welcome_def QUIT_COMMAND_def)


text \<open>One message, for each of the two processes.\<close>

lemma fifo_write_once:
  "answers w = Xfer u 1023 # xs \<Longrightarrow> d \<noteq> [] \<Longrightarrow> length d \<le> 1024 \<Longrightarrow>
    write_all msg (d @ e) 0 (length d) w = (Done (length d), w\<lparr>answers := xs, out := out w @ d\<rparr>)"
  using write_all_step(4) [of "length d" 0 "d @ e" w u 1023 xs msg] by (simp add: min_def)

lemma fifo_read_once:
  assumes "answers w = Xfer (length d - 1) u # xs" and "inp w = d @ others" and "d \<noteq> []" and "length d \<le> 1023"
  shows "fifo_read w = (Done d, w\<lparr>answers := xs, inp := others\<rparr>)"
    and "fifo_client_read w = (Done d, w\<lparr>answers := xs, inp := others\<rparr>)"
proof -
  have "min 1023 (Suc (length d - 1)) = length d" using assms(3,4) by (cases d) simp_all
  then show "fifo_read w = (Done d, w\<lparr>answers := xs, inp := others\<rparr>)"
    using assms by (subst fifo_read.simps) (simp add: sys_read_def Let_def)
  show "fifo_client_read w = (Done d, w\<lparr>answers := xs, inp := others\<rparr>)"
    using assms \<open>min 1023 (Suc (length d - 1)) = length d\<close>
    by (simp add: fifo_client_read_def recv_open_step(4))
qed

lemma fifo_echo_loop_talks:
  assumes "\<forall>m\<in>set ms. m \<noteq> QUIT_COMMAND \<and> m \<noteq> [] \<and> length m \<le> 1022"
    and "inp w = concat ms @ QUIT_COMMAND" and "answers w = one_by_one ms @ Xfer 3 0 # xs"
  shows "\<exists>w'. fifo_echo_loop w = (Done (), w') \<and> out w' = out w @ concat ms \<and> answers w' = xs"
  using assms
proof (induction ms arbitrary: w)
  case Nil
  then have "fifo_read w = (Done QUIT_COMMAND, w\<lparr>answers := xs, inp := []\<rparr>)"
    using fifo_read_once(1) [of w QUIT_COMMAND 0 xs "[]"] by (simp add: one_by_one_def QUIT_COMMAND_def)
  then show ?case by (simp add: fifo_echo_loop.simps [of w] print_received_def print_def)
next
  case (Cons m ms)
  let ?xs = "one_by_one ms @ Xfer 3 0 # xs" and ?in = "concat ms @ QUIT_COMMAND"
  have ans: "answers w = Xfer (length m - 1) 0 # Xfer 0 1023 # ?xs" "inp w = m @ ?in"
    using Cons.prems by (simp_all add: one_by_one_def)
  define w1 where "w1 = print_received m (w\<lparr>answers := Xfer 0 1023 # ?xs, inp := ?in\<rparr>)"
  define w2 where "w2 = w1\<lparr>answers := ?xs, out := out w1 @ m\<rparr>"
  have m: "m \<noteq> QUIT_COMMAND" "m \<noteq> []" "length m \<le> 1023" using Cons.prems(1) by auto
  have "fifo_read w = (Done m, w\<lparr>answers := Xfer 0 1023 # ?xs, inp := ?in\<rparr>)"
    by (rule fifo_read_once(1) [OF ans m(2,3)])
  moreover have "fifo_write m w1 = (Done (length m), w2)"
    using fifo_write_once [of w1 0 ?xs m _ "[]"] m
    by (simp add: fifo_write_def w2_def w1_def print_received_def print_def)
  ultimately have "fifo_echo_loop w = fifo_echo_loop w2"
    using m(1) by (simp add: fifo_echo_loop.simps [of w] w1_def)
  moreover have "inp w2 = ?in" "answers w2 = ?xs" "out w2 = out w @ m"
    by (simp_all add: w2_def w1_def print_received_def print_def)
  ultimately show ?case using Cons.IH [of w2] Cons.prems(1) by simp
qed

lemma fifo_client_line:
  assumes "stdin w = m @ NL # rest" and "NL \<notin> set m" and "NUL \<notin> set m" and "length m \<le> 1022" and "m \<noteq> []"
    and "answers w = Xfer u 1023 # xs"
  shows "fifo_client_loop w =
    andthen (Done (length m), w\<lparr>stdout := stdout w @ [''Insert your message: ''], stdin := rest, answers := xs, out := out w @ m\<rparr>)
     (\<lambda>_ w. if m = QUIT_COMMAND then (Done (), w)
        else andthen (fifo_client_read w) (\<lambda>c w.
          fifo_client_loop (print (''Server response: '' @ takeWhile (\<lambda>c. c \<noteq> NUL) c @ [NL]) w)))"
proof -
  let ?v = "w\<lparr>stdout := stdout w @ [''Insert your message: ''], stdin := rest\<rparr>"
  have "fgets 1024 (print ''Insert your message: '' w) = (Some (m @ [NL]), ?v)"
    using assms by (simp add: fgets_first_line print_def first_line_line)
  moreover have "takeWhile (\<lambda>c. c \<noteq> NUL) (m @ [NL]) = m @ [NL]"
    using assms(3) by (auto simp: takeWhile_eq_all_conv NUL_def NL_def)
  moreover have "fifo_client_write (m @ [NL]) (length m) ?v =
      (Done (length m), ?v\<lparr>answers := xs, out := out w @ m\<rparr>)"
    using fifo_write_once [of ?v u xs m _ "[NL]"] assms by (simp add: fifo_client_write_def)
  moreover have "length m = length QUIT_COMMAND \<and> starts_with (m @ [NL]) QUIT_COMMAND \<longleftrightarrow> m = QUIT_COMMAND"
    by (auto simp: starts_with_def)
  ultimately show ?thesis by (subst fifo_client_loop.simps) (simp del: takeWhile_eq_all_conv)
qed

lemma fifo_client_loop_talks:
  assumes "\<forall>m\<in>set ms. m \<noteq> QUIT_COMMAND \<and> m \<noteq> [] \<and> length m \<le> 1022 \<and> NL \<notin> set m \<and> NUL \<notin> set m"
    and "stdin w = typed ms" and "inp w = concat ms" and "answers w = echo_turns ms @ xs"
  shows "\<exists>w'. fifo_client_loop w = (Done (), w') \<and> out w' = out w @ concat ms @ QUIT_COMMAND \<and>
    stdout w' = stdout w @ transcript ms \<and> answers w' = xs"
  using assms
proof (induction ms arbitrary: w)
  case Nil
  have "stdin w = QUIT_COMMAND @ NL # []" "answers w = Xfer 0 1023 # xs"
    using Nil by (simp_all add: typed_def echo_turns_def SERVER_COMMAND_def QUIT_COMMAND_def)
  moreover have "NL \<notin> set QUIT_COMMAND" "NUL \<notin> set QUIT_COMMAND" "length QUIT_COMMAND \<le> 1022" "QUIT_COMMAND \<noteq> []"
    by (simp_all add: QUIT_COMMAND_def NL_def NUL_def)
  ultimately show ?case by (simp add: fifo_client_line transcript_def)
next
  case (Cons m ms)
  have m: "NL \<notin> set m" "NUL \<notin> set m" "length m \<le> 1022" "m \<noteq> []" "m \<noteq> QUIT_COMMAND" using Cons.prems(1) by auto
  have st: "stdin w = m @ NL # typed ms" "answers w = Xfer 0 1023 # Xfer (length m - 1) 0 # echo_turns ms @ xs"
    using Cons.prems(2,4) by (simp_all add: typed_def echo_turns_def)
  define w1 where "w1 = w\<lparr>stdout := stdout w @ [''Insert your message: ''], stdin := typed ms,
    answers := Xfer (length m - 1) 0 # echo_turns ms @ xs, out := out w @ m\<rparr>"
  define w2 where "w2 = print (''Server response: '' @ m @ [NL]) (w1\<lparr>answers := echo_turns ms @ xs, inp := concat ms\<rparr>)"
  have "fifo_client_read w1 = (Done m, w1\<lparr>answers := echo_turns ms @ xs, inp := concat ms\<rparr>)"
    by (rule fifo_read_once(2)) (use m Cons.prems(3) in \<open>simp_all add: w1_def\<close>)
  moreover have "takeWhile (\<lambda>c. c \<noteq> NUL) m = m" using m(2) by (auto simp: takeWhile_eq_all_conv)
  ultimately have "fifo_client_loop w = fifo_client_loop w2"
    using fifo_client_line [OF st(1) m(1-4) st(2), folded w1_def] m(5)
    by (simp add: w2_def del: takeWhile_eq_all_conv)
  moreover have "stdin w2 = typed ms" "inp w2 = concat ms" "answers w2 = echo_turns ms @ xs" "out w2 = out w @ m"
    "stdout w2 = stdout w @ [''Insert your message: '', ''Server response: '' @ m @ [NL]]"
    by (simp_all add: w2_def w1_def print_def)
  ultimately show ?case using Cons.IH [of w2] Cons.prems(1) by (simp add: transcript_def)
qed

lemma closes:
  "answers w = Xfer a b # xs \<Longrightarrow> close_or_exit fd msg w = (Done (), w\<lparr>answers := xs, closed := closed w @ [fd]\<rparr>)"
  "answers w = Xfer a b # xs \<Longrightarrow> unlink_or_exit fd msg w = (Done (), w\<lparr>answers := xs, unlinked := unlinked w @ [fd]\<rparr>)"
  by (simp_all add: close_or_exit_def unlink_or_exit_def sys_close_def sys_unlink_def error_helper_def)

lemma fifo_echo_talks:
  assumes "\<forall>m\<in>set ms. m \<noteq> QUIT_COMMAND \<and> m \<noteq> [] \<and> length m \<le> 1022"
    and "e = fresh_io (concat ms @ QUIT_COMMAND) (Xfer 0 1023 # one_by_one ms @ Xfer 3 0 # replicate 4 (Xfer 0 0))"
  shows "\<exists>e'. fifo_echo_main [0, 0, 3, 4] e = (Exit 0, e') \<and> out e' = fifo_welcome @ concat ms \<and>
    unlinked e' = [''fifo_echo'', ''fifo_client'']"
proof -
  define e1 where "e1 = e\<lparr>answers := one_by_one ms @ Xfer 3 0 # replicate 4 (Xfer 0 0), out := fifo_welcome\<rparr>"
  have e1: "fifo_write fifo_welcome e = (Done (length fifo_welcome), e1)"
    using fifo_write_once [of e 0 "one_by_one ms @ Xfer 3 0 # replicate 4 (Xfer 0 0)" fifo_welcome _ "[]"]
      length_fifo_welcome assms(2) by (simp add: fifo_write_def e1_def fresh_io_def)
  obtain e2 where e2: "fifo_echo_loop e1 = (Done (), e2)" "out e2 = fifo_welcome @ concat ms"
    "answers e2 = replicate 4 (Xfer 0 0)"
    using fifo_echo_loop_talks [of ms e1 "replicate 4 (Xfer 0 0)"] assms by (auto simp: e1_def fresh_io_def)
  obtain e3 where e3: "cleanFIFOs e2 = (Done (), e3)" "out e3 = out e2"
    using e2(3) by (simp add: cleanFIFOs_def closes numeral_eq_Suc)
  have e: "fifo_echo e = (Done (), e3)" using e1 e2 e3 by (simp add: fifo_echo_def)
  moreover have "unlinked e3 = [''fifo_echo'', ''fifo_client'']"
    using fifo_echo_cleans [OF e] assms(2) by (simp add: fresh_io_def)
  ultimately show ?thesis using e2(2) e3(2) by (simp add: fifo_echo_main_def echo_checks_def)
qed

lemma fifo_client_talks:
  assumes "\<forall>m\<in>set ms. m \<noteq> QUIT_COMMAND \<and> m \<noteq> [] \<and> length m \<le> 1022 \<and> NL \<notin> set m \<and> NUL \<notin> set m"
    and "c = client_io ms (fifo_welcome @ concat ms)
      (Xfer (length fifo_welcome - 1) 0 # echo_turns ms @ replicate 2 (Xfer 0 0))"
  shows "\<exists>c'. fifo_client_main [3, 4] c = (Exit 0, c') \<and> out c' = concat ms @ QUIT_COMMAND \<and>
    stdout c' = fifo_welcome # transcript ms"
proof -
  define c1 where "c1 = print fifo_welcome (c\<lparr>answers := echo_turns ms @ replicate 2 (Xfer 0 0), inp := concat ms\<rparr>)"
  have c1: "fifo_client_read c = (Done fifo_welcome, c\<lparr>answers := echo_turns ms @ replicate 2 (Xfer 0 0), inp := concat ms\<rparr>)"
    by (rule fifo_read_once(2)) (use length_fifo_welcome assms in \<open>simp_all add: client_io_def fresh_io_def\<close>)
  obtain c2 where c2: "fifo_client_loop c1 = (Done (), c2)" "out c2 = concat ms @ QUIT_COMMAND"
    "stdout c2 = fifo_welcome # transcript ms" "answers c2 = replicate 2 (Xfer 0 0)"
    using fifo_client_loop_talks [of ms c1 "replicate 2 (Xfer 0 0)"] assms
    by (auto simp: c1_def client_io_def fresh_io_def print_def)
  have "takeWhile (\<lambda>c. c \<noteq> NUL) fifo_welcome = fifo_welcome"
    by (simp add: fifo_welcome_def QUIT_COMMAND_def NUL_def NL_def)
  moreover have "answers c2 = [Xfer 0 0, Xfer 0 0]" using c2(4) by (simp add: numeral_2_eq_2)
  ultimately show ?thesis using c1 c2(1-3) c1_def [symmetric]
    by (simp add: fifo_client_main_def fifo_client_checks_def closes del: takeWhile_eq_all_conv)
qed

text \<open>
  C27: the two programs over their FIFOs: they open the FIFOs in an order in which they meet; while
  each message is written and read in one piece, what each of them reads is what the other one
  writes, both exit with status 0, the user sees the welcome message and every message as a
  response, and the FIFOs are gone.
\<close>

theorem fifo_conversation:
  assumes "\<forall>m\<in>set ms. m \<noteq> QUIT_COMMAND \<and> m \<noteq> [] \<and> length m \<le> 1022 \<and> NL \<notin> set m \<and> NUL \<notin> set m"
    and echo: "e = fresh_io to_echo (Xfer 0 1023 # one_by_one ms @ Xfer 3 0 # replicate 4 (Xfer 0 0))"
    and client: "c = client_io ms to_client (Xfer (length fifo_welcome - 1) 0 # echo_turns ms @ replicate 2 (Xfer 0 0))"
    and "to_echo = concat ms @ QUIT_COMMAND" and "to_client = fifo_welcome @ concat ms"
  shows "both_open echo_opens fifo_client_opens \<and>
    (\<exists>e' c'. fifo_echo_main [0, 0, 3, 4] e = (Exit 0, e') \<and> fifo_client_main [3, 4] c = (Exit 0, c') \<and>
      out e' = to_client \<and> out c' = to_echo \<and> stdout c' = fifo_welcome # transcript ms \<and>
      unlinked e' = [''fifo_echo'', ''fifo_client''])"
proof -
  have "\<forall>m\<in>set ms. m \<noteq> QUIT_COMMAND \<and> m \<noteq> [] \<and> length m \<le> 1022" using assms(1) by blast
  from fifo_echo_talks [OF this echo [unfolded assms(4)]] fifo_client_talks [OF assms(1) client [unfolded assms(5)]]
  show ?thesis using assms(4,5) by (auto simp: echo_opens_def fifo_client_opens_def)
qed


theorem fifo_conversation_witness:
  "\<exists>e' c'. fifo_echo_main [0, 0, 3, 4] (fresh_io ''hiyouQUIT''
      (Xfer 0 1023 # one_by_one [''hi'', ''you''] @ Xfer 3 0 # replicate 4 (Xfer 0 0))) = (Exit 0, e') \<and>
    fifo_client_main [3, 4] (client_io [''hi'', ''you''] (fifo_welcome @ ''hiyou'')
      (Xfer (length fifo_welcome - 1) 0 # echo_turns [''hi'', ''you''] @ replicate 2 (Xfer 0 0))) = (Exit 0, c') \<and>
    out c' = ''hiyouQUIT'' \<and> stdout c' = fifo_welcome # transcript [''hi'', ''you'']"
proof -
  have "\<forall>m\<in>set [''hi'', ''you'']. m \<noteq> QUIT_COMMAND \<and> m \<noteq> [] \<and> length m \<le> 1022 \<and> NL \<notin> set m \<and> NUL \<notin> set m"
    by (simp add: QUIT_COMMAND_def NUL_def NL_def)
  moreover have "''hiyouQUIT'' = concat [''hi'', ''you''] @ QUIT_COMMAND"
    "fifo_welcome @ ''hiyou'' = fifo_welcome @ concat [''hi'', ''you'']"
    by (simp_all add: QUIT_COMMAND_def)
  ultimately show ?thesis
    using fifo_conversation [OF _ refl refl, of "[''hi'', ''you'']" "''hiyouQUIT''" "fifo_welcome @ ''hiyou''"] by blast
qed

end
