(* ===== verification/Chat.thy ===== *)
theory Chat
  imports Echo_Fifo
begin

text \<open>
  \<open>lab10-chat-socket+fifo\<close>: the two chat programs \<open>chat-socket.c\<close> and \<open>chat-fifo.c\<close>. In each
  process one thread receives and one sends; they share \<open>shouldStop\<close>. Their statements are
  interleaved, and two such processes are connected by two byte streams. The threads of the two
  programs are the same but for the words of their messages.
\<close>

section \<open>One end\<close>

definition CHAT_BUFFER_SIZE :: nat where "CHAT_BUFFER_SIZE = 1024"
definition CLOSE_COMMAND :: string where "CLOSE_COMMAND = ''BYE''"

datatype rlabel = R_test  \<comment> \<open>\<open>while (!shouldStop)\<close>\<close>
  | R_select | R_byte  \<comment> \<open>the loop that reads one byte at a time\<close>
  | R_end

datatype tlabel = T_test | T_gets | T_check  \<comment> \<open>\<open>if (shouldStop) break\<close>\<close>
  | T_send | T_end

text \<open>\<open>received\<close>, \<open>sent\<close> and \<open>transmitted\<close> are the history; the rest is the state of the process.\<close>

record chat_end =
  shouldStop :: bool
  rpc :: rlabel
  rbuf :: "byte list"  \<comment> \<open>the first \<open>bytes_read\<close> bytes of the receiver's buffer\<close>
  spc :: tlabel
  sbuf :: "byte list"  \<comment> \<open>the message of the sender\<close>
  bytes_sent :: nat
  arriving :: "byte list"  \<comment> \<open>sent by the other end, not received yet\<close>
  keyboard :: "byte list"
  screen :: "string list"
  warnings :: "string list"
  exit_code :: "int option"
  overflown :: bool  \<comment> \<open>a byte was stored outside of the buffer\<close>
  received :: "byte list list"
  sent :: "byte list list"
  transmitted :: "byte list"

text \<open>What the kernel answers to a call: \<open>K_go n\<close> is success, of at most \<open>n + 1\<close> bytes for \<open>send\<close>.\<close>

datatype kcall = K_go nat | K_intr | K_fail | K_timeout | K_eof

datatype medium = Socket | Fifo

definition warn :: "string \<Rightarrow> chat_end \<Rightarrow> chat_end" where
  "warn msg e = e\<lparr>warnings := warnings e @ [msg]\<rparr>"

definition chat_error :: "string \<Rightarrow> chat_end \<Rightarrow> chat_end" where
  "chat_error msg e = e\<lparr>warnings := warnings e @ [msg], exit_code := Some 1\<rparr>"

text \<open>After the newline has been read.\<close>

definition line_received :: "byte list \<Rightarrow> chat_end \<Rightarrow> chat_end" where
  "line_received line e =
     (let e = e\<lparr>received := received e @ [line], rbuf := [], rpc := R_test\<rparr> in
      if length line - 1 = length CLOSE_COMMAND \<and> starts_with line CLOSE_COMMAND then
        (warn ''Chat session terminated from endpoint. Please press ENTER to exit.'' e)\<lparr>shouldStop := True\<rparr>
      else if CHAT_BUFFER_SIZE \<le> length line then e\<lparr>overflown := True\<rparr>
      else e\<lparr>screen := screen e @ [''==> '' @ takeWhile (\<lambda>c. c \<noteq> NUL) line]\<rparr>)"

definition receive_step :: "medium \<Rightarrow> kcall \<Rightarrow> chat_end \<Rightarrow> chat_end option" where
  "receive_step md k e = (case rpc e of
     R_test \<Rightarrow> Some (e\<lparr>rpc := if shouldStop e then R_end else R_select\<rparr>)
   | R_select \<Rightarrow> (case k of
       K_go _ \<Rightarrow> Some (e\<lparr>rpc := R_byte, rbuf := []\<rparr>)
     | K_fail \<Rightarrow> Some (chat_error ''Unable to select()'' e)
     | K_eof \<Rightarrow> None
     | _ \<Rightarrow> Some (e\<lparr>rpc := R_test\<rparr>))
   | R_byte \<Rightarrow> (case k of
       K_go _ \<Rightarrow> (case arriving e of
           [] \<Rightarrow> None
         | c # cs \<Rightarrow>
             if CHAT_BUFFER_SIZE \<le> length (rbuf e) then Some (e\<lparr>overflown := True\<rparr>)
             else if c = NL then Some (line_received (rbuf e @ [NL]) (e\<lparr>arriving := cs\<rparr>))
             else Some (e\<lparr>arriving := cs, rbuf := rbuf e @ [c]\<rparr>))
     | K_eof \<Rightarrow> if arriving e = [] then Some ((warn (case md of
           Socket \<Rightarrow> ''[WARNING] Endpoint closed the connection unexpectedly. Exiting...''
         | Fifo \<Rightarrow> ''[WARNING] Endpoint closed the FIFO unexpectedly. Exiting...'') e)\<lparr>shouldStop := True, rpc := R_end\<rparr>)
         else None
     | K_intr \<Rightarrow> Some e
     | K_fail \<Rightarrow> Some (chat_error (case md of Socket \<Rightarrow> ''Cannot read from socket'' | Fifo \<Rightarrow> ''Cannot read from FIFO'') e)
     | K_timeout \<Rightarrow> None)
   | R_end \<Rightarrow> None)"

definition send_step :: "medium \<Rightarrow> kcall \<Rightarrow> chat_end \<Rightarrow> (chat_end \<times> byte list) option" where
  "send_step md k e = (case spc e of
     T_test \<Rightarrow> Some (e\<lparr>spc := if shouldStop e then T_end else T_gets\<rparr>, [])
   | T_gets \<Rightarrow> (case k of
       K_go _ \<Rightarrow> if keyboard e = [] then None
         else (let line = first_line CHAT_BUFFER_SIZE (keyboard e) in
           Some (e\<lparr>sbuf := line, keyboard := drop (length line) (keyboard e), spc := T_check\<rparr>, []))
     | K_fail \<Rightarrow> Some (chat_error ''Error while reading from stdin, exiting...'' e, [])
     | K_eof \<Rightarrow> if keyboard e = [] then Some (chat_error ''Error while reading from stdin, exiting...'' e, []) else None
     | _ \<Rightarrow> None)
   | T_check \<Rightarrow>
       if shouldStop e then Some (e\<lparr>spc := T_end\<rparr>, [])
       else (let msg = takeWhile (\<lambda>c. c \<noteq> NUL) (sbuf e) in
         Some (e\<lparr>spc := T_send, sbuf := msg, bytes_sent := 0, sent := sent e @ [msg]\<rparr>, []))
   | T_send \<Rightarrow>
       if bytes_sent e < length (sbuf e) then (case k of
           K_go n \<Rightarrow> (let c = take (Suc n) (drop (bytes_sent e) (sbuf e)) in
             Some (e\<lparr>bytes_sent := bytes_sent e + length c, transmitted := transmitted e @ c\<rparr>, c))
         | K_intr \<Rightarrow> Some (e, [])
         | K_fail \<Rightarrow> Some (chat_error (case md of Socket \<Rightarrow> ''Cannot write to socket'' | Fifo \<Rightarrow> ''Cannot write to FIFO'') e, [])
         | _ \<Rightarrow> None)
       else if sbuf e \<noteq> [] \<and> length (sbuf e) - 1 = length CLOSE_COMMAND \<and> starts_with (sbuf e) CLOSE_COMMAND then
         Some ((warn ''Chat session terminated.'' e)\<lparr>shouldStop := True, spc := T_test\<rparr>, [])
       else Some (e\<lparr>spc := T_test\<rparr>, [])
   | T_end \<Rightarrow> None)"

text \<open>The threads of the two programs.\<close>

definition socket_receiveMessage :: "kcall \<Rightarrow> chat_end \<Rightarrow> chat_end option" where
  "socket_receiveMessage = receive_step Socket"

definition fifo_receiveMessage :: "kcall \<Rightarrow> chat_end \<Rightarrow> chat_end option" where
  "fifo_receiveMessage = receive_step Fifo"

definition socket_sendMessage :: "kcall \<Rightarrow> chat_end \<Rightarrow> (chat_end \<times> byte list) option" where
  "socket_sendMessage = send_step Socket"

definition fifo_sendMessage :: "kcall \<Rightarrow> chat_end \<Rightarrow> (chat_end \<times> byte list) option" where
  "fifo_sendMessage = send_step Fifo"

fun receiveMessage :: "medium \<Rightarrow> kcall \<Rightarrow> chat_end \<Rightarrow> chat_end option" where
  "receiveMessage Socket = socket_receiveMessage"
| "receiveMessage Fifo = fifo_receiveMessage"

fun sendMessage :: "medium \<Rightarrow> kcall \<Rightarrow> chat_end \<Rightarrow> (chat_end \<times> byte list) option" where
  "sendMessage Socket = socket_sendMessage"
| "sendMessage Fifo = fifo_sendMessage"

lemma thread_steps [simp]: "receiveMessage md = receive_step md" "sendMessage md = send_step md"
  by (cases md; simp add: socket_receiveMessage_def fifo_receiveMessage_def socket_sendMessage_def fifo_sendMessage_def)+

section \<open>Two ends\<close>

text \<open>
  A process goes on while it has not exited and memory is intact. Its end of the streams is
  closed when both threads have ended (\<open>chatSession\<close> joins them), or when it has exited.
\<close>

definition alive :: "chat_end \<Rightarrow> bool" where
  "alive e \<longleftrightarrow> exit_code e = None \<and> \<not> overflown e"

definition ended :: "chat_end \<Rightarrow> bool" where
  "ended e \<longleftrightarrow> \<not> alive e \<or> rpc e = R_end \<and> spc e = T_end"

datatype chat_event = Receives kcall | Sends kcall

text \<open>A step of the first of two ends.\<close>

definition end_step :: "medium \<Rightarrow> chat_event \<Rightarrow> chat_end \<times> chat_end \<Rightarrow> (chat_end \<times> chat_end) option" where
  "end_step md ev s = (case s of (a, b) \<Rightarrow>
     if \<not> alive a then None
     else (case ev of
       Receives k \<Rightarrow> if k = K_eof \<and> \<not> ended b then None
         else map_option (\<lambda>a. (a, b)) (receiveMessage md k a)
     | Sends k \<Rightarrow> map_option (\<lambda>(a, c). (a, b\<lparr>arriving := arriving b @ c\<rparr>)) (sendMessage md k a)))"

text \<open>\<open>True\<close> for a step of the first end, \<open>False\<close> for a step of the second.\<close>

definition chat_step :: "medium \<Rightarrow> bool \<times> chat_event \<Rightarrow> chat_end \<times> chat_end \<Rightarrow> (chat_end \<times> chat_end) option" where
  "chat_step md ev s = (if fst ev then end_step md (snd ev) s
     else map_option prod.swap (end_step md (snd ev) (prod.swap s)))"

inductive chat_reaches :: "medium \<Rightarrow> chat_end \<times> chat_end \<Rightarrow> chat_end \<times> chat_end \<Rightarrow> bool" for md s where
  start: "chat_reaches md s s"
| step: "chat_reaches md s t \<Longrightarrow> chat_step md ev t = Some u \<Longrightarrow> chat_reaches md s u"

fun run_chat :: "medium \<Rightarrow> (bool \<times> chat_event) list \<Rightarrow> chat_end \<times> chat_end \<Rightarrow> (chat_end \<times> chat_end) option" where
  "run_chat md [] s = Some s"
| "run_chat md (ev # evs) s = (case chat_step md ev s of None \<Rightarrow> None | Some t \<Rightarrow> run_chat md evs t)"

lemma run_chat_reaches: "chat_reaches md r s \<Longrightarrow> run_chat md evs s = Some t \<Longrightarrow> chat_reaches md r t"
  by (induction evs arbitrary: s) (auto split: option.splits intro: chat_reaches.step)

definition chatting :: "byte list \<Rightarrow> chat_end" where
  "chatting keys = \<lparr>shouldStop = False, rpc = R_test, rbuf = [], spc = T_test, sbuf = [], bytes_sent = 0, arriving = [],
     keyboard = keys, screen = [], warnings = [], exit_code = None, overflown = False, received = [], sent = [],
     transmitted = []\<rparr>"

section \<open>What an end keeps\<close>

abbreviation to_nul :: "byte list \<Rightarrow> byte list" where
  "to_nul \<equiv> takeWhile (\<lambda>c. c \<noteq> NUL)"

text \<open>The receiver, when \<open>tx\<close> has been sent by the other end.\<close>

definition shown :: "byte list list \<Rightarrow> string list" where
  "shown ls = map (\<lambda>l. ''==> '' @ to_nul l) (filter (\<lambda>l. l \<noteq> CLOSE_COMMAND @ [NL]) ls)"

definition receiver_inv :: "byte list \<Rightarrow> chat_end \<Rightarrow> bool" where
  "receiver_inv tx e \<longleftrightarrow> tx = concat (received e) @ rbuf e @ arriving e \<and>
     (rpc e = R_test \<or> rpc e = R_select \<longrightarrow> rbuf e = []) \<and> NL \<notin> set (rbuf e) \<and>
     (\<forall>l \<in> set (received e). \<exists>m. l = m @ [NL] \<and> NL \<notin> set m) \<and>
     (\<not> overflown e \<longrightarrow> screen e = shown (received e))"

text \<open>The sender, whose user has typed \<open>keys\<close>.\<close>

definition pending :: "chat_end \<Rightarrow> byte list" where
  "pending e = (if spc e = T_send then drop (bytes_sent e) (sbuf e) else [])"

definition sender_inv :: "byte list \<Rightarrow> chat_end \<Rightarrow> bool" where
  "sender_inv keys e \<longleftrightarrow> transmitted e @ pending e = concat (sent e) \<and>
     (\<exists>rest. map to_nul (typed_lines CHAT_BUFFER_SIZE keys) = sent e @ rest \<and>
        (spc e = T_test \<or> spc e = T_gets \<or> spc e = T_send \<longrightarrow> rest = map to_nul (typed_lines CHAT_BUFFER_SIZE (keyboard e))) \<and>
        (spc e = T_check \<longrightarrow> rest = to_nul (sbuf e) # map to_nul (typed_lines CHAT_BUFFER_SIZE (keyboard e))))"

lemma receive_frame:
  assumes "receive_step md k e = Some e'"
  shows "sender_inv keys e' = sender_inv keys e" "transmitted e' = transmitted e" "sent e' = sent e" "spc e' = spc e"
    "shouldStop e \<Longrightarrow> shouldStop e'"
proof -
  have "transmitted e' = transmitted e \<and> sent e' = sent e \<and> spc e' = spc e \<and> sbuf e' = sbuf e \<and>
    bytes_sent e' = bytes_sent e \<and> keyboard e' = keyboard e \<and> (shouldStop e \<longrightarrow> shouldStop e')"
    using assms by (auto simp: receive_step_def line_received_def warn_def chat_error_def Let_def
        split: rlabel.splits kcall.splits list.splits if_splits medium.splits)
  then show "sender_inv keys e' = sender_inv keys e" "transmitted e' = transmitted e" "sent e' = sent e" "spc e' = spc e"
    "shouldStop e \<Longrightarrow> shouldStop e'"
    by (simp_all add: sender_inv_def pending_def)
qed

lemma send_frame:
  assumes "send_step md k e = Some (e', c)"
  shows "receiver_inv tx e' = receiver_inv tx e" "transmitted e' = transmitted e @ c" "received e' = received e"
    "rpc e' = rpc e" "overflown e' = overflown e" "shouldStop e \<Longrightarrow> shouldStop e'"
proof -
  have "received e' = received e \<and> rbuf e' = rbuf e \<and> rpc e' = rpc e \<and> arriving e' = arriving e \<and> screen e' = screen e \<and>
    overflown e' = overflown e \<and> transmitted e' = transmitted e @ c \<and> (shouldStop e \<longrightarrow> shouldStop e')"
    using assms by (auto simp: send_step_def warn_def chat_error_def Let_def
        split: tlabel.splits kcall.splits if_splits)
  then show "receiver_inv tx e' = receiver_inv tx e" "transmitted e' = transmitted e @ c" "received e' = received e"
    "rpc e' = rpc e" "overflown e' = overflown e" "shouldStop e \<Longrightarrow> shouldStop e'"
    by (simp_all add: receiver_inv_def)
qed

lemma starts_with_append [simp]: "starts_with (m @ x) m"
  by (simp add: starts_with_def)

lemma close_line: "length m = length CLOSE_COMMAND \<and> starts_with (m @ [NL]) CLOSE_COMMAND \<longleftrightarrow> m = CLOSE_COMMAND"
  by (auto simp: starts_with_def)

lemma line_received_inv:
  assumes "receiver_inv tx e" and "rpc e = R_byte" and "arriving e = NL # cs"
  shows "receiver_inv tx (line_received (rbuf e @ [NL]) (e\<lparr>arriving := cs\<rparr>))"
proof -
  let ?l = "rbuf e @ [NL]"
  have all: "\<forall>l \<in> set (received e @ [?l]). \<exists>m. l = m @ [NL] \<and> NL \<notin> set m" and "NL \<notin> set (rbuf e)"
    using assms(1) by (auto simp: receiver_inv_def)
  moreover have "shown (received e @ [?l]) = shown (received e) @ (if rbuf e = CLOSE_COMMAND then [] else [''==> '' @ to_nul ?l])"
    by (simp add: shown_def)
  ultimately show ?thesis
    using assms by (cases "rbuf e = CLOSE_COMMAND")
      (simp_all add: receiver_inv_def line_received_def close_line Let_def warn_def)
qed

lemma receive_inv:
  assumes "receive_step md k e = Some e'" and "receiver_inv tx e"
  shows "receiver_inv tx e'"
proof (cases "rpc e = R_byte \<and> (\<exists>n. k = K_go n) \<and> length (rbuf e) < CHAT_BUFFER_SIZE \<and> (\<exists>cs. arriving e = NL # cs)")
  case True
  then obtain n cs where "k = K_go n" "arriving e = NL # cs" by blast
  with True assms(1) have "e' = line_received (rbuf e @ [NL]) (e\<lparr>arriving := cs\<rparr>)" by (simp add: receive_step_def)
  with line_received_inv [OF assms(2)] True \<open>arriving e = NL # cs\<close> show ?thesis by simp
next
  case False
  with assms show ?thesis
    by (auto simp: receive_step_def receiver_inv_def warn_def chat_error_def not_le
        split: rlabel.splits kcall.splits list.splits if_splits)
qed

lemma take_drop_rest: "take n (drop b xs) @ drop (b + min (length xs - b) n) xs = drop b xs"
proof -
  have "take n ys @ drop (min (length ys) n) ys = ys" for ys :: "'a list" by (cases "n \<le> length ys") simp_all
  from this [of "drop b xs"] show ?thesis by (simp only: drop_drop length_drop add.commute)
qed

lemma send_inv:
  assumes "send_step md k e = Some (e', c)" and "sender_inv keys e"
  shows "sender_inv keys e'"
proof (cases "spc e = T_gets \<and> (\<exists>n. k = K_go n)")
  case True
  with assms(1) have "keyboard e \<noteq> []" by (auto simp: send_step_def split: if_splits)
  then have "typed_lines CHAT_BUFFER_SIZE (keyboard e) = first_line CHAT_BUFFER_SIZE (keyboard e) #
      typed_lines CHAT_BUFFER_SIZE (drop (length (first_line CHAT_BUFFER_SIZE (keyboard e))) (keyboard e))"
    by (subst typed_lines.simps) (simp add: CHAT_BUFFER_SIZE_def)
  with True assms show ?thesis by (auto simp: send_step_def sender_inv_def pending_def Let_def split: if_splits)
next
  case False
  with assms show ?thesis
    by (auto simp: send_step_def sender_inv_def pending_def warn_def chat_error_def Let_def take_drop_rest
        split: tlabel.splits kcall.splits if_splits)
qed

section \<open>What the two ends keep\<close>

definition chat_inv :: "byte list \<Rightarrow> byte list \<Rightarrow> chat_end \<times> chat_end \<Rightarrow> bool" where
  "chat_inv ka kb s \<longleftrightarrow> (case s of (a, b) \<Rightarrow> sender_inv ka a \<and> sender_inv kb b \<and>
     receiver_inv (transmitted a) b \<and> receiver_inv (transmitted b) a)"

lemma chat_inv_swap: "chat_inv kb ka (prod.swap s) = chat_inv ka kb s"
  by (auto simp: chat_inv_def split: prod.splits)

lemma arriving_more:
  "receiver_inv tx e \<Longrightarrow> receiver_inv (tx @ c) (e\<lparr>arriving := arriving e @ c\<rparr>)"
  "sender_inv keys (e\<lparr>arriving := x\<rparr>) = sender_inv keys e"
  by (auto simp: receiver_inv_def sender_inv_def pending_def)

lemma end_step_cases:
  assumes "end_step md ev (a, b) = Some s"
  obtains (receives) k a' where "receive_step md k a = Some a'" "s = (a', b)" "alive a"
  | (sends) k a' c where "send_step md k a = Some (a', c)" "s = (a', b\<lparr>arriving := arriving b @ c\<rparr>)" "alive a"
  using assms by (auto simp: end_step_def split: if_splits chat_event.splits)

lemma end_step_inv:
  assumes "end_step md ev s = Some s'" and "chat_inv ka kb s"
  shows "chat_inv ka kb s'"
proof -
  obtain a b where s: "s = (a, b)" by (cases s)
  from assms(1) [unfolded s] show ?thesis
  proof (cases rule: end_step_cases)
    case (receives k a')
    with assms(2) s receive_frame [OF receives(1)] receive_inv [OF receives(1)] show ?thesis
      by (simp add: chat_inv_def)
  next
    case (sends k a' c)
    with assms(2) s send_frame [OF sends(1)] send_inv [OF sends(1)] arriving_more show ?thesis
      by (simp add: chat_inv_def)
  qed
qed

lemma chat_step_inv: "chat_step md ev s = Some s' \<Longrightarrow> chat_inv ka kb s \<Longrightarrow> chat_inv ka kb s'"
  using end_step_inv [of md "snd ev" s s' ka kb] end_step_inv [of md "snd ev" "prod.swap s" _ kb ka]
  using chat_inv_swap [of kb ka s] chat_inv_swap [of ka kb]
  by (auto simp: chat_step_def split: if_splits)

lemma chatting_inv: "chat_inv ka kb (chatting ka, chatting kb)"
  by (simp add: chat_inv_def sender_inv_def receiver_inv_def chatting_def pending_def shown_def)

lemma chat_reaches_inv: "chat_reaches md (chatting ka, chatting kb) s \<Longrightarrow> chat_inv ka kb s"
  by (induction rule: chat_reaches.induct) (auto intro: chatting_inv chat_step_inv)

lemma delivered:
  assumes "receiver_inv (transmitted a) b" and "sender_inv ka a"
  shows "prefix (concat (received b) @ rbuf b) (concat (map to_nul (typed_lines CHAT_BUFFER_SIZE ka)))"
proof -
  from assms(2) obtain rest where "map to_nul (typed_lines CHAT_BUFFER_SIZE ka) = sent a @ rest"
    "transmitted a @ pending a = concat (sent a)" by (auto simp: sender_inv_def)
  then have "concat (map to_nul (typed_lines CHAT_BUFFER_SIZE ka)) = transmitted a @ pending a @ concat rest"
    by (metis append_assoc concat_append)
  moreover have "transmitted a = (concat (received b) @ rbuf b) @ arriving b" using assms(1) by (simp add: receiver_inv_def)
  ultimately show ?thesis by (metis append_assoc prefixI)
qed

text \<open>Lines that are read back from a stream of lines.\<close>

lemma line_split: "x @ NL # r = m @ NL # s \<Longrightarrow> NL \<notin> set x \<Longrightarrow> NL \<notin> set m \<Longrightarrow> x = m \<and> r = s"
  by (metis append_same_eq list.inject takeWhile_line same_append_eq)

lemma prefix_lines:
  assumes "prefix (concat ls @ r) (concat (map (\<lambda>m. m @ [NL]) ms))"
    and "\<forall>l \<in> set ls. \<exists>m. l = m @ [NL] \<and> NL \<notin> set m" and "NL \<notin> set r" and "\<forall>m \<in> set ms. NL \<notin> set m"
  shows "prefix ls (map (\<lambda>m. m @ [NL]) ms) \<and> (r = [] \<or> (\<exists>m \<in> set ms. prefix r m))"
  using assms
proof (induction ms arbitrary: ls)
  case Nil
  then show ?case by (cases ls) auto
next
  case (Cons m ms)
  show ?case
  proof (cases ls)
    case Nil
    with Cons.prems(1) obtain s where "r @ s = m @ NL # concat (map (\<lambda>m. m @ [NL]) ms)" by (auto simp: prefix_def)
    then have "prefix r m" using Cons.prems(3)
      by (auto simp: append_eq_append_conv2 append_eq_Cons_conv)
    with Nil show ?thesis by auto
  next
    case (Cons l ls')
    with Cons.prems(2) obtain x where x: "l = x @ [NL]" "NL \<notin> set x" by auto
    from Cons.prems(1) Cons x obtain s where
      "x @ NL # (concat ls' @ r @ s) = m @ NL # concat (map (\<lambda>m. m @ [NL]) ms)" by (auto simp: prefix_def)
    from line_split [OF this x(2)] Cons.prems(4) have "x = m" "concat ls' @ r @ s = concat (map (\<lambda>m. m @ [NL]) ms)" by auto
    moreover from this(2) have "prefix (concat ls' @ r) (concat (map (\<lambda>m. m @ [NL]) ms))"
      by (metis append_assoc prefixI)
    ultimately show ?thesis using Cons.IH [of ls'] Cons.prems Cons x by auto
  qed
qed

text \<open>A user who types lines of at most 1022 characters.\<close>

definition short_lines :: "byte list list \<Rightarrow> bool" where
  "short_lines ms \<longleftrightarrow> (\<forall>m \<in> set ms. NL \<notin> set m \<and> NUL \<notin> set m \<and> length m \<le> 1022)"

definition keys :: "byte list list \<Rightarrow> byte list" where
  "keys ms = concat (map (\<lambda>m. m @ [NL]) ms)"

lemma typed_keys:
  assumes "short_lines ms"
  shows "map to_nul (typed_lines CHAT_BUFFER_SIZE (keys ms)) = map (\<lambda>m. m @ [NL]) ms"
proof -
  have "typed_lines CHAT_BUFFER_SIZE (keys ms) = map (\<lambda>m. m @ [NL]) ms"
    unfolding keys_def using assms by (intro typed_lines_lines) (auto simp: short_lines_def CHAT_BUFFER_SIZE_def)
  moreover have "\<forall>m \<in> set ms. to_nul (m @ [NL]) = m @ [NL]"
    using assms by (auto simp: short_lines_def takeWhile_eq_all_conv NL_def NUL_def)
  ultimately show ?thesis by (simp del: takeWhile_eq_all_conv)
qed

lemma lines_delivered:
  assumes "receiver_inv (transmitted a) b" and "sender_inv (keys ms) a" and "short_lines ms"
  shows "prefix (received b) (map (\<lambda>m. m @ [NL]) ms)" and "length (rbuf b) \<le> 1022"
proof -
  have "prefix (concat (received b) @ rbuf b) (concat (map (\<lambda>m. m @ [NL]) ms))"
    using delivered [OF assms(1,2)] typed_keys [OF assms(3)] by (simp only:)
  then have "prefix (received b) (map (\<lambda>m. m @ [NL]) ms) \<and> (rbuf b = [] \<or> (\<exists>m \<in> set ms. prefix (rbuf b) m))"
    by (rule prefix_lines) (use assms in \<open>auto simp: receiver_inv_def short_lines_def\<close>)
  then show "prefix (received b) (map (\<lambda>m. m @ [NL]) ms)" "length (rbuf b) \<le> 1022"
    using assms(3) by (auto simp: short_lines_def dest!: prefix_length_le)
qed

lemma receive_overflow:
  assumes "receive_step md k e = Some e'" and "\<not> overflown e" and "length (rbuf e) \<le> 1022"
  shows "\<not> overflown e'"
  using assms by (auto simp: receive_step_def line_received_def warn_def chat_error_def Let_def CHAT_BUFFER_SIZE_def
      split: rlabel.splits kcall.splits list.splits if_splits)

section \<open>Properties\<close>

text \<open>
  C14: both chat programs, in every interleaving of the four threads, with any interruptions and
  partial transfers: what an end has received is an initial part of what the user of the other
  end has typed (up to a zero byte in a line), and as long as its buffer has not overflown its
  screen shows the lines received, in order and once, without the closing \<open>BYE\<close>.
\<close>

theorem chat_delivers:
  assumes "chat_reaches md (chatting ka, chatting kb) (a, b)"
  shows "prefix (concat (received b) @ rbuf b) (concat (map to_nul (typed_lines CHAT_BUFFER_SIZE ka))) \<and>
    prefix (concat (received a) @ rbuf a) (concat (map to_nul (typed_lines CHAT_BUFFER_SIZE kb))) \<and>
    (\<not> overflown a \<longrightarrow> screen a = shown (received a)) \<and> (\<not> overflown b \<longrightarrow> screen b = shown (received b))"
proof -
  have "chat_inv ka kb (a, b)" by (rule chat_reaches_inv [OF assms])
  then show ?thesis using delivered by (auto simp: chat_inv_def receiver_inv_def)
qed

definition chat_demo :: "(bool \<times> chat_event) list" where
  "chat_demo = replicate 3 (True, Sends (K_go 0)) @ [(False, Receives (K_go 0)), (True, Sends (K_go 2)),
     (False, Receives K_timeout), (False, Receives (K_go 0)), (False, Receives (K_go 0)), (False, Receives (K_go 0)),
     (False, Receives K_intr), (False, Receives (K_go 0)), (True, Sends K_intr), (True, Sends (K_go 9)), (True, Sends (K_go 0)),
     (False, Receives (K_go 0)), (False, Receives (K_go 0))]"

lemma chat_demo_run:
  obtains a b where "chat_reaches Socket (chatting (keys [''hey'']), chatting []) (a, b)"
    and "screen b = [''==> hey'' @ [NL]]" and "received b = [''hey'' @ [NL]]"
proof -
  have "(case run_chat Socket chat_demo (chatting (keys [''hey'']), chatting []) of None \<Rightarrow> None
      | Some (a, b) \<Rightarrow> Some (screen b, received b)) = Some ([''==> hey'' @ [NL]], [''hey'' @ [NL]])"
    by code_simp
  then obtain a b where "run_chat Socket chat_demo (chatting (keys [''hey'']), chatting []) = Some (a, b)"
    "screen b = [''==> hey'' @ [NL]]" "received b = [''hey'' @ [NL]]"
    by (auto split: option.splits)
  with run_chat_reaches [OF chat_reaches.start] that show ?thesis by blast
qed

theorem chat_delivers_witness:
  "\<exists>a b. chat_reaches Socket (chatting (keys [''hey'']), chatting []) (a, b) \<and> screen b = [''==> hey'' @ [NL]] \<and>
    prefix (concat (received b) @ rbuf b) (concat (map to_nul (typed_lines CHAT_BUFFER_SIZE (keys [''hey'']))))"
proof -
  obtain a b where ab: "chat_reaches Socket (chatting (keys [''hey'']), chatting []) (a, b)" "screen b = [''==> hey'' @ [NL]]"
    by (rule chat_demo_run)
  with chat_delivers [OF ab(1)] show ?thesis by blast
qed

text \<open>
  C15: both chat programs: while both users type lines of at most 1022 characters, no buffer ever
  overflows, and the lines received are exactly the first lines typed at the other end.
\<close>

theorem chat_short_lines:
  assumes "chat_reaches md (chatting (keys as), chatting (keys bs)) s" and "short_lines as" and "short_lines bs"
  shows "\<not> overflown (fst s) \<and> \<not> overflown (snd s) \<and> prefix (received (snd s)) (map (\<lambda>m. m @ [NL]) as) \<and>
    prefix (received (fst s)) (map (\<lambda>m. m @ [NL]) bs)"
proof -
  have "\<not> overflown (fst s) \<and> \<not> overflown (snd s)"
    using assms(1)
  proof (induction rule: chat_reaches.induct)
    case start
    then show ?case by (simp add: chatting_def)
  next
    case (step t ev u)
    obtain a b where t: "t = (a, b)" by (cases t)
    have inv: "chat_inv (keys as) (keys bs) (a, b)" using chat_reaches_inv step.hyps(1) t by blast
    then have "length (rbuf a) \<le> 1022" "length (rbuf b) \<le> 1022"
      using lines_delivered(2) assms(2,3) by (auto simp: chat_inv_def)
    with step.IH step.hyps(2) t receive_overflow send_frame(5) show ?case
      by (auto simp: chat_step_def split: if_splits elim!: end_step_cases)
  qed
  moreover have "chat_inv (keys as) (keys bs) s" by (rule chat_reaches_inv [OF assms(1)])
  ultimately show ?thesis using lines_delivered(1) assms(2,3) by (auto simp: chat_inv_def split: prod.splits)
qed

theorem chat_short_lines_witness:
  "\<exists>a b. chat_reaches Socket (chatting (keys [''hey'']), chatting []) (a, b) \<and> received b = [''hey'' @ [NL]] \<and>
    \<not> overflown b"
proof -
  obtain a b where ab: "chat_reaches Socket (chatting (keys [''hey'']), chatting (keys [])) (a, b)"
    "received b = [''hey'' @ [NL]]" by (rule chat_demo_run) (simp add: keys_def)
  moreover have "short_lines [''hey'']" "short_lines []" by (simp_all add: short_lines_def NL_def NUL_def)
  ultimately show ?thesis using chat_short_lines [OF ab(1)] by (auto simp: keys_def)
qed

text \<open>The bytes of a long line, one by one.\<close>

lemma receive_bytes:
  assumes "rpc b = R_byte" and "alive b" and "arriving b = m @ rest" and "NL \<notin> set m" and "length (rbuf b) + length m \<le> CHAT_BUFFER_SIZE"
  shows "run_chat md (replicate (length m) (False, Receives (K_go 0))) (a, b) =
    Some (a, b\<lparr>arriving := rest, rbuf := rbuf b @ m\<rparr>)"
  using assms
proof (induction m arbitrary: b)
  case (Cons c m)
  let ?b = "b\<lparr>arriving := m @ rest, rbuf := rbuf b @ [c]\<rparr>"
  have "chat_step md (False, Receives (K_go 0)) (a, b) = Some (a, ?b)"
    using Cons.prems by (auto simp: chat_step_def end_step_def receive_step_def)
  moreover have "alive ?b" using Cons.prems(2) by (simp add: alive_def)
  ultimately show ?case using Cons.IH [of ?b] Cons.prems by simp
qed simp

text \<open>
  C16: both chat programs: a line of 1024 characters or more that arrives overflows the buffer of
  the end that receives it: \<open>receiveMessage\<close> does not bound \<open>bytes_read\<close>.
\<close>

theorem chat_long_line_overflows:
  assumes "rpc b = R_select" and "alive b" and "arriving b = m @ c # rest" and "NL \<notin> set m" and "length m = 1024"
  shows "\<exists>evs b'. run_chat md evs (a, b) = Some (a, b') \<and> overflown b'"
proof -
  let ?b = "b\<lparr>rpc := R_byte, rbuf := []\<rparr>" and ?evs = "replicate 1024 (False, Receives (K_go 0))"
  have 1: "chat_step md (False, Receives (K_go 0)) (a, b) = Some (a, ?b)"
    using assms by (simp add: chat_step_def end_step_def receive_step_def)
  let ?c = "?b\<lparr>arriving := c # rest, rbuf := m\<rparr>"
  have 2: "run_chat md ?evs (a, ?b) = Some (a, ?c)"
    using receive_bytes [of ?b m "c # rest" md a] assms by (simp add: alive_def CHAT_BUFFER_SIZE_def)
  have 3: "chat_step md (False, Receives (K_go 0)) (a, ?c) = Some (a, ?c\<lparr>overflown := True\<rparr>)"
    using assms by (simp add: chat_step_def end_step_def receive_step_def alive_def CHAT_BUFFER_SIZE_def)
  have run_append: "run_chat md (xs @ ys) s = (case run_chat md xs s of None \<Rightarrow> None | Some t \<Rightarrow> run_chat md ys t)" for xs ys s
    by (induction xs arbitrary: s) (auto split: option.splits)
  have "run_chat md ((False, Receives (K_go 0)) # ?evs @ [(False, Receives (K_go 0))]) (a, b) = Some (a, ?c\<lparr>overflown := True\<rparr>)"
    using 1 2 3 by (simp add: run_append)
  then show ?thesis by (intro exI conjI) (assumption, simp)
qed

theorem chat_long_line_overflows_witness:
  "\<exists>evs b'. run_chat Socket evs (chatting [], (chatting [])\<lparr>rpc := R_select, arriving := replicate 1024 NUL @ [NUL]\<rparr>) =
    Some (chatting [], b') \<and> overflown b'"
  by (rule chat_long_line_overflows [where m = "replicate 1024 NUL" and c = NUL and rest = "[]"])
    (simp_all add: chatting_def alive_def NUL_def NL_def)

text \<open>When \<open>shouldStop\<close> is set.\<close>

lemma stopped_step:
  "send_step md k e = Some (e', c) \<Longrightarrow> shouldStop e \<Longrightarrow> sent e' = sent e \<and> received e' = received e \<and> rpc e' = rpc e"
  "receive_step md k e = Some e' \<Longrightarrow> shouldStop e \<Longrightarrow>
    length (received e') + (if rpc e' = R_select \<or> rpc e' = R_byte then 1 else 0) \<le>
    length (received e) + (if rpc e = R_select \<or> rpc e = R_byte then 1 else 0)"
  by (auto simp: send_step_def receive_step_def line_received_def warn_def chat_error_def Let_def
      split: tlabel.splits rlabel.splits kcall.splits list.splits if_splits)

lemma stopped_for_good:
  assumes "chat_reaches md s t" and "shouldStop (fst s)"
  shows "shouldStop (fst t) \<and> sent (fst t) = sent (fst s) \<and> length (received (fst t)) \<le> Suc (length (received (fst s)))"
proof -
  define pot where "pot e = length (received e) + (if rpc e = R_select \<or> rpc e = R_byte then 1 else 0)" for e :: chat_end
  have "shouldStop (fst t) \<and> sent (fst t) = sent (fst s) \<and> pot (fst t) \<le> pot (fst s)"
    using assms
  proof (induction rule: chat_reaches.induct)
    case (step t ev u)
    obtain a b where t: "t = (a, b)" by (cases t)
    from step.hyps(2) [unfolded t chat_step_def]
    have "(fst u = a \<or> (\<exists>x. fst u = a\<lparr>arriving := x\<rparr>)) \<or> (\<exists>k. receive_step md k a = Some (fst u)) \<or>
      (\<exists>k c. send_step md k a = Some (fst u, c))"
      by (auto split: if_splits elim!: end_step_cases)
    moreover have IH: "shouldStop a" "sent a = sent (fst s)" "pot a \<le> pot (fst s)" using step.IH [OF step.prems] t by simp_all
    ultimately show ?case
    proof (elim disjE exE)
      fix k assume r: "receive_step md k a = Some (fst u)"
      from receive_frame(3,5) [OF r] stopped_step(2) [OF r] IH show ?thesis by (auto simp: pot_def)
    next
      fix k c assume r: "send_step md k a = Some (fst u, c)"
      from send_frame(6) [OF r] stopped_step(1) [OF r] IH show ?thesis by (auto simp: pot_def)
    qed (auto simp: pot_def)
  qed simp
  moreover have "length (received (fst t)) \<le> pot (fst t)" "pot (fst s) \<le> Suc (length (received (fst s)))"
    by (simp_all add: pot_def)
  ultimately show ?thesis by linarith
qed

text \<open>
  Why an end stops: it has sent the closing command (four characters that begin with \<open>BYE\<close>), it has
  received it, or the other end has closed its end of the stream.
\<close>

definition stop_cause :: "chat_end \<Rightarrow> chat_end \<Rightarrow> bool" where
  "stop_cause a b \<longleftrightarrow> (\<exists>m \<in> set (sent a). length m = Suc (length CLOSE_COMMAND) \<and> starts_with m CLOSE_COMMAND) \<or>
     CLOSE_COMMAND @ [NL] \<in> set (received a) \<or> ended b"

definition cause_inv :: "chat_end \<Rightarrow> chat_end \<Rightarrow> bool" where
  "cause_inv a b \<longleftrightarrow> (spc a = T_send \<longrightarrow> sbuf a \<in> set (sent a)) \<and>
     (shouldStop a \<longrightarrow> stop_cause a b) \<and> (rpc a = R_end \<longrightarrow> shouldStop a)"

lemma ended_stays:
  "receive_step md k e = Some e' \<Longrightarrow> ended e \<Longrightarrow> alive e \<Longrightarrow> False"
  "send_step md k e = Some (e', c) \<Longrightarrow> ended e \<Longrightarrow> alive e \<Longrightarrow> False"
  by (auto simp: ended_def receive_step_def send_step_def)

lemma ended_arriving [simp]: "ended (e\<lparr>arriving := x\<rparr>) = ended e"
  by (simp add: ended_def alive_def)

lemma cause_arriving [simp]: "cause_inv (a\<lparr>arriving := x\<rparr>) b = cause_inv a b" "cause_inv a (b\<lparr>arriving := x\<rparr>) = cause_inv a b"
  by (simp_all add: cause_inv_def stop_cause_def)

lemma cause_other: "(ended b \<Longrightarrow> ended b') \<Longrightarrow> cause_inv a b \<Longrightarrow> cause_inv a b'"
  by (auto simp: cause_inv_def stop_cause_def)

lemma receive_cause:
  assumes "receive_step md k a = Some a'" and "cause_inv a b" and "k = K_eof \<Longrightarrow> ended b"
  shows "cause_inv a' b"
proof (cases "rpc a = R_byte \<and> (\<exists>n. k = K_go n) \<and> length (rbuf a) < CHAT_BUFFER_SIZE \<and> (\<exists>cs. arriving a = NL # cs)")
  case True
  then obtain n cs where "k = K_go n" "arriving a = NL # cs" by blast
  with True assms(1) have "a' = line_received (rbuf a @ [NL]) (a\<lparr>arriving := cs\<rparr>)" by (simp add: receive_step_def)
  with assms(2) show ?thesis
    by (auto simp: line_received_def cause_inv_def stop_cause_def warn_def Let_def close_line)
next
  case False
  with assms show ?thesis
    by (auto simp: receive_step_def cause_inv_def stop_cause_def warn_def chat_error_def not_le
        split: rlabel.splits kcall.splits list.splits if_splits)
qed

lemma length_minus_one: "length m - Suc 0 = length n \<Longrightarrow> m \<noteq> [] \<Longrightarrow> length m = Suc (length n)"
  by (cases m) simp_all

lemma send_cause:
  assumes "send_step md k a = Some (a', c)" and "cause_inv a b"
  shows "cause_inv a' b"
proof -
  have "received a' = received a \<and> rpc a' = rpc a \<and> set (sent a) \<subseteq> set (sent a') \<and> (shouldStop a \<longrightarrow> shouldStop a')"
    using assms(1) by (auto simp: send_step_def warn_def chat_error_def Let_def
        split: tlabel.splits kcall.splits if_splits)
  moreover have "spc a' = T_send \<longrightarrow> sbuf a' \<in> set (sent a') \<or> spc a = T_send \<and> sbuf a' = sbuf a"
    using assms(1) by (auto simp: send_step_def warn_def chat_error_def Let_def
        split: tlabel.splits kcall.splits if_splits)
  moreover have "shouldStop a' \<longrightarrow> shouldStop a \<or> spc a = T_send \<and>
      length (sbuf a) = Suc (length CLOSE_COMMAND) \<and> starts_with (sbuf a) CLOSE_COMMAND"
    using assms(1) by (auto simp: send_step_def warn_def chat_error_def Let_def
        split: tlabel.splits kcall.splits if_splits dest!: length_minus_one)
  ultimately show ?thesis using assms(2) by (auto simp: cause_inv_def stop_cause_def)
qed

lemma end_step_cause:
  assumes "end_step md ev (a, b) = Some (a', b')" and "cause_inv a b" and "cause_inv b a"
  shows "cause_inv a' b' \<and> cause_inv b' a'"
proof (cases ev)
  case (Receives k)
  with assms(1) have r: "receive_step md k a = Some a'" "b' = b" "alive a" "k = K_eof \<Longrightarrow> ended b"
    by (auto simp: end_step_def split: if_splits)
  have "\<not> ended a" using ended_stays(1) [OF r(1)] r(3) by blast
  then have "cause_inv b a'" using cause_other [OF _ assms(3)] by blast
  with receive_cause [OF r(1) assms(2) r(4)] r(2) show ?thesis by simp
next
  case (Sends k)
  with assms(1) obtain c where r: "send_step md k a = Some (a', c)" "b' = b\<lparr>arriving := arriving b @ c\<rparr>" "alive a"
    by (auto simp: end_step_def split: if_splits)
  have "\<not> ended a" using ended_stays(2) [OF r(1)] r(3) by blast
  then have "cause_inv b a'" using cause_other [OF _ assms(3)] by blast
  with send_cause [OF r(1) assms(2)] r(2) show ?thesis by simp
qed

lemma chat_reaches_cause:
  "chat_reaches md (chatting ka, chatting kb) s \<Longrightarrow> cause_inv (fst s) (snd s) \<and> cause_inv (snd s) (fst s)"
proof (induction rule: chat_reaches.induct)
  case start
  then show ?case by (simp add: cause_inv_def chatting_def)
next
  case (step t ev u)
  obtain a b a' b' where tu: "t = (a, b)" "u = (a', b')" by (cases t; cases u)
  show ?case
  proof (cases "fst ev")
    case True
    with step.hyps(2) tu have "end_step md (snd ev) (a, b) = Some (a', b')" by (simp add: chat_step_def)
    from end_step_cause [OF this] step.IH tu show ?thesis by simp
  next
    case False
    with step.hyps(2) tu have "end_step md (snd ev) (b, a) = Some (b', a')" by (auto simp: chat_step_def)
    from end_step_cause [OF this] step.IH tu show ?thesis by simp
  qed
qed

text \<open>
  C37: both chat programs: an end stops only if it has sent or received the closing command, or the
  other end has closed; from then on \<open>shouldStop\<close> stays set, no further message is sent (at most the
  one being sent is completed), and at most one more line is received.
\<close>

theorem chat_stops:
  assumes "chat_reaches md (chatting ka, chatting kb) s" and "chat_reaches md s t" and "shouldStop (fst s)"
  shows "stop_cause (fst s) (snd s) \<and> shouldStop (fst t) \<and> sent (fst t) = sent (fst s) \<and>
    length (received (fst t)) \<le> Suc (length (received (fst s)))"
proof -
  have "stop_cause (fst s) (snd s)" using chat_reaches_cause [OF assms(1)] assms(3) by (simp add: cause_inv_def)
  with stopped_for_good [OF assms(2,3)] show ?thesis by blast
qed

theorem chat_stops_witness:
  "\<exists>s t. chat_reaches Fifo (chatting (keys [''BYE'']), chatting []) s \<and> chat_reaches Fifo s t \<and>
    stop_cause (fst s) (snd s) \<and> spc (fst t) = T_end \<and> sent (fst t) = [''BYE'' @ [NL]]"
proof -
  let ?evs = "replicate 3 (True, Sends (K_go 0)) @ [(True, Sends (K_go 9)), (True, Sends (K_go 0))]"
  have "(case run_chat Fifo ?evs (chatting (keys [''BYE'']), chatting []) of None \<Rightarrow> None
      | Some s \<Rightarrow> (case run_chat Fifo [(True, Sends K_fail)] s of None \<Rightarrow> None
          | Some t \<Rightarrow> Some (shouldStop (fst s), sent (fst s), spc (fst t)))) = Some (True, [''BYE'' @ [NL]], T_end)"
    by code_simp
  then obtain s t where run: "run_chat Fifo ?evs (chatting (keys [''BYE'']), chatting []) = Some s"
    "run_chat Fifo [(True, Sends K_fail)] s = Some t"
    and st: "shouldStop (fst s)" "sent (fst s) = [''BYE'' @ [NL]]" "spc (fst t) = T_end"
    by (auto split: option.splits)
  have r: "chat_reaches Fifo (chatting (keys [''BYE'']), chatting []) s" "chat_reaches Fifo s t"
    using run_chat_reaches [OF chat_reaches.start run(1)] run_chat_reaches [OF chat_reaches.start run(2)] .
  with chat_stops [OF r st(1)] st show ?thesis by (metis (no_types))
qed

section \<open>The sessions and the commands\<close>

text \<open>\<open>chatSession\<close>: the two threads are created and joined, and the descriptors closed.\<close>

definition chat_threads :: "check list" where
  "chat_threads =
     [PTHREAD_ERROR_HELPER ''Cannot create thread for receiving messages'',
      PTHREAD_ERROR_HELPER ''Cannot create thread for sending messages'',
      PTHREAD_ERROR_HELPER ''Cannot join on thread for receiving messages'',
      PTHREAD_ERROR_HELPER ''Cannot join on thread for sending messages'']"

definition socket_chatSession :: "check list" where
  "socket_chatSession = chat_threads @ [ERROR_HELPER ''Cannot close socket'']"

definition fifo_chatSession :: "check list" where
  "fifo_chatSession = chat_threads @ [ERROR_HELPER ''Cannot close FIFO used for sending messages'',
     ERROR_HELPER ''Cannot close FIFO used for receiving messages'']"

definition connectTo :: "check list" where
  "connectTo = [ERROR_HELPER ''Could not create socket'', ERROR_HELPER ''Could not create connection''] @ socket_chatSession"

text \<open>\<open>accept\<close> is repeated while interrupted; another failure is not noticed.\<close>

definition listenOnPort :: "check list" where
  "listenOnPort = [ERROR_HELPER ''Could not create socket'', ERROR_HELPER ''Cannot set SO_REUSEADDR option'',
     ERROR_HELPER ''Cannot bind address to socket'', ERROR_HELPER ''Cannot listen on socket''] @ socket_chatSession @
     [ERROR_HELPER ''Cannot close listening socket'']"

definition connectOnFIFO :: "check list" where
  "connectOnFIFO = [ERROR_HELPER ''Cannot open Listen FIFO for writing'', ERROR_HELPER ''Cannot open Accept FIFO for reading'']
     @ fifo_chatSession"

definition listenOnFIFO :: "check list" where
  "listenOnFIFO = [ERROR_HELPER ''Cannot create Listen FIFO'', ERROR_HELPER ''Cannot create Accept FIFO'',
     ERROR_HELPER ''Cannot open Listen FIFO for reading'', ERROR_HELPER ''Cannot open Accept FIFO for writing''] @
     fifo_chatSession @ [ERROR_HELPER ''Cannot unlink Listen FIFO'', ERROR_HELPER ''Cannot unlink Accept FIFO'']"

section \<open>The command lines\<close>

text \<open>\<open>strtol(s, NULL, 0)\<close>: white space, a sign, a base given by the prefix, digits; out of range it is clamped.\<close>

definition digit_of :: "char \<Rightarrow> nat" where
  "digit_of c = (let n = of_char c in
     if 48 \<le> n \<and> n \<le> 57 then n - 48 else if 97 \<le> n \<and> n \<le> 122 then n - 87
     else if 65 \<le> n \<and> n \<le> 90 then n - 55 else 36)"

definition number_in :: "nat \<Rightarrow> string \<Rightarrow> int" where
  "number_in base s = foldl (\<lambda>n c. int base * n + int (digit_of c)) 0 (takeWhile (\<lambda>c. digit_of c < base) s)"

definition strtol0 :: "string \<Rightarrow> int" where
  "strtol0 s = (let cs = dropWhile is_space s;
       (neg, ds) = (if take 1 cs = ''-'' then (True, tl cs) else if take 1 cs = ''+'' then (False, tl cs) else (False, cs));
       v = (if (take 2 ds = ''0x'' \<or> take 2 ds = ''0X'') \<and> length ds > 2 \<and> digit_of (ds ! 2) < 16 then number_in 16 (drop 2 ds)
            else if take 1 ds = ''0'' then number_in 8 ds else number_in 10 ds)
     in max (- (2 ^ 63)) (min (2 ^ 63 - 1) (if neg then - v else v)))"

datatype chat_command = Accept "16 word" | Connect string "16 word" | Bad_port | Usage

definition chat_port :: "string \<Rightarrow> (16 word \<Rightarrow> chat_command) \<Rightarrow> chat_command" where
  "chat_port arg go = (let tmp = strtol0 arg in
     if tmp < 1024 \<or> tmp > 49151 then Bad_port else go (word_of_int tmp))"

definition chat_socket_main :: "string list \<Rightarrow> chat_command" where
  "chat_socket_main argv =
     (if length argv = 3 then
        (if argv ! 1 \<noteq> ''accept'' then Usage else chat_port (argv ! 2) Accept)
      else if length argv = 4 then
        (if argv ! 1 \<noteq> ''connect'' then Usage else chat_port (argv ! 3) (Connect (argv ! 2)))
      else Usage)"

text \<open>The FIFOs: the names (each in a buffer of 128 bytes), and the calls of \<open>open\<close> in their order.\<close>

datatype chat_fifo_command = Opens "(string \<times> fifo_mode) list" | Name_overflow | Fifo_usage

definition chat_fifo_main :: "string list \<Rightarrow> chat_fifo_command" where
  "chat_fifo_main argv =
     (if length argv = 3 \<and> (argv ! 1 = ''accept'' \<or> argv ! 1 = ''connect'') then
        (let listen_fifo_name = argv ! 2 @ ''_accept''; accept_fifo_name = argv ! 2 @ ''_connect'' in
         if 128 \<le> length listen_fifo_name \<or> 128 \<le> length accept_fifo_name then Name_overflow
         else if argv ! 1 = ''accept'' then Opens [(listen_fifo_name, O_RDONLY), (accept_fifo_name, O_WRONLY)]
         else Opens [(listen_fifo_name, O_WRONLY), (accept_fifo_name, O_RDONLY)])
      else Fifo_usage)"

lemma chat_fifos_meet:
  assumes "chat_fifo_main [p, ''accept'', x] = Opens xs" and "chat_fifo_main [q, ''connect'', x] = Opens ys"
  shows "both_open xs ys"
  using assms by (auto simp: chat_fifo_main_def Let_def split: if_splits)

text \<open>
  \<open>chat-socket.c\<close>: a port number is accepted exactly if it is between 1024 and 49151, as the
  message says, and the conversion to 16 bits keeps its value.
\<close>

theorem chat_port_exact:
  "(\<exists>p. chat_socket_main [prog_name, ''accept'', arg] = Accept p \<and> int (unat p) = strtol0 arg) \<longleftrightarrow>
    1024 \<le> strtol0 arg \<and> strtol0 arg \<le> 49151"
proof
  assume "\<exists>p. chat_socket_main [prog_name, ''accept'', arg] = Accept p \<and> int (unat p) = strtol0 arg"
  then show "1024 \<le> strtol0 arg \<and> strtol0 arg \<le> 49151"
    by (auto simp: chat_socket_main_def chat_port_def Let_def split: if_splits)
next
  assume r: "1024 \<le> strtol0 arg \<and> strtol0 arg \<le> 49151"
  then have "int (unat (word_of_int (strtol0 arg) :: 16 word)) = strtol0 arg"
    by (simp add: unsigned_of_int take_bit_int_eq_self)
  with r show "\<exists>p. chat_socket_main [prog_name, ''accept'', arg] = Accept p \<and> int (unat p) = strtol0 arg"
    by (simp add: chat_socket_main_def chat_port_def Let_def)
qed

end
