(* ===== verification/Recap.thy ===== *)
theory Recap
  imports Prelude C_Library
begin

text \<open>
  \<open>lab04-recap+named-semaphore/recap/riepilogo.c\<close>: a main process starts \<open>n\<close> children, waits until
  all are ready, lets them go, and tells them to stop after a while; each child repeatedly runs
  \<open>m\<close> threads, each of which appends the child's number to a file; at the end the main process
  counts the entries. The processes share four named semaphores and the file, and their
  statements are interleaved. \<open>printf\<close> and \<open>sleep\<close> are left out.
\<close>

section \<open>State\<close>

datatype thread_pc = Th_wait  \<comment> \<open>\<open>sem_wait(critical_section)\<close>\<close>
  | Th_write  \<comment> \<open>\<open>open\<close>, \<open>write\<close>, \<open>close\<close>\<close>
  | Th_post | Th_exit

datatype child_pc = Ch_post  \<comment> \<open>\<open>sem_post(main_waits_for_children)\<close>\<close>
  | Ch_wait  \<comment> \<open>\<open>sem_wait(children_wait_for_main)\<close>\<close>
  | Ch_create  \<comment> \<open>the loop of \<open>pthread_create\<close>\<close>
  | Ch_join | Ch_check  \<comment> \<open>\<open>sem_getvalue(end_children_activities)\<close>\<close>
  | Ch_end

text \<open>\<open>died\<close>: the process has ended through \<open>ERROR_HELPER\<close>; \<open>rounds\<close> counts the rounds completed.\<close>

record child =
  cpc :: child_pc
  threads :: "thread_pc list"
  died :: bool
  rounds :: nat

datatype main_pc = M_collect nat  \<comment> \<open>\<open>sem_wait(main_waits_for_children)\<close>, \<open>i\<close>-th time\<close>
  | M_release nat  \<comment> \<open>\<open>sem_post(children_wait_for_main)\<close>\<close>
  | M_notify  \<comment> \<open>\<open>sem_post(end_children_activities)\<close>\<close>
  | M_reap nat  \<comment> \<open>\<open>wait(&child_status)\<close>\<close>
  | M_read  \<comment> \<open>from here on only the main process is left\<close>

record recap =
  mpc :: main_pc
  main_waits_for_children :: nat
  children_wait_for_main :: nat
  critical_section :: nat
  end_children_activities :: nat
  children :: "child list"
  accesses_log :: "nat list"  \<comment> \<open>the file\<close>
  unwritten :: "nat list"  \<comment> \<open>numbers whose \<open>write\<close> has failed, which is not checked\<close>

datatype recap_event = Main | Child nat | Child_dies nat | Thread nat nat | Thread_writes_not nat nat

section \<open>The programs\<close>

definition thread_function :: "nat \<Rightarrow> bool \<Rightarrow> thread_pc \<Rightarrow> recap \<Rightarrow> (thread_pc \<times> recap) option" where
  "thread_function process_id written t s = (case t of
     Th_wait \<Rightarrow> if critical_section s = 0 \<or> \<not> written then None
       else Some (Th_write, s\<lparr>critical_section := critical_section s - 1\<rparr>)
   | Th_write \<Rightarrow> Some (Th_post, if written then s\<lparr>accesses_log := accesses_log s @ [process_id]\<rparr>
       else s\<lparr>unwritten := unwritten s @ [process_id]\<rparr>)
   | Th_post \<Rightarrow> if \<not> written then None else Some (Th_exit, s\<lparr>critical_section := critical_section s + 1\<rparr>)
   | Th_exit \<Rightarrow> None)"

definition child_process :: "nat \<Rightarrow> child \<Rightarrow> recap \<Rightarrow> (child \<times> recap) option" where
  "child_process m c s = (case cpc c of
     Ch_post \<Rightarrow> Some (c\<lparr>cpc := Ch_wait\<rparr>, s\<lparr>main_waits_for_children := main_waits_for_children s + 1\<rparr>)
   | Ch_wait \<Rightarrow> if children_wait_for_main s = 0 then None
       else Some (c\<lparr>cpc := Ch_create\<rparr>, s\<lparr>children_wait_for_main := children_wait_for_main s - 1\<rparr>)
   | Ch_create \<Rightarrow> Some (if length (threads c) < m then c\<lparr>threads := threads c @ [Th_wait]\<rparr> else c\<lparr>cpc := Ch_join\<rparr>, s)
   | Ch_join \<Rightarrow> if \<forall>t \<in> set (threads c). t = Th_exit then Some (c\<lparr>cpc := Ch_check\<rparr>, s) else None
   | Ch_check \<Rightarrow> Some (c\<lparr>cpc := if end_children_activities s > 0 then Ch_end else Ch_create,
       threads := [], rounds := rounds c + 1\<rparr>, s)
   | Ch_end \<Rightarrow> None)"

definition terminated :: "child \<Rightarrow> bool" where
  "terminated c \<longleftrightarrow> died c \<or> cpc c = Ch_end"

definition main_process :: "recap \<Rightarrow> recap option" where
  "main_process s = (let n = length (children s) in case mpc s of
     M_collect i \<Rightarrow> if i = n then Some (s\<lparr>mpc := M_release 0\<rparr>)
       else if main_waits_for_children s = 0 then None
       else Some (s\<lparr>mpc := M_collect (i + 1), main_waits_for_children := main_waits_for_children s - 1\<rparr>)
   | M_release i \<Rightarrow> if i = n then Some (s\<lparr>mpc := M_notify\<rparr>)
       else Some (s\<lparr>mpc := M_release (i + 1), children_wait_for_main := children_wait_for_main s + 1\<rparr>)
   | M_notify \<Rightarrow> Some (s\<lparr>mpc := M_reap 0, end_children_activities := end_children_activities s + 1\<rparr>)
   | M_reap i \<Rightarrow> if i = n then Some (s\<lparr>mpc := M_read\<rparr>)
       else if i < cnt terminated (children s) then Some (s\<lparr>mpc := M_reap (i + 1)\<rparr>) else None
   | M_read \<Rightarrow> None)"

definition thread_step :: "nat \<Rightarrow> nat \<Rightarrow> bool \<Rightarrow> recap \<Rightarrow> recap option" where
  "thread_step i j written s =
     (if i < length (children s) \<and> \<not> died (children s ! i) \<and> j < length (threads (children s ! i)) then
        (let c = children s ! i in
         map_option (\<lambda>(t, s'). s'\<lparr>children := (children s')[i := c\<lparr>threads := (threads c)[j := t]\<rparr>]\<rparr>)
           (thread_function i written (threads c ! j) s))
      else None)"

definition recap_step :: "nat \<Rightarrow> recap_event \<Rightarrow> recap \<Rightarrow> recap option" where
  "recap_step m ev s = (case ev of
     Main \<Rightarrow> main_process s
   | Child i \<Rightarrow> if i < length (children s) \<and> \<not> terminated (children s ! i) then
         map_option (\<lambda>(c, s'). s'\<lparr>children := (children s')[i := c]\<rparr>) (child_process m (children s ! i) s) else None
   | Child_dies i \<Rightarrow> if i < length (children s) \<and> \<not> terminated (children s ! i) then
         Some (s\<lparr>children := (children s)[i := (children s ! i)\<lparr>died := True\<rparr>]\<rparr>) else None
   | Thread i j \<Rightarrow> thread_step i j True s
   | Thread_writes_not i j \<Rightarrow> thread_step i j False s)"

inductive recap_reaches :: "nat \<Rightarrow> recap \<Rightarrow> recap \<Rightarrow> bool" for m s where
  start: "recap_reaches m s s"
| step: "recap_reaches m s t \<Longrightarrow> recap_step m ev t = Some u \<Longrightarrow> recap_reaches m s u"

fun run_recap :: "nat \<Rightarrow> recap_event list \<Rightarrow> recap \<Rightarrow> recap option" where
  "run_recap m [] s = Some s"
| "run_recap m (ev # evs) s = (case recap_step m ev s of None \<Rightarrow> None | Some t \<Rightarrow> run_recap m evs t)"

lemma run_recap_reaches: "recap_reaches m r s \<Longrightarrow> run_recap m evs s = Some t \<Longrightarrow> recap_reaches m r t"
  by (induction evs arbitrary: s) (auto split: option.splits intro: recap_reaches.step)

section \<open>Set-up\<close>

text \<open>
  The named semaphores of the system. An existing one is unlinked; \<open>allowed\<close> says whether the
  kernel lets the process create one. \<open>None\<close>: the process exits.
\<close>

definition sem_open_excl :: "bool \<Rightarrow> string \<Rightarrow> nat \<Rightarrow> (string \<rightharpoonup> nat) \<Rightarrow> (string \<rightharpoonup> nat) option" where
  "sem_open_excl allowed name value sems =
     (if \<not> allowed \<or> sems name \<noteq> None then None else Some (sems(name \<mapsto> value)))"

definition create_named_semaphore :: "bool \<Rightarrow> string \<Rightarrow> nat \<Rightarrow> (string \<rightharpoonup> nat) \<Rightarrow> (string \<rightharpoonup> nat) option" where
  "create_named_semaphore allowed name value sems =
     (case sem_open_excl allowed name value sems of
        Some sems \<Rightarrow> Some sems
      | None \<Rightarrow> if sems name \<noteq> None then sem_open_excl allowed name value (sems(name := None)) else None)"

text \<open>\<open>init_file\<close>: an existing file is deleted and created again. Nothing is checked.\<close>

definition init_file :: "bool \<Rightarrow> string \<Rightarrow> (string \<rightharpoonup> nat list) \<Rightarrow> (string \<rightharpoonup> nat list)" where
  "init_file allowed name files = (if allowed then files(name \<mapsto> []) else files)"

text \<open>
  \<open>main\<close>: the arguments; \<open>i\<close> is unsigned, so that a negative \<open>n\<close> is a number of 32 bits in
  \<open>i < n\<close>. The children have their numbers as positions in the list.
\<close>

definition recap_args :: "string list \<Rightarrow> int \<times> int \<times> int" where
  "recap_args argv =
     (if length argv > 1 then atoi (argv ! 1) else 100, if length argv > 2 then atoi (argv ! 2) else 10,
      if length argv > 3 then atoi (argv ! 3) else 3)"

definition forks :: "int \<Rightarrow> nat" where
  "forks n = unat (word_of_int n :: 32 word)"

definition recap_main :: "string list \<Rightarrow> recap" where
  "recap_main argv = (case recap_args argv of (n, m, t) \<Rightarrow>
     \<lparr>mpc = M_collect 0, main_waits_for_children = 0, children_wait_for_main = 0, critical_section = 1,
      end_children_activities = 0,
      children = replicate (forks n) \<lparr>cpc = Ch_post, threads = [], died = False, rounds = 0\<rparr>,
      accesses_log = [], unwritten = []\<rparr>)"

lemma create_named_semaphore_fresh:
  "create_named_semaphore True name value sems = Some (sems(name \<mapsto> value))"
  by (simp add: create_named_semaphore_def sem_open_excl_def)

text \<open>The semaphores that \<open>main\<close> creates, in its order, and \<open>main_process\<close> unlinks at the end.\<close>

definition recap_semaphores :: "bool \<Rightarrow> (string \<rightharpoonup> nat) \<Rightarrow> (string \<rightharpoonup> nat) option" where
  "recap_semaphores allowed sems =
     Option.bind (create_named_semaphore allowed ''/end_children_activities'' 0 sems) (\<lambda>sems.
     Option.bind (create_named_semaphore allowed ''/main_waits_for_children'' 0 sems) (\<lambda>sems.
     Option.bind (create_named_semaphore allowed ''/children_wait_for_main'' 0 sems) (\<lambda>sems.
     create_named_semaphore allowed ''/critical_section'' 1 sems)))"

definition recap_cleanup :: "(string \<rightharpoonup> nat) \<Rightarrow> (string \<rightharpoonup> nat)" where
  "recap_cleanup sems = sems(''/end_children_activities'' := None, ''/main_waits_for_children'' := None,
     ''/children_wait_for_main'' := None, ''/critical_section'' := None)"

text \<open>Whatever semaphores and file were left over, the programs start from the state above.\<close>

lemma recap_main_starts:
  assumes "recap_semaphores True sems = Some sems'"
  shows "sems' ''/main_waits_for_children'' = Some (main_waits_for_children (recap_main argv)) \<and>
    sems' ''/children_wait_for_main'' = Some (children_wait_for_main (recap_main argv)) \<and>
    sems' ''/critical_section'' = Some (critical_section (recap_main argv)) \<and>
    sems' ''/end_children_activities'' = Some (end_children_activities (recap_main argv)) \<and>
    init_file True name files name = Some (accesses_log (recap_main argv)) \<and>
    recap_cleanup sems' = recap_cleanup sems"
proof -
  have "sems' = sems(''/end_children_activities'' \<mapsto> 0, ''/main_waits_for_children'' \<mapsto> 0,
      ''/children_wait_for_main'' \<mapsto> 0, ''/critical_section'' \<mapsto> 1)"
    using assms by (simp add: recap_semaphores_def create_named_semaphore_fresh)
  then show ?thesis by (simp add: recap_main_def recap_args_def init_file_def recap_cleanup_def fun_eq_iff)
qed

section \<open>Invariants\<close>

definition crit :: "thread_pc \<Rightarrow> bool" where "crit t \<longleftrightarrow> t = Th_write \<or> t = Th_post"
definition accessed :: "thread_pc \<Rightarrow> bool" where "accessed t \<longleftrightarrow> t = Th_post \<or> t = Th_exit"
definition ready :: "child \<Rightarrow> bool" where "ready c \<longleftrightarrow> cpc c \<noteq> Ch_post"
definition started :: "child \<Rightarrow> bool" where "started c \<longleftrightarrow> cpc c \<noteq> Ch_post \<and> cpc c \<noteq> Ch_wait"

lemmas child_pred_defs = ready_def started_def terminated_def

fun collected :: "nat \<Rightarrow> main_pc \<Rightarrow> nat" where
  "collected n (M_collect i) = i" | "collected n p = n"

fun released :: "nat \<Rightarrow> main_pc \<Rightarrow> nat" where
  "released n (M_collect i) = 0" | "released n (M_release i) = i" | "released n p = n"

fun reaped :: "nat \<Rightarrow> main_pc \<Rightarrow> nat" where
  "reaped n (M_reap i) = i" | "reaped n M_read = n" | "reaped n p = 0"

text \<open>One process at most is in its critical section: the semaphore is the one free slot.\<close>

definition crit_inv :: "recap \<Rightarrow> bool" where
  "crit_inv s \<longleftrightarrow> critical_section s + sum_list (map (\<lambda>c. cnt crit (threads c)) (children s)) = 1"

text \<open>The two semaphores of the barrier, and the processes collected with \<open>wait\<close>.\<close>

definition barrier_inv :: "recap \<Rightarrow> bool" where
  "barrier_inv s \<longleftrightarrow> (let n = length (children s) in
     main_waits_for_children s + collected n (mpc s) = cnt ready (children s) \<and> collected n (mpc s) \<le> n \<and>
     children_wait_for_main s + cnt started (children s) = released n (mpc s) \<and> released n (mpc s) \<le> n \<and>
     reaped n (mpc s) \<le> cnt terminated (children s))"

text \<open>What the file says of child \<open>i\<close>.\<close>

definition child_inv :: "nat \<Rightarrow> recap \<Rightarrow> nat \<Rightarrow> child \<Rightarrow> bool" where
  "child_inv m s i c \<longleftrightarrow>
     count_list (accesses_log s) i + count_list (unwritten s) i = m * rounds c + cnt accessed (threads c) \<and>
     length (threads c) \<le> m \<and> (\<not> started c \<or> cpc c = Ch_end \<longrightarrow> threads c = []) \<and>
     (cpc c = Ch_join \<or> cpc c = Ch_check \<longrightarrow> length (threads c) = m) \<and>
     (cpc c = Ch_check \<longrightarrow> (\<forall>t \<in> set (threads c). t = Th_exit)) \<and> (cpc c = Ch_end \<longrightarrow> 0 < rounds c)"

definition log_inv :: "nat \<Rightarrow> recap \<Rightarrow> bool" where
  "log_inv m s \<longleftrightarrow> (\<forall>i < length (children s). child_inv m s i (children s ! i)) \<and>
     (\<forall>x \<in> set (accesses_log s) \<union> set (unwritten s). x < length (children s))"

lemma sum_list_map_update:
  "i < length xs \<Longrightarrow> sum_list (map f (xs[i := x])) + f (xs ! i) = sum_list (map f xs) + (f x :: nat)"
proof (induction xs arbitrary: i)
  case (Cons y ys)
  then show ?case by (cases i) auto
qed simp

text \<open>The steps, with what they change.\<close>

lemma thread_step_cases:
  assumes "thread_step i j written s = Some s'"
  obtains t s1 where "i < length (children s)" "j < length (threads (children s ! i))"
    "thread_function i written (threads (children s ! i) ! j) s = Some (t, s1)"
    "s' = s1\<lparr>children := (children s1)[i := (children s ! i)\<lparr>threads := (threads (children s ! i))[j := t]\<rparr>]\<rparr>"
  using assms by (auto simp: thread_step_def Let_def split: if_splits)

lemma recap_step_cases:
  assumes "recap_step m ev s = Some s'"
  obtains (main) "main_process s = Some s'"
  | (child) i c s1 where "i < length (children s)" "\<not> terminated (children s ! i)"
      "child_process m (children s ! i) s = Some (c, s1)" "s' = s1\<lparr>children := (children s1)[i := c]\<rparr>"
  | (dies) i where "i < length (children s)" "s' = s\<lparr>children := (children s)[i := (children s ! i)\<lparr>died := True\<rparr>]\<rparr>"
  | (thread) i j written where "thread_step i j written s = Some s'"
  using assms by (cases ev) (auto simp: recap_step_def split: if_splits)

lemma crit_inv_step:
  assumes "recap_step m ev s = Some s'" and "crit_inv s" and "log_inv m s"
  shows "crit_inv s'"
  using assms(1)
proof (cases rule: recap_step_cases)
  case main
  with assms(2) show ?thesis
    by (auto simp: crit_inv_def main_process_def Let_def split: main_pc.splits if_splits)
next
  case (child i c s1)
  have inv: "child_inv m s i (children s ! i)" using assms(3) child(1) by (simp add: log_inv_def)
  have "cnt crit (threads c) = cnt crit (threads (children s ! i)) \<and> critical_section s1 = critical_section s \<and>
    children s1 = children s"
    using child(3) inv by (auto simp: child_process_def child_inv_def crit_def cnt_zero_iff
        split: child_pc.splits if_splits)
  with child assms(2) sum_list_map_update [OF child(1), of "\<lambda>c. cnt crit (threads c)" c] show ?thesis
    by (simp add: crit_inv_def)
next
  case (dies i)
  with assms(2) sum_list_map_update [OF dies(1), of "\<lambda>c. cnt crit (threads c)" "(children s ! i)\<lparr>died := True\<rparr>"]
  show ?thesis by (simp add: crit_inv_def)
next
  case (thread i j written)
  from thread show ?thesis
  proof (cases rule: thread_step_cases)
    case (1 t s1)
    let ?c = "children s ! i"
    let ?c' = "?c\<lparr>threads := (threads ?c)[j := t]\<rparr>"
    have "critical_section s1 + cnt crit ((threads ?c)[j := t]) = critical_section s + cnt crit (threads ?c) \<and> children s1 = children s"
      using 1(3) cnt_update_bal [OF 1(2), of crit t]
      by (auto simp: thread_function_def crit_def split: thread_pc.splits if_splits)
    with 1 assms(2) sum_list_map_update [OF 1(1), of "\<lambda>c. cnt crit (threads c)" ?c'] show ?thesis
      by (simp add: crit_inv_def)
  qed
qed

lemma barrier_inv_step:
  assumes "recap_step m ev s = Some s'" and "barrier_inv s"
  shows "barrier_inv s'"
  using assms(1)
proof (cases rule: recap_step_cases)
  case main
  with assms(2) show ?thesis
    by (auto simp: barrier_inv_def main_process_def Let_def split: main_pc.splits if_splits)
next
  case (child i c s1)
  note bal = cnt_update_bal [OF child(1), of _ c]
  have "children s1 = children s \<and> mpc s1 = mpc s \<and>
    main_waits_for_children s1 + (if ready (children s ! i) then 1 else 0) =
      main_waits_for_children s + (if ready c then 1 else 0) \<and>
    children_wait_for_main s1 + (if started c then 1 else 0) =
      children_wait_for_main s + (if started (children s ! i) then 1 else 0)"
    using child(3) by (auto simp: child_process_def child_pred_defs split: child_pc.splits if_splits)
  with bal [of ready] bal [of started] bal [of terminated] child(2,4) assms(2) show ?thesis
    by (auto simp: barrier_inv_def Let_def split: if_splits)
next
  case (dies i)
  let ?c = "(children s ! i)\<lparr>died := True\<rparr>"
  have "ready ?c = ready (children s ! i)" "started ?c = started (children s ! i)" "terminated ?c"
    by (simp_all add: child_pred_defs)
  with cnt_update_bal [OF dies(1), of ready ?c] cnt_update_bal [OF dies(1), of started ?c]
    cnt_update_bal [OF dies(1), of terminated ?c] dies(2) assms(2) show ?thesis
    by (auto simp: barrier_inv_def Let_def split: if_splits)
next
  case (thread i j written)
  from thread show ?thesis
  proof (cases rule: thread_step_cases)
    case (1 t s1)
    let ?c = "(children s ! i)\<lparr>threads := (threads (children s ! i))[j := t]\<rparr>"
    have "ready ?c = ready (children s ! i)" "started ?c = started (children s ! i)" "terminated ?c = terminated (children s ! i)"
      by (simp_all add: child_pred_defs)
    moreover have "children s1 = children s \<and> mpc s1 = mpc s \<and> main_waits_for_children s1 = main_waits_for_children s \<and>
      children_wait_for_main s1 = children_wait_for_main s"
      using 1(3) by (auto simp: thread_function_def split: thread_pc.splits if_splits)
    ultimately show ?thesis using 1(1,4) assms(2)
      by (simp add: barrier_inv_def Let_def cnt_update_same)
  qed
qed

lemma child_inv_cong: "accesses_log s' = accesses_log s \<Longrightarrow> unwritten s' = unwritten s \<Longrightarrow> child_inv m s' i c = child_inv m s i c"
  by (simp add: child_inv_def)

lemma child_process_inv:
  assumes "child_process m c s = Some (c', s')" and "child_inv m s i c"
  shows "child_inv m s' i c'" "accesses_log s' = accesses_log s" "unwritten s' = unwritten s" "children s' = children s"
  using assms by (auto simp: child_process_def child_inv_def child_pred_defs accessed_def cnt_all
      split: child_pc.splits if_splits)

lemma thread_function_inv:
  assumes "thread_function i written (threads c ! j) s = Some (t, s')" and "child_inv m s i c" and "j < length (threads c)"
  shows "child_inv m s' i (c\<lparr>threads := (threads c)[j := t]\<rparr>)"
proof -
  have "threads c ! j \<noteq> Th_exit" using assms(1) by (auto simp: thread_function_def)
  then have "cpc c \<noteq> Ch_check" using assms(2,3) by (auto simp: child_inv_def)
  moreover have "threads c \<noteq> []" using assms(3) by auto
  ultimately show ?thesis
    using assms cnt_update_bal [OF assms(3), of accessed t]
    by (auto simp: child_inv_def thread_function_def accessed_def child_pred_defs split: thread_pc.splits if_splits)
qed

lemma thread_function_others:
  assumes "thread_function i written t0 s = Some (t, s')"
  shows "children s' = children s" "k \<noteq> i \<Longrightarrow> child_inv m s' k c = child_inv m s k c"
    "set (accesses_log s') \<union> set (unwritten s') \<subseteq> insert i (set (accesses_log s) \<union> set (unwritten s))"
  using assms by (auto simp: thread_function_def child_inv_def split: thread_pc.splits if_splits)

lemma log_inv_step:
  assumes "recap_step m ev s = Some s'" and "log_inv m s"
  shows "log_inv m s'"
  using assms(1)
proof (cases rule: recap_step_cases)
  case main
  then have "children s' = children s" "accesses_log s' = accesses_log s" "unwritten s' = unwritten s"
    by (auto simp: main_process_def Let_def split: main_pc.splits if_splits)
  with assms(2) show ?thesis by (simp add: log_inv_def child_inv_def)
next
  case (child i c s1)
  have "child_inv m s i (children s ! i)" using assms(2) child(1) by (simp add: log_inv_def)
  from child_process_inv [OF child(3) this] child(1,4) assms(2) show ?thesis
    by (auto simp: log_inv_def nth_list_update child_inv_def)
next
  case (dies i)
  with assms(2) show ?thesis by (auto simp: log_inv_def nth_list_update child_inv_def child_pred_defs)
next
  case (thread i j written)
  from thread show ?thesis
  proof (cases rule: thread_step_cases)
    case (1 t s1)
    let ?c = "(children s ! i)\<lparr>threads := (threads (children s ! i))[j := t]\<rparr>"
    have "child_inv m s1 i ?c"
      using thread_function_inv [OF 1(3) _ 1(2)] assms(2) 1(1) by (simp add: log_inv_def)
    moreover have "child_inv m s1 k (children s ! k)" if "k < length (children s)" "k \<noteq> i" for k
      using thread_function_others(2) [OF 1(3)] assms(2) that by (simp add: log_inv_def)
    moreover have s': "children s' = (children s)[i := ?c]" "accesses_log s' = accesses_log s1" "unwritten s' = unwritten s1"
      using 1(4) thread_function_others(1) [OF 1(3)] by simp_all
    ultimately have "\<forall>k < length (children s'). child_inv m s' k (children s' ! k)"
      using 1(1) by (simp add: nth_list_update child_inv_cong [OF s'(2,3)])
    moreover have "\<forall>x \<in> set (accesses_log s') \<union> set (unwritten s'). x < length (children s')"
      using thread_function_others(3) [OF 1(3)] assms(2) 1(1) unfolding s' log_inv_def by auto
    ultimately show ?thesis by (simp add: log_inv_def)
  qed
qed

lemma recap_main_inv: "crit_inv (recap_main argv)" "barrier_inv (recap_main argv)" "log_inv m (recap_main argv)"
  by (auto simp: crit_inv_def barrier_inv_def log_inv_def child_inv_def recap_main_def child_pred_defs
      sum_list_replicate Let_def split: prod.splits)

lemma recap_inv:
  assumes "recap_reaches m (recap_main argv) s"
  shows "crit_inv s \<and> barrier_inv s \<and> log_inv m s"
  using assms
proof (induction rule: recap_reaches.induct)
  case start
  then show ?case by (simp add: recap_main_inv)
next
  case (step t ev u)
  with crit_inv_step barrier_inv_step log_inv_step show ?case by blast
qed

section \<open>What the main process reports\<close>

text \<open>
  The loop that counts: each answer of \<open>read\<close> is a number, or a failure (\<open>None\<close>): \<open>read_bytes\<close> is a
  \<open>size_t\<close>, a failure counts as positive, and the last number is counted again (at first, the
  variable has not been set).
\<close>

fun count_loop :: "nat option list \<Rightarrow> nat option \<Rightarrow> nat list \<Rightarrow> nat list option" where
  "count_loop [] read_byte stats = Some stats"
| "count_loop (a # as) read_byte stats =
     (case (if a = None then read_byte else a) of
        None \<Rightarrow> None
      | Some i \<Rightarrow> if i < length stats then count_loop as (Some i) (stats[i := stats ! i + 1]) else None)"

fun max_loop :: "nat \<Rightarrow> nat list \<Rightarrow> int \<times> int \<Rightarrow> int \<times> int" where
  "max_loop i [] best = best"
| "max_loop i (x # xs) best =
     max_loop (i + 1) xs (if int x > snd best then (int i, int x) else best)"

definition report :: "nat \<Rightarrow> nat option list \<Rightarrow> (nat list \<times> int \<times> int) option" where
  "report n reads = map_option (\<lambda>stats. (stats, max_loop 0 stats (-1, -1))) (count_loop reads None (replicate n 0))"

lemma count_loop_counts:
  assumes "\<forall>x \<in> set xs. x < length stats"
  shows "count_loop (map Some xs) r stats = Some (map (\<lambda>i. stats ! i + count_list xs i) [0 ..< length stats])"
  using assms
proof (induction xs arbitrary: r stats)
  case Nil
  then show ?case by (simp add: map_nth)
next
  case (Cons x xs)
  then show ?case by (auto simp: nth_list_update intro!: map_cong)
qed

lemma max_loop_best:
  assumes "max_loop i xs b = (k, v)"
  shows "snd b \<le> v \<and> (\<forall>x \<in> set xs. int x \<le> v) \<and>
    ((k, v) = b \<or> (\<exists>j < length xs. k = int (i + j) \<and> v = int (xs ! j) \<and> snd b < v \<and> (\<forall>l < j. xs ! l < xs ! j)))"
  using assms
proof (induction xs arbitrary: i b)
  case (Cons x xs)
  let ?b = "if int x > snd b then (int i, int x) else b"
  from Cons.prems have "max_loop (i + 1) xs ?b = (k, v)" by simp
  note IH = Cons.IH [OF this]
  have le: "snd b \<le> snd ?b" "int x \<le> snd ?b" by auto
  show ?case
  proof (cases "(k, v) = ?b")
    case True
    have "(k, v) = b \<or> (\<exists>j < length (x # xs). k = int (i + j) \<and> v = int ((x # xs) ! j) \<and> snd b < v \<and> (\<forall>l < j. (x # xs) ! l < (x # xs) ! j))"
      using True by (cases "int x > snd b") (auto intro!: exI [of _ 0])
    with IH le True show ?thesis by auto
  next
    case False
    with IH obtain j where j: "j < length xs" "k = int (i + 1 + j)" "v = int (xs ! j)" "snd ?b < v" "\<forall>l < j. xs ! l < xs ! j"
      by auto
    have "\<forall>l < Suc j. (x # xs) ! l < (x # xs) ! Suc j"
      using j le by (auto simp: nth_Cons split: nat.splits)
    with IH le j show ?thesis by (auto intro!: exI [of _ "Suc j"])
  qed
qed simp

section \<open>Properties\<close>


definition two_children :: "string list" where "two_children = [''riepilogo'', ''2'', ''1'']"

definition recap_demo :: "recap_event list" where
  "recap_demo = [Child 0, Child 1, Main, Main, Main, Main, Main, Main, Child 0, Child 1, Child 0, Child 0, Thread 0 0,
     Child 1, Thread 0 0, Thread 0 0, Thread 1 0, Child 0, Child 0, Thread 1 0, Thread 1 0, Child 1, Child 1,
     Child 0, Child 0, Thread 0 0, Thread 0 0, Thread 0 0, Main, Child 0, Child 0, Child 1, Main, Main, Main]"

lemma forks_two: "length (children (recap_main two_children)) = 2"
  by code_simp

lemma recap_demo_run:
  obtains s where "recap_reaches 1 (recap_main two_children) s" and "mpc s = M_read" and "accesses_log s = [0, 1, 0]"
    and "\<forall>c \<in> set (children s). \<not> died c" and "unwritten s = []" and "length (children s) = 2"
proof -
  have "map_option (\<lambda>s. (mpc s, accesses_log s, map died (children s), unwritten s)) (run_recap 1 recap_demo (recap_main two_children))
     = Some (M_read, [0, 1, 0], [False, False], [])" by code_simp
  then obtain s where "run_recap 1 recap_demo (recap_main two_children) = Some s"
    and s: "mpc s = M_read" "accesses_log s = [0, 1, 0]" "map died (children s) = [False, False]" "unwritten s = []"
    by (auto simp: map_option_eq_Some)
  moreover from s(3) have "\<forall>c \<in> set (children s). \<not> died c" by (auto simp: map_eq_Cons_conv)
  moreover have "length (children s) = 2" using arg_cong [OF s(3), of length] by simp
  ultimately show ?thesis using that run_recap_reaches [OF recap_reaches.start] by blast
qed




text \<open>
  C38: \<open>riepilogo.c\<close>: when the main process reads the file and no process has died, it reports for
  every child \<open>m\<close> accesses per round, less the failed calls of \<open>write\<close>, and at least one round; the
  child it names is the first of those with the most accesses.
\<close>

theorem recap_report:
  assumes "recap_reaches m (recap_main argv) s" and "mpc s = M_read" and "\<forall>c \<in> set (children s). \<not> died c"
    and "children s \<noteq> []" and "n = length (children s)"
  shows "\<exists>stats k v. report n (map Some (accesses_log s)) = Some (stats, int k, int v) \<and> length stats = n \<and>
    (\<forall>i < n. stats ! i + count_list (unwritten s) i = m * rounds (children s ! i) \<and> 0 < rounds (children s ! i)) \<and>
    k < n \<and> v = stats ! k \<and> (\<forall>i < n. stats ! i \<le> v) \<and> (\<forall>i < k. stats ! i < v)"
proof -
  have inv: "barrier_inv s" "log_inv m s" using recap_inv [OF assms(1)] by blast+
  have "cnt terminated (children s) = n"
    using inv(1) assms(2,5) cnt_le_length [of terminated "children s"] by (simp add: barrier_inv_def Let_def)
  then have "\<forall>c \<in> set (children s). terminated c"
    using sum_length_filter_compl [of terminated "children s"] assms(5) by (auto simp: cnt_def filter_empty_conv)
  with assms(3) have ended: "\<forall>i < n. cpc (children s ! i) = Ch_end" using assms(5) by (auto simp: terminated_def)
  let ?stats = "map (\<lambda>i. count_list (accesses_log s) i) [0 ..< n]"
  obtain k0 v0 where best: "max_loop 0 ?stats (-1, -1) = (k0, v0)" by fastforce
  have "count_loop (map Some (accesses_log s)) None (replicate n 0) = Some ?stats"
    using count_loop_counts [of "accesses_log s" "replicate n 0" None] inv(2) assms(5) by (auto simp: log_inv_def)
  then have rep: "report n (map Some (accesses_log s)) = Some (?stats, k0, v0)" using best by (simp add: report_def)
  have "0 < n" using assms(4,5) by simp
  then have "?stats ! 0 \<in> set ?stats" by (intro nth_mem) simp
  then have "int (?stats ! 0) \<le> v0" using max_loop_best [OF best] by blast
  then have "(k0, v0) \<noteq> (-1, -1)" by auto
  with max_loop_best [OF best] obtain k where k: "k < n" "k0 = int k" "v0 = int (?stats ! k)" "\<forall>l < k. ?stats ! l < ?stats ! k"
    "\<forall>x \<in> set ?stats. int x \<le> v0" by auto
  have "\<forall>i < n. ?stats ! i + count_list (unwritten s) i = m * rounds (children s ! i) \<and> 0 < rounds (children s ! i)"
    using inv(2) ended assms(5) by (auto simp: log_inv_def child_inv_def)
  with rep k show ?thesis by (intro exI [of _ ?stats] exI [of _ k] exI [of _ "?stats ! k"]) auto
qed

theorem recap_report_witness:
  "\<exists>s stats k v. recap_reaches 1 (recap_main two_children) s \<and> accesses_log s = [0, 1, 0] \<and>
    report 2 (map Some (accesses_log s)) = Some (stats, int k, int v) \<and> v = stats ! k"
proof -
  obtain s where s: "recap_reaches 1 (recap_main two_children) s" "mpc s = M_read" "accesses_log s = [0, 1, 0]"
    "\<forall>c \<in> set (children s). \<not> died c" "length (children s) = 2" by (rule recap_demo_run)
  from s(5) have "children s \<noteq> []" by auto
  from recap_report [OF s(1,2,4) this s(5) [symmetric]] s show ?thesis by blast
qed

text \<open>Who can move.\<close>

lemma thread_moves:
  assumes "i < length (children s)" and "\<not> died (children s ! i)" and "t \<in> set (threads (children s ! i))"
    and "crit t \<or> t = Th_wait \<and> critical_section s \<noteq> 0"
  shows "\<exists>ev s'. recap_step m ev s = Some s'"
proof -
  from assms(3) obtain j where j: "j < length (threads (children s ! i))" "threads (children s ! i) ! j = t"
    by (auto simp: in_set_conv_nth)
  have "thread_function i True t s \<noteq> None" using assms(4) by (cases t) (auto simp: thread_function_def crit_def)
  with j assms(1,2) have "recap_step m (Thread i j) s \<noteq> None" by (simp add: recap_step_def thread_step_def Let_def)
  then show ?thesis by blast
qed

lemma child_moves:
  assumes "i < length (children s)" and "\<not> terminated (children s ! i)" and "cpc (children s ! i) = Ch_wait \<longrightarrow> children_wait_for_main s \<noteq> 0"
    and "\<forall>t \<in> set (threads (children s ! i)). t = Th_exit"
  shows "\<exists>ev s'. recap_step m ev s = Some s'"
proof -
  have "child_process m (children s ! i) s \<noteq> None"
    using assms(2-4) by (cases "cpc (children s ! i)") (auto simp: child_process_def terminated_def)
  with assms(1,2) have "recap_step m (Child i) s \<noteq> None" by (simp add: recap_step_def)
  then show ?thesis by blast
qed

lemma main_moves:
  assumes "barrier_inv s" and "mpc s \<noteq> M_read"
    and "\<forall>c \<in> set (children s). ready c" and "(\<exists>i. mpc s = M_reap i) \<longrightarrow> (\<forall>c \<in> set (children s). terminated c)"
  shows "\<exists>ev s'. recap_step m ev s = Some s'"
proof -
  have "main_process s \<noteq> None"
  proof (cases "mpc s")
    case (M_collect i)
    moreover have "cnt ready (children s) = length (children s)" using assms(3) by (intro cnt_all) blast
    ultimately show ?thesis using assms(1) by (auto simp: main_process_def barrier_inv_def Let_def)
  next
    case (M_reap i)
    moreover from this assms(4) have "cnt terminated (children s) = length (children s)" by (intro cnt_all) blast
    ultimately show ?thesis using assms(1) by (auto simp: main_process_def barrier_inv_def Let_def)
  qed (use assms(2) in \<open>auto simp: main_process_def Let_def\<close>)
  then have "recap_step m Main s \<noteq> None" by (simp add: recap_step_def)
  then show ?thesis by blast
qed



end
