(* ===== verification/Scheduler.thy ===== *)
theory Scheduler
  imports Recap
begin

text \<open>
  The resource schedulers: lab03 (\<open>scheduler_solution.c\<close>: threads of one process, two work items
  for each acquisition) and lab04 (\<open>named_semaphore\<close>: clients and a server that prints how many
  resources are in use). The locale \<open>resource_pool\<close> is what a thread body has to respect for the
  semaphore to limit the holders; both bodies interpret it.
\<close>

definition NUM_RESOURCES :: nat where "NUM_RESOURCES = 3"
definition NUM_TASKS :: nat where "NUM_TASKS = 3"
definition THREAD_BURST :: nat where "THREAD_BURST = 5"

section \<open>Threads, semaphore and driver\<close>

record 'th pool =
  sem_value :: nat
  pool_threads :: "'th list"
  next_ID :: nat
  driver_done :: bool  \<comment> \<open>the loop of \<open>main\<close> has ended\<close>
  process_exited :: bool

datatype pool_event = Key char | Eof | Runs nat | Fails nat

text \<open>
  \<open>body t v\<close> is the next statement of a thread in state \<open>t\<close> when the semaphore has the value \<open>v\<close>;
  \<open>goes_on\<close> says whether the threads outlive \<open>main\<close> (\<open>pthread_exit\<close>) or end with it. \<open>Fails\<close>: a call
  of the thread fails and it calls \<open>exit\<close>. \<open>getchar\<close> returns one character at a time.
\<close>

definition pool_step :: "('th \<Rightarrow> nat \<Rightarrow> ('th \<times> nat) option) \<Rightarrow> (nat \<Rightarrow> 'th) \<Rightarrow> bool \<Rightarrow> pool_event \<Rightarrow> 'th pool \<Rightarrow> 'th pool option" where
  "pool_step body new goes_on ev p =
     (if process_exited p then None
      else (case ev of
        Key c \<Rightarrow> if driver_done p then None
          else if c \<noteq> CHR 0x0A then Some p
          else Some (p\<lparr>pool_threads := pool_threads p @ map new [next_ID p ..< next_ID p + THREAD_BURST],
                       next_ID := next_ID p + THREAD_BURST\<rparr>)
      | Eof \<Rightarrow> if driver_done p then None else Some (p\<lparr>driver_done := True, process_exited := \<not> goes_on\<rparr>)
      | Runs i \<Rightarrow> if i < length (pool_threads p) then
            map_option (\<lambda>(t, v). p\<lparr>pool_threads := (pool_threads p)[i := t], sem_value := v\<rparr>)
              (body (pool_threads p ! i) (sem_value p))
          else None
      | Fails i \<Rightarrow> if i < length (pool_threads p) then Some (p\<lparr>process_exited := True\<rparr>) else None))"

inductive pool_reaches :: "('th \<Rightarrow> nat \<Rightarrow> ('th \<times> nat) option) \<Rightarrow> (nat \<Rightarrow> 'th) \<Rightarrow> bool \<Rightarrow> 'th pool \<Rightarrow> 'th pool \<Rightarrow> bool"
  for body new goes_on p where
  start: "pool_reaches body new goes_on p p"
| step: "pool_reaches body new goes_on p q \<Longrightarrow> pool_step body new goes_on ev q = Some r \<Longrightarrow> pool_reaches body new goes_on p r"

fun run_pool :: "('th \<Rightarrow> nat \<Rightarrow> ('th \<times> nat) option) \<Rightarrow> (nat \<Rightarrow> 'th) \<Rightarrow> bool \<Rightarrow> pool_event list \<Rightarrow> 'th pool \<Rightarrow> 'th pool option" where
  "run_pool body new goes_on [] p = Some p"
| "run_pool body new goes_on (ev # evs) p = (case pool_step body new goes_on ev p of
     None \<Rightarrow> None | Some q \<Rightarrow> run_pool body new goes_on evs q)"

lemma run_pool_reaches:
  "pool_reaches body new g p q \<Longrightarrow> run_pool body new g evs q = Some r \<Longrightarrow> pool_reaches body new g p r"
  by (induction evs arbitrary: q) (auto split: option.splits intro: pool_reaches.step)

definition idle_pool :: "'th pool" where
  "idle_pool = \<lparr>sem_value = NUM_RESOURCES, pool_threads = [], next_ID = 0, driver_done = False, process_exited = False\<rparr>"

section \<open>The contract of a thread\<close>

text \<open>
  A thread takes a unit of the semaphore when it begins to hold a resource and gives it back when
  it ends; what it keeps of its own (\<open>ok\<close>) is kept by every statement.
\<close>

locale resource_pool =
  fixes body :: "'th \<Rightarrow> nat \<Rightarrow> ('th \<times> nat) option" and new :: "nat \<Rightarrow> 'th"
    and holds :: "'th \<Rightarrow> bool" and ok :: "'th \<Rightarrow> bool"
  assumes balance: "body t v = Some (t', v') \<Longrightarrow> v' + (if holds t' then 1 else 0) = v + (if holds t then 1 else 0)"
    and ok_kept: "body t v = Some (t', v') \<Longrightarrow> ok t \<Longrightarrow> ok t'"
    and new_ok: "\<not> holds (new i)" "ok (new i)"
begin

lemma holders:
  assumes "pool_reaches body new g idle_pool p"
  shows "sem_value p + cnt holds (pool_threads p) = NUM_RESOURCES \<and> (\<forall>t \<in> set (pool_threads p). ok t)"
  using assms
proof (induction rule: pool_reaches.induct)
  case start
  then show ?case by (simp add: idle_pool_def)
next
  case (step q ev r)
  show ?case
  proof (cases ev)
    case (Key c)
    moreover have "cnt holds (map new [next_ID q ..< next_ID q + THREAD_BURST]) = 0" by (simp add: cnt_zero_iff new_ok)
    ultimately show ?thesis using step by (auto simp: pool_step_def new_ok split: if_splits)
  next
    case (Runs i)
    with step.hyps(2) obtain t v where t: "i < length (pool_threads q)" "body (pool_threads q ! i) (sem_value q) = Some (t, v)"
      "r = q\<lparr>pool_threads := (pool_threads q)[i := t], sem_value := v\<rparr>" by (auto simp: pool_step_def split: if_splits)
    have "ok t" using ok_kept [OF t(2)] step.IH t(1) by simp
    with t step.IH balance [OF t(2)] cnt_update_bal [OF t(1), of holds t] show ?thesis
      by (auto dest!: others_unchanged split: if_splits)
  qed (use step in \<open>auto simp: pool_step_def split: if_splits\<close>)
qed

end

section \<open>lab03\<close>

datatype client_pc = S_while | S_wait | S_work1 | S_work2 | S_post | S_return

text \<open>\<open>worked\<close> and \<open>acquired\<close> count the work items done and the acquisitions.\<close>

record client_thread =
  client_pc :: client_pc
  client_ID :: nat
  num_tasks :: nat
  client_i :: nat
  worked :: nat
  acquired :: nat

definition sched_client :: "client_thread \<Rightarrow> nat \<Rightarrow> (client_thread \<times> nat) option" where
  "sched_client t v = (case client_pc t of
     S_while \<Rightarrow> Some (t\<lparr>client_pc := if client_i t < num_tasks t then S_wait else S_return\<rparr>, v)
   | S_wait \<Rightarrow> if v = 0 then None else Some (t\<lparr>client_pc := S_work1, acquired := acquired t + 1\<rparr>, v - 1)
   | S_work1 \<Rightarrow> Some (t\<lparr>client_pc := S_work2, worked := worked t + 1, client_i := client_i t + 1\<rparr>, v)
   | S_work2 \<Rightarrow> Some (t\<lparr>client_pc := S_post, worked := (if client_i t \<noteq> num_tasks t then worked t + 1 else worked t),
       client_i := client_i t + 1\<rparr>, v)
   | S_post \<Rightarrow> Some (t\<lparr>client_pc := S_while\<rparr>, v + 1)
   | S_return \<Rightarrow> None)"

definition sched_new :: "nat \<Rightarrow> client_thread" where
  "sched_new i = \<lparr>client_pc = S_while, client_ID = i, num_tasks = NUM_TASKS, client_i = 0, worked = 0, acquired = 0\<rparr>"

definition sched_holds :: "client_thread \<Rightarrow> bool" where
  "sched_holds t \<longleftrightarrow> client_pc t = S_work1 \<or> client_pc t = S_work2 \<or> client_pc t = S_post"

definition sched_ok :: "client_thread \<Rightarrow> bool" where
  "sched_ok t \<longleftrightarrow> worked t = min (client_i t) (num_tasks t) \<and>
     (case client_pc t of
        S_while \<Rightarrow> client_i t = 2 * acquired t \<and> client_i t \<le> num_tasks t + 1
      | S_wait \<Rightarrow> client_i t = 2 * acquired t \<and> client_i t < num_tasks t
      | S_work1 \<Rightarrow> client_i t + 2 = 2 * acquired t \<and> client_i t < num_tasks t
      | S_work2 \<Rightarrow> client_i t + 1 = 2 * acquired t \<and> client_i t \<le> num_tasks t
      | S_post \<Rightarrow> client_i t = 2 * acquired t \<and> client_i t \<le> num_tasks t + 1
      | S_return \<Rightarrow> client_i t = 2 * acquired t \<and> num_tasks t \<le> client_i t \<and> client_i t \<le> num_tasks t + 1)"

interpretation lab03: resource_pool sched_client sched_new sched_holds sched_ok
  by unfold_locales
    (auto simp: sched_client_def sched_holds_def sched_ok_def sched_new_def split: client_pc.splits if_splits)

section \<open>lab04\<close>

datatype named_pc = N_open | N_wait | N_work | N_post | N_close | N_return

text \<open>\<open>sem_open\<close> without \<open>O_CREAT\<close> succeeds while the server is running; otherwise the thread fails.\<close>

definition named_client :: "named_pc \<Rightarrow> nat \<Rightarrow> (named_pc \<times> nat) option" where
  "named_client t v = (case t of
     N_open \<Rightarrow> Some (N_wait, v)
   | N_wait \<Rightarrow> if v = 0 then None else Some (N_work, v - 1)
   | N_work \<Rightarrow> Some (N_post, v)
   | N_post \<Rightarrow> Some (N_close, v + 1)
   | N_close \<Rightarrow> Some (N_return, v)
   | N_return \<Rightarrow> None)"

definition named_holds :: "named_pc \<Rightarrow> bool" where "named_holds t \<longleftrightarrow> t = N_work \<or> t = N_post"

interpretation lab04: resource_pool named_client "\<lambda>i. N_open" named_holds "\<lambda>t. True"
  by unfold_locales (auto simp: named_client_def named_holds_def split: named_pc.splits if_splits)

text \<open>
  The server: it creates the semaphore (unlinking an old one), then prints the two numbers of
  \<open>"%d resources are available and %d are in use"\<close> every second; \<open>cleanup\<close> unlinks the semaphore.
\<close>

definition named_server_create :: "bool \<Rightarrow> (string \<rightharpoonup> nat) \<Rightarrow> (string \<rightharpoonup> nat) option" where
  "named_server_create allowed sems =
     (case sem_open_excl allowed ''/simple_scheduler'' NUM_RESOURCES sems of
        Some sems \<Rightarrow> Some sems
      | None \<Rightarrow> if sems ''/simple_scheduler'' \<noteq> None
          then sem_open_excl allowed ''/simple_scheduler'' NUM_RESOURCES (sems(''/simple_scheduler'' := None)) else None)"

definition named_server_stats :: "nat \<Rightarrow> int \<times> int" where
  "named_server_stats current_value = (int current_value, int NUM_RESOURCES - int current_value)"

definition cleanup :: "(string \<rightharpoonup> nat) \<Rightarrow> (string \<rightharpoonup> nat)" where
  "cleanup sems = sems(''/simple_scheduler'' := None)"

lemma named_server_cycle:
  "map_option cleanup (named_server_create True sems) = Some (cleanup sems)"
  "named_server_create True sems = Some (sems(''/simple_scheduler'' \<mapsto> NUM_RESOURCES))"
  by (auto simp: named_server_create_def sem_open_excl_def cleanup_def)

section \<open>Properties\<close>

text \<open>
  C29: the scheduler of lab03, in every interleaving: at most three threads hold a resource, and
  a thread that has returned has done all of its work items, with one acquisition for every two.
\<close>

theorem scheduler_tasks:
  assumes "pool_reaches sched_client sched_new False idle_pool p"
  shows "cnt sched_holds (pool_threads p) \<le> NUM_RESOURCES \<and>
    (\<forall>t \<in> set (pool_threads p). client_pc t = S_return \<longrightarrow>
       worked t = num_tasks t \<and> acquired t = (num_tasks t + 1) div 2)"
proof -
  have "acquired t = (num_tasks t + 1) div 2 \<and> worked t = num_tasks t" if "sched_ok t" "client_pc t = S_return" for t
    using that by (auto simp: sched_ok_def)
  with lab03.holders [OF assms] show ?thesis by auto
qed

theorem scheduler_tasks_witness:
  "\<exists>p. pool_reaches sched_client sched_new False idle_pool p \<and> length (pool_threads p) = 5 \<and>
    cnt sched_holds (pool_threads p) \<le> NUM_RESOURCES \<and> client_pc (pool_threads p ! 0) = S_return \<and> worked (pool_threads p ! 0) = num_tasks (pool_threads p ! 0)"
proof -
  let ?evs = "Key CHR 0x41 # Key CHR 0x0A # replicate 11 (Runs 0) @ [Runs 1, Runs 1]"
  have "map_option (\<lambda>p. (length (pool_threads p), client_pc (pool_threads p ! 0)))
      (run_pool sched_client sched_new False ?evs idle_pool) = Some (5, S_return)" by code_simp
  then obtain p where run: "run_pool sched_client sched_new False ?evs idle_pool = Some p"
    and p: "length (pool_threads p) = 5" "client_pc (pool_threads p ! 0) = S_return"
    by (auto simp: map_option_eq_Some)
  have r: "pool_reaches sched_client sched_new False idle_pool p"
    by (rule run_pool_reaches [OF pool_reaches.start run])
  have "pool_threads p ! 0 \<in> set (pool_threads p)" using p(1) by simp
  with scheduler_tasks [OF r] r p show ?thesis by blast
qed

text \<open>
  The server of lab04, in every interleaving of the clients' threads: the second number it
  prints is the number of threads that hold a resource, and both numbers are between 0 and 3.
\<close>

theorem named_in_use:
  assumes "pool_reaches named_client (\<lambda>i. N_open) True idle_pool p"
    and "named_server_stats (sem_value p) = (available, in_use)"
  shows "in_use = int (cnt named_holds (pool_threads p)) \<and> 0 \<le> available \<and> 0 \<le> in_use \<and>
    available + in_use = int NUM_RESOURCES"
  using lab04.holders [OF assms(1)] assms(2) by (auto simp: named_server_stats_def)

theorem named_in_use_witness:
  "\<exists>p. pool_reaches named_client (\<lambda>i. N_open) True idle_pool p \<and> named_server_stats (sem_value p) = (1, 2) \<and>
    cnt named_holds (pool_threads p) = 2"
proof -
  let ?evs = "Key CHR 0x0A # [Runs 0, Runs 1, Runs 1, Runs 0, Eof, Runs 0]"
  have "map_option sem_value (run_pool named_client (\<lambda>i. N_open) True ?evs idle_pool) = Some 1" by code_simp
  then obtain p where run: "run_pool named_client (\<lambda>i. N_open) True ?evs idle_pool = Some p" and "sem_value p = 1"
    by (auto simp: map_option_eq_Some)
  then have s: "named_server_stats (sem_value p) = (1, 2)" by (simp add: named_server_stats_def NUM_RESOURCES_def)
  have r: "pool_reaches named_client (\<lambda>i. N_open) True idle_pool p"
    by (rule run_pool_reaches [OF pool_reaches.start run])
  from named_in_use [OF r s] r s show ?thesis by auto
qed

end
