(* ===== verification/Named_Server.thy ===== *)
theory Named_Server
  imports Scheduler
begin

text \<open>
  \<open>lab04-recap+named-semaphore/named_semaphore\<close> as a system: the server, any number of client processes
  with their threads, and the semaphores of the kernel. A semaphore lives on for those who have
  opened it when its name is unlinked, so that semaphores are objects, and the name refers to one
  of them or to none. The server may be started again when it has ended.
\<close>

section \<open>State\<close>

datatype server_pc = V_create  \<comment> \<open>\<open>sem_open(..., O_CREAT | O_EXCL, ...)\<close>\<close>
  | V_handler  \<comment> \<open>\<open>setQuitHandler(&cleanup)\<close>\<close>
  | V_loop  \<comment> \<open>the loop that prints the statistics\<close>
  | V_exit int | V_killed

record client_proc =
  thread_ID :: nat
  input_ended :: bool
  client_exited :: bool

record thread =
  owner :: nat  \<comment> \<open>its process\<close>
  thread_pc :: named_pc
  my_named_semaphore :: nat

text \<open>\<open>cleanupFunction\<close>: the handler is installed. \<open>statistics\<close>: the lines printed.\<close>

record named_system =
  sem_values :: "nat list"  \<comment> \<open>of all semaphores ever created\<close>
  named :: "nat option"  \<comment> \<open>what \<open>SEMAPHORE_NAME\<close> refers to\<close>
  server_pc :: server_pc
  named_semaphore :: nat  \<comment> \<open>the server's\<close>
  cleanupFunction :: bool
  statistics :: "(int \<times> int) list"
  clients :: "client_proc list"
  named_threads :: "thread list"

section \<open>The server\<close>

text \<open>\<open>sem_open\<close>: a name that exists is unlinked, and the semaphore is created in the second attempt.\<close>

definition create_semaphore :: "named_system \<Rightarrow> named_system" where
  "create_semaphore s =
     (let s = (if named s = None then s else s\<lparr>named := None\<rparr>) in
      s\<lparr>sem_values := sem_values s @ [NUM_RESOURCES], named := Some (length (sem_values s)), named_semaphore := length (sem_values s)\<rparr>)"

definition setQuitHandler :: "named_system \<Rightarrow> named_system" where
  "setQuitHandler s = s\<lparr>cleanupFunction := True\<rparr>"

text \<open>\<open>cleanup\<close> calls \<open>exit(0)\<close>; without the handler the signal kills the process.\<close>

definition server_cleanup :: "named_system \<Rightarrow> named_system" where
  "server_cleanup s = s\<lparr>named := None, server_pc := V_exit 0\<rparr>"

definition sigint_handler :: "named_system \<Rightarrow> named_system" where
  "sigint_handler s = (if cleanupFunction s then server_cleanup s else s\<lparr>server_pc := V_killed\<rparr>)"

definition running :: "server_pc \<Rightarrow> bool" where
  "running v \<longleftrightarrow> v = V_create \<or> v = V_handler \<or> v = V_loop"

definition server_main :: "named_system \<Rightarrow> named_system option" where
  "server_main s = (case server_pc s of
     V_create \<Rightarrow> Some ((create_semaphore s)\<lparr>server_pc := V_handler\<rparr>)
   | V_handler \<Rightarrow> Some ((setQuitHandler s)\<lparr>server_pc := V_loop\<rparr>)
   | V_loop \<Rightarrow> Some (s\<lparr>statistics := statistics s @ [named_server_stats (sem_values s ! named_semaphore s)]\<rparr>)
   | _ \<Rightarrow> None)"

text \<open>A call fails: \<open>sem_open\<close> for another reason than \<open>EEXIST\<close>, or \<open>sem_getvalue\<close>.\<close>

definition server_fails :: "named_system \<Rightarrow> named_system option" where
  "server_fails s = (case server_pc s of
     V_create \<Rightarrow> Some (s\<lparr>server_pc := V_exit 1\<rparr>)
   | V_loop \<Rightarrow> Some (s\<lparr>server_pc := V_exit 1\<rparr>)
   | _ \<Rightarrow> None)"

section \<open>The clients\<close>

definition SEMAPHORE_BURST :: nat where "SEMAPHORE_BURST = 5"

text \<open>
  \<open>main\<close> of a client: a key, or the end of the input; \<open>pthread_exit\<close> lets the threads go on.
\<close>

definition client_main :: "nat \<Rightarrow> char option \<Rightarrow> named_system \<Rightarrow> named_system option" where
  "client_main p key s =
     (if p < length (clients s) \<and> \<not> input_ended (clients s ! p) \<and> \<not> client_exited (clients s ! p) then
        (let c = clients s ! p in case key of
           None \<Rightarrow> Some (s\<lparr>clients := (clients s)[p := c\<lparr>input_ended := True\<rparr>]\<rparr>)
         | Some k \<Rightarrow> if k \<noteq> CHR 0x0A then Some s
             else Some (s\<lparr>clients := (clients s)[p := c\<lparr>thread_ID := thread_ID c + SEMAPHORE_BURST\<rparr>],
                 named_threads := named_threads s @ replicate SEMAPHORE_BURST
                   \<lparr>owner = p, thread_pc = N_open, my_named_semaphore = 0\<rparr>\<rparr>))
      else None)"

text \<open>A process ends through \<open>exit(1)\<close>, or is killed.\<close>

definition client_exit :: "nat \<Rightarrow> named_system \<Rightarrow> named_system option" where
  "client_exit p s =
     (if p < length (clients s) \<and> \<not> client_exited (clients s ! p) then
        Some (s\<lparr>clients := (clients s)[p := (clients s ! p)\<lparr>client_exited := True\<rparr>]\<rparr>)
      else None)"

definition client_thread_runs :: "nat \<Rightarrow> named_system \<Rightarrow> named_system option" where
  "client_thread_runs i s =
     (if i < length (named_threads s) \<and> \<not> client_exited (clients s ! owner (named_threads s ! i)) then
        (let t = named_threads s ! i in
         if thread_pc t = N_open then (case named s of
             None \<Rightarrow> client_exit (owner t) s
           | Some k \<Rightarrow> Some (s\<lparr>named_threads := (named_threads s)[i := t\<lparr>thread_pc := N_wait, my_named_semaphore := k\<rparr>]\<rparr>))
         else map_option (\<lambda>(q, v). s\<lparr>named_threads := (named_threads s)[i := t\<lparr>thread_pc := q\<rparr>],
                 sem_values := (sem_values s)[my_named_semaphore t := v]\<rparr>)
               (named_client (thread_pc t) (sem_values s ! my_named_semaphore t)))
      else None)"

section \<open>The system\<close>

datatype named_event = Server_starts | Server | Server_fails | Sigint
  | Client_starts | Client_key nat "char option" | Client_exits nat | Client_thread nat

definition named_step :: "named_event \<Rightarrow> named_system \<Rightarrow> named_system option" where
  "named_step ev s = (case ev of
     Server_starts \<Rightarrow> if running (server_pc s) then None
       else Some (s\<lparr>server_pc := V_create, cleanupFunction := False\<rparr>)
   | Server \<Rightarrow> server_main s
   | Server_fails \<Rightarrow> server_fails s
   | Sigint \<Rightarrow> if running (server_pc s) then Some (sigint_handler s) else None
   | Client_starts \<Rightarrow> Some (s\<lparr>clients := clients s @ [\<lparr>thread_ID = 0, input_ended = False, client_exited = False\<rparr>]\<rparr>)
   | Client_key p key \<Rightarrow> client_main p key s
   | Client_exits p \<Rightarrow> client_exit p s
   | Client_thread i \<Rightarrow> client_thread_runs i s)"

inductive named_reaches :: "named_system \<Rightarrow> named_system \<Rightarrow> bool" for s where
  start: "named_reaches s s"
| step: "named_reaches s t \<Longrightarrow> named_step ev t = Some u \<Longrightarrow> named_reaches s u"

fun run_named :: "named_event list \<Rightarrow> named_system \<Rightarrow> named_system option" where
  "run_named [] s = Some s"
| "run_named (ev # evs) s = (case named_step ev s of None \<Rightarrow> None | Some t \<Rightarrow> run_named evs t)"

lemma run_named_reaches: "named_reaches r s \<Longrightarrow> run_named evs s = Some t \<Longrightarrow> named_reaches r t"
  by (induction evs arbitrary: s) (auto split: option.splits intro: named_reaches.step)

text \<open>Nothing is running, and there is no semaphore.\<close>

definition before_all :: named_system where
  "before_all = \<lparr>sem_values = [], named = None, server_pc = V_killed, named_semaphore = 0, cleanupFunction = False,
     statistics = [], clients = [], named_threads = []\<rparr>"

section \<open>Invariant\<close>

text \<open>The threads that hold a resource of the semaphore \<open>k\<close>, those of ended processes included.\<close>

definition holding :: "nat \<Rightarrow> thread \<Rightarrow> bool" where
  "holding k t \<longleftrightarrow> named_holds (thread_pc t) \<and> my_named_semaphore t = k"

definition named_inv :: "named_system \<Rightarrow> bool" where
  "named_inv s \<longleftrightarrow>
     (\<forall>k < length (sem_values s). sem_values s ! k + cnt (holding k) (named_threads s) = NUM_RESOURCES) \<and>
     (\<forall>t \<in> set (named_threads s). (thread_pc t \<noteq> N_open \<longrightarrow> my_named_semaphore t < length (sem_values s)) \<and> owner t < length (clients s)) \<and>
     (\<forall>k. named s = Some k \<longrightarrow> k < length (sem_values s)) \<and>
     (server_pc s = V_handler \<or> server_pc s = V_loop \<longrightarrow> named s = Some (named_semaphore s)) \<and>
     (cleanupFunction s \<longrightarrow> server_pc s \<noteq> V_create \<and> server_pc s \<noteq> V_handler) \<and>
     (server_pc s = V_loop \<longrightarrow> cleanupFunction s)"

lemma create_semaphore_eq: "create_semaphore s = s\<lparr>sem_values := sem_values s @ [NUM_RESOURCES],
    named := Some (length (sem_values s)), named_semaphore := length (sem_values s)\<rparr>"
  by (simp add: create_semaphore_def)

lemmas named_defs = named_inv_def create_semaphore_eq setQuitHandler_def sigint_handler_def server_cleanup_def running_def

lemma cnt_no_holder: "\<forall>t \<in> set ts. thread_pc t \<noteq> N_open \<longrightarrow> my_named_semaphore t < k \<Longrightarrow> cnt (holding k) ts = 0"
  by (auto simp: cnt_zero_iff holding_def named_holds_def)

lemma server_inv:
  assumes "server_main s = Some s'" and "named_inv s"
  shows "named_inv s'"
proof (cases "server_pc s")
  case V_create
  have "cnt (holding (length (sem_values s))) (named_threads s) = 0"
    using assms(2) by (intro cnt_no_holder) (simp add: named_inv_def)
  with V_create assms show ?thesis
    by (auto simp: server_main_def named_defs Let_def nth_append less_Suc_eq)
qed (use assms in \<open>auto simp: server_main_def named_defs\<close>)

lemma client_exit_inv: "client_exit p s = Some s' \<Longrightarrow> named_inv s \<Longrightarrow> named_inv s'"
  by (auto simp: client_exit_def named_inv_def split: if_splits)

lemma client_main_inv:
  assumes "client_main p key s = Some s'" and "named_inv s"
  shows "named_inv s'"
proof -
  have "\<not> holding k \<lparr>owner = p, thread_pc = N_open, my_named_semaphore = 0\<rparr>" for k
    by (simp add: holding_def named_holds_def)
  with assms show ?thesis
    by (auto simp: client_main_def named_inv_def Let_def split: if_splits option.splits)
qed

lemma thread_inv:
  assumes "client_thread_runs i s = Some s'" and "named_inv s"
  shows "named_inv s'"
proof -
  let ?t = "named_threads s ! i"
  have i: "i < length (named_threads s)" using assms(1) by (auto simp: client_thread_runs_def split: if_splits)
  then have t: "?t \<in> set (named_threads s)" by simp
  show ?thesis
  proof (cases "thread_pc ?t = N_open")
    case True
    have h: "holding k ?t = False" "holding k (?t\<lparr>thread_pc := N_wait, my_named_semaphore := j\<rparr>) = False" for k j
      using True by (simp_all add: holding_def named_holds_def)
    have "cnt (holding k) ((named_threads s)[i := ?t\<lparr>thread_pc := N_wait, my_named_semaphore := j\<rparr>]) = cnt (holding k) (named_threads s)" for k j
      using cnt_update_bal [OF i, of "holding k" "?t\<lparr>thread_pc := N_wait, my_named_semaphore := j\<rparr>"] h by simp
    note count = this
    show ?thesis
    proof (cases "named s")
      case None
      with assms(1) True i have "client_exit (owner ?t) s = Some s'"
        by (simp add: client_thread_runs_def Let_def split: if_splits)
      then show ?thesis using assms(2) by (rule client_exit_inv)
    next
      case (Some k)
      with assms(1) True i have "s' = s\<lparr>named_threads := (named_threads s)[i := ?t\<lparr>thread_pc := N_wait, my_named_semaphore := k\<rparr>]\<rparr>"
        by (simp add: client_thread_runs_def Let_def split: if_splits)
      with assms(2) t Some count show ?thesis by (auto simp: named_inv_def dest!: others_unchanged)
    qed
  next
    case False
    with assms(1) i obtain q v where qv: "named_client (thread_pc ?t) (sem_values s ! my_named_semaphore ?t) = Some (q, v)"
      "s' = s\<lparr>named_threads := (named_threads s)[i := ?t\<lparr>thread_pc := q\<rparr>], sem_values := (sem_values s)[my_named_semaphore ?t := v]\<rparr>"
      by (auto simp: client_thread_runs_def Let_def split: if_splits)
    have k: "my_named_semaphore ?t < length (sem_values s)" "owner ?t < length (clients s)"
      using assms(2) False t by (auto simp: named_inv_def)
    have "q \<noteq> N_open" using qv(1) by (auto simp: named_client_def split: named_pc.splits if_splits)
    have bal: "v + (if named_holds q then 1 else 0) = sem_values s ! my_named_semaphore ?t + (if named_holds (thread_pc ?t) then 1 else 0)"
      by (rule lab04.balance [OF qv(1)])
    have "(sem_values s)[my_named_semaphore ?t := v] ! k + cnt (holding k) ((named_threads s)[i := ?t\<lparr>thread_pc := q\<rparr>]) = NUM_RESOURCES"
      if "k < length (sem_values s)" for k
    proof -
      have "sem_values s ! k + cnt (holding k) (named_threads s) = NUM_RESOURCES" using assms(2) that by (simp add: named_inv_def)
      with cnt_update_bal [OF i, of "holding k" "?t\<lparr>thread_pc := q\<rparr>"] bal that show ?thesis
        by (cases "k = my_named_semaphore ?t") (auto simp: holding_def split: if_splits)
    qed
    with qv(2) assms(2) k \<open>q \<noteq> N_open\<close> show ?thesis
      by (auto simp: named_inv_def dest!: others_unchanged)
  qed
qed

lemma named_step_inv:
  assumes "named_step ev s = Some s'" and "named_inv s"
  shows "named_inv s'"
proof (cases ev)
  case (Client_thread i)
  with assms thread_inv show ?thesis by (simp add: named_step_def)
next
  case (Client_key p k)
  with assms client_main_inv show ?thesis by (simp add: named_step_def)
next
  case (Client_exits p)
  with assms client_exit_inv show ?thesis by (simp add: named_step_def)
next
  case Server
  with assms server_inv show ?thesis by (simp add: named_step_def)
next
  case Client_starts
  with assms show ?thesis by (auto simp: named_step_def named_inv_def nth_append less_Suc_eq)
qed (use assms in \<open>auto simp: named_step_def server_fails_def named_defs split: server_pc.splits if_splits\<close>)

lemma named_reaches_inv: "named_reaches before_all s \<Longrightarrow> named_inv s"
proof (induction rule: named_reaches.induct)
  case start
  then show ?case by (simp add: named_inv_def before_all_def)
qed (rule named_step_inv)

section \<open>Properties\<close>

text \<open>
  C30: the server of lab04 with its clients, in every interleaving: the second number of every line
  of statistics is the number of threads that hold a resource of its semaphore, and the two
  numbers are between 0 and 3 and add up to 3, whatever processes have ended in between.
\<close>

theorem named_statistics:
  assumes "named_reaches before_all s" and "server_pc s = V_loop" and "named_step Server s = Some s'"
  shows "\<exists>available in_use. statistics s' = statistics s @ [(available, in_use)] \<and>
    in_use = int (cnt (holding (named_semaphore s)) (named_threads s)) \<and>
    0 \<le> available \<and> 0 \<le> in_use \<and> available + in_use = int NUM_RESOURCES"
proof -
  have inv: "named_inv s" by (rule named_reaches_inv [OF assms(1)])
  then have "named_semaphore s < length (sem_values s)" using assms(2) by (simp add: named_inv_def)
  then have "sem_values s ! named_semaphore s + cnt (holding (named_semaphore s)) (named_threads s) = NUM_RESOURCES"
    using inv by (simp add: named_inv_def)
  moreover have "statistics s' = statistics s @ [named_server_stats (sem_values s ! named_semaphore s)]"
    using assms(2,3) by (auto simp: named_step_def server_main_def)
  ultimately show ?thesis by (auto simp: named_server_stats_def)
qed

definition named_demo :: "named_event list" where
  "named_demo = [Server_starts, Server, Server, Client_starts, Client_key 0 (Some CHR 0x0A)] @
     concat (map (\<lambda>i. [Client_thread i, Client_thread i]) [0, 1, 2])"

theorem named_statistics_witness:
  "\<exists>s s'. named_reaches before_all s \<and> named_step Server s = Some s' \<and> statistics s' = [(0, 3)] \<and>
    cnt (holding (named_semaphore s)) (named_threads s) = 3"
proof -
  have "map_option (\<lambda>s. (server_pc s, statistics s, map_option statistics (named_step Server s)))
      (run_named named_demo before_all) = Some (V_loop, [], Some [(0, 3)])" by code_simp
  then obtain s s' where run: "run_named named_demo before_all = Some s" and s: "server_pc s = V_loop" "statistics s = []"
    "named_step Server s = Some s'" "statistics s' = [(0, 3)]" by (auto simp: map_option_eq_Some)
  have r: "named_reaches before_all s" by (rule run_named_reaches [OF named_reaches.start run])
  from named_statistics [OF r s(1,3)] s(2,4) have "3 = int (cnt (holding (named_semaphore s)) (named_threads s))" by auto
  with r s show ?thesis by (intro exI [of _ s] exI [of _ s']) simp
qed

text \<open>All holders, by semaphore.\<close>

lemma cnt_by_semaphore:
  assumes "\<forall>t \<in> set ts. named_holds (thread_pc t) \<longrightarrow> my_named_semaphore t < n"
  shows "cnt (\<lambda>t. named_holds (thread_pc t)) ts = (\<Sum>k<n. cnt (holding k) ts)"
  using assms
proof (induction ts)
  case (Cons t ts)
  have "(\<Sum>k<n. if holding k t then Suc (cnt (holding k) ts) else cnt (holding k) ts) =
      (\<Sum>k<n. cnt (holding k) ts) + (\<Sum>k<n. if holding k t then 1 else 0)"
    by (subst sum.distrib [symmetric]) (rule sum.cong, auto)
  moreover have "(\<Sum>k<n. if holding k t then 1 else 0) = (if named_holds (thread_pc t) then 1 else 0 :: nat)"
    using Cons.prems by (auto simp: holding_def if_distrib cong: if_cong)
  ultimately show ?case using Cons by auto
qed simp

text \<open>At most three resources are in use for every time the server has been started.\<close>

theorem named_limit:
  assumes "named_reaches before_all s"
  shows "cnt (\<lambda>t. named_holds (thread_pc t)) (named_threads s) \<le> length (sem_values s) * NUM_RESOURCES"
proof -
  have inv: "named_inv s" by (rule named_reaches_inv [OF assms])
  have "cnt (\<lambda>t. named_holds (thread_pc t)) (named_threads s) = (\<Sum>k<length (sem_values s). cnt (holding k) (named_threads s))"
    using inv by (intro cnt_by_semaphore) (auto simp: named_inv_def named_holds_def)
  also have "\<dots> \<le> (\<Sum>k<length (sem_values s). NUM_RESOURCES)"
    using inv by (intro sum_mono) (auto simp: named_inv_def dest: spec)
  finally show ?thesis by simp
qed

text \<open>After \<open>SIGINT\<close> the name is gone, and a thread that has not opened the semaphore ends its process.\<close>

theorem named_shutdown:
  assumes "named_reaches before_all s" and "server_pc s = V_loop" and "named_step Sigint s = Some s'"
  shows "named s' = None \<and> server_pc s' = V_exit 0 \<and> sem_values s' = sem_values s \<and>
    (\<forall>i u. named_step (Client_thread i) s' = Some u \<and> thread_pc (named_threads s' ! i) = N_open \<longrightarrow>
       client_exited (clients u ! owner (named_threads s' ! i)))"
proof -
  have inv: "named_inv s" by (rule named_reaches_inv [OF assms(1)])
  then have "s' = server_cleanup s"
    using assms(2,3) by (auto simp: named_step_def running_def sigint_handler_def named_inv_def)
  then show ?thesis
    by (auto simp: server_cleanup_def named_step_def client_thread_runs_def client_exit_def Let_def split: if_splits)
qed

text \<open>
  The server of lab04 when it is stopped and started again while clients run: the threads that
  still hold resources of the old semaphore are not counted by the new one: there are runs in
  which six threads hold one of the three resources.
\<close>

theorem named_restart:
  "\<exists>s. run_named (named_demo @ [Sigint, Server_starts, Server, Server, Client_key 0 (Some CHR 0x0A)] @
      concat (map (\<lambda>i. [Client_thread i, Client_thread i]) [3, 4, 5]) @ [Server]) before_all = Some s \<and>
    cnt (\<lambda>t. named_holds (thread_pc t)) (named_threads s) = 6 \<and> statistics s = [(0, 3)]"
proof -
  have "map_option (\<lambda>s. (cnt (\<lambda>t. named_holds (thread_pc t)) (named_threads s), statistics s))
    (run_named (named_demo @ [Sigint, Server_starts, Server, Server, Client_key 0 (Some CHR 0x0A)] @
      concat (map (\<lambda>i. [Client_thread i, Client_thread i]) [3, 4, 5]) @ [Server]) before_all) = Some (6, [(0, 3)])"
    by code_simp
  then show ?thesis by (auto simp: map_option_eq_Some)
qed

end
