(* ===== verification/Accumulators.thy ===== *)
theory Accumulators
  imports Prelude C_Library
begin

text \<open>
  lab02 and lab03: threads that add to a shared variable without synchronisation
  (\<open>concurrent_threads.c\<close>), the version in which every thread has an accumulator of its own
  (\<open>sol-concurrent_threads.c\<close>, and \<open>concurrent_threads_solution_timer.c\<close> with a timer around it), and
  the timer (\<open>performance.c\<close>). An addition is a load and a store, which can be interleaved with
  those of other threads; \<open>unsigned long int\<close> has 64 bits.
\<close>

section \<open>The threads\<close>

record adder =
  iter :: nat
  reg :: "64 word option"  \<comment> \<open>what the thread has loaded and not stored yet\<close>

record accs =
  cells :: "64 word list"  \<comment> \<open>the shared variable, or the shared array\<close>
  adders :: "adder list"
  stores :: nat  \<comment> \<open>additions made so far\<close>

text \<open>
  \<open>thread_work\<close>: \<open>for (i = 0; i < m; i++) shared += v;\<close> thread \<open>idx\<close> adds to the cell \<open>cell_of idx\<close>. The
  \<open>int\<close> \<open>v\<close> is converted to \<open>unsigned long\<close>.
\<close>

definition thread_work :: "(nat \<Rightarrow> nat) \<Rightarrow> nat \<Rightarrow> int \<Rightarrow> nat \<Rightarrow> accs \<Rightarrow> accs option" where
  "thread_work cell_of m v idx s =
     (if idx < length (adders s) then
        (let t = adders s ! idx; k = cell_of idx in
         case reg t of
           None \<Rightarrow> if iter t < m then Some (s\<lparr>adders := (adders s)[idx := t\<lparr>reg := Some (cells s ! k)\<rparr>]\<rparr>) else None
         | Some r \<Rightarrow> Some (s\<lparr>cells := (cells s)[k := r + word_of_int v],
             adders := (adders s)[idx := t\<lparr>iter := iter t + 1, reg := None\<rparr>], stores := stores s + 1\<rparr>))
      else None)"

inductive adds :: "(nat \<Rightarrow> nat) \<Rightarrow> nat \<Rightarrow> int \<Rightarrow> accs \<Rightarrow> accs \<Rightarrow> bool" for cell_of m v s where
  start: "adds cell_of m v s s"
| step: "adds cell_of m v s t \<Longrightarrow> thread_work cell_of m v idx t = Some u \<Longrightarrow> adds cell_of m v s u"

fun run_adders :: "(nat \<Rightarrow> nat) \<Rightarrow> nat \<Rightarrow> int \<Rightarrow> nat list \<Rightarrow> accs \<Rightarrow> accs option" where
  "run_adders cell_of m v [] s = Some s"
| "run_adders cell_of m v (i # is) s = (case thread_work cell_of m v i s of None \<Rightarrow> None | Some t \<Rightarrow> run_adders cell_of m v is t)"

lemma run_adders_adds: "adds c m v r s \<Longrightarrow> run_adders c m v is s = Some t \<Longrightarrow> adds c m v r t"
  by (induction "is" arbitrary: s) (auto split: option.splits intro: adds.step)

definition all_ended :: "nat \<Rightarrow> accs \<Rightarrow> bool" where
  "all_ended m s \<longleftrightarrow> (\<forall>t \<in> set (adders s). iter t = m \<and> reg t = None)"

section \<open>main\<close>

text \<open>The numbers of threads and of iterations, and the value, from the command line.\<close>

definition acc_args :: "string list \<Rightarrow> int \<times> int \<times> int" where
  "acc_args argv = (if length argv > 1 then atoi (argv ! 1) else 1000,
     if length argv > 2 then atoi (argv ! 2) else 10000, if length argv > 3 then atoi (argv ! 3) else 1)"

definition expected_value :: "int \<Rightarrow> int \<Rightarrow> int \<Rightarrow> 64 word" where
  "expected_value n m v = word_of_int n * word_of_int m * word_of_int v"

text \<open>The number of lost adds that is printed, if any.\<close>

definition lost_adds :: "64 word \<Rightarrow> 64 word \<Rightarrow> int \<Rightarrow> 64 word option" where
  "lost_adds expected computed v =
     (if expected > computed then Some ((expected - computed) div word_of_int v) else None)"

definition one_variable :: "nat \<Rightarrow> accs" where
  "one_variable n = \<lparr>cells = [0], adders = replicate n \<lparr>iter = 0, reg = None\<rparr>, stores = 0\<rparr>"

definition own_cells :: "nat \<Rightarrow> accs" where
  "own_cells n = \<lparr>cells = replicate n 0, adders = replicate n \<lparr>iter = 0, reg = None\<rparr>, stores = 0\<rparr>"

text \<open>The value printed: the variable, or the sum of the array, added up in the order of the joins.\<close>

definition shared_variable :: "accs \<Rightarrow> 64 word" where
  "shared_variable s = cells s ! 0"

definition computed_value :: "accs \<Rightarrow> 64 word" where
  "computed_value s = foldl (+) 0 (cells s)"

section \<open>One variable\<close>

text \<open>Every value in the variable or in a register is a number of additions, at most those made.\<close>

definition some_adds :: "int \<Rightarrow> nat \<Rightarrow> 64 word \<Rightarrow> bool" where
  "some_adds v c x \<longleftrightarrow> (\<exists>k \<le> c. x = of_nat k * word_of_int v)"

definition some_adds1 :: "int \<Rightarrow> nat \<Rightarrow> 64 word \<Rightarrow> bool" where
  "some_adds1 v c x \<longleftrightarrow> (\<exists>k \<le> c. (0 < c \<longrightarrow> 0 < k) \<and> x = of_nat k * word_of_int v)"

lemma some_adds_rules:
  "some_adds1 v c x \<Longrightarrow> some_adds v c x" "some_adds v c x \<Longrightarrow> some_adds v (Suc c) x"
  "some_adds v c x \<Longrightarrow> some_adds1 v (Suc c) (x + word_of_int v)"
proof -
  assume "some_adds v c x"
  then obtain k where "k \<le> c" "x = of_nat k * word_of_int v" by (auto simp: some_adds_def)
  then show "some_adds1 v (Suc c) (x + word_of_int v)"
    unfolding some_adds1_def by (intro exI [of _ "Suc k"]) (simp add: algebra_simps)
qed (auto simp: some_adds_def some_adds1_def intro: le_SucI)

definition racy_inv :: "nat \<Rightarrow> nat \<Rightarrow> int \<Rightarrow> accs \<Rightarrow> bool" where
  "racy_inv n m v s \<longleftrightarrow> length (cells s) = 1 \<and> length (adders s) = n \<and> some_adds1 v (stores s) (cells s ! 0) \<and>
     (\<forall>t \<in> set (adders s). iter t \<le> m \<and> (reg t \<noteq> None \<longrightarrow> iter t < m) \<and>
        (\<forall>r. reg t = Some r \<longrightarrow> some_adds v (stores s) r)) \<and>
     stores s = sum_list (map iter (adders s))"

lemma sum_list_map_list_update:
  "i < length xs \<Longrightarrow> sum_list (map f (xs[i := x])) + f (xs ! i) = sum_list (map f xs) + (f x :: nat)"
proof (induction xs arbitrary: i)
  case (Cons y ys)
  then show ?case by (cases i) auto
qed simp

lemma racy_step:
  assumes "thread_work (\<lambda>i. 0) m v idx s = Some s'" and "racy_inv n m v s"
  shows "racy_inv n m v s'"
proof -
  have idx: "idx < length (adders s)" using assms(1) by (auto simp: thread_work_def split: if_splits)
  let ?t = "adders s ! idx"
  have t: "?t \<in> set (adders s)" using idx by simp
  show ?thesis
  proof (cases "reg ?t")
    case None
    with assms(1) idx have s': "s' = s\<lparr>adders := (adders s)[idx := ?t\<lparr>reg := Some (cells s ! 0)\<rparr>]\<rparr>" "iter ?t < m"
      by (auto simp: thread_work_def Let_def split: if_splits)
    have "sum_list (map iter (adders s')) = sum_list (map iter (adders s))"
      using sum_list_map_list_update [OF idx, of iter "?t\<lparr>reg := Some (cells s ! 0)\<rparr>"] s'(1) by simp
    with assms(2) s' show ?thesis unfolding racy_inv_def
      by (auto dest!: others_unchanged intro: some_adds_rules simp del: sum_list_eq_0_iff)
  next
    case (Some r)
    with assms(1) idx have s': "s' = s\<lparr>cells := (cells s)[0 := r + word_of_int v],
        adders := (adders s)[idx := ?t\<lparr>iter := iter ?t + 1, reg := None\<rparr>], stores := stores s + 1\<rparr>"
      by (simp add: thread_work_def Let_def)
    from assms(2) t Some have k: "some_adds v (stores s) r" "iter ?t < m" by (auto simp: racy_inv_def)
    have "sum_list (map iter (adders s')) = sum_list (map iter (adders s)) + 1"
      using sum_list_map_list_update [OF idx, of iter "?t\<lparr>iter := iter ?t + 1, reg := None\<rparr>"] s' by simp
    with assms(2) s' k show ?thesis unfolding racy_inv_def
      by (auto dest!: others_unchanged intro: some_adds_rules)
  qed
qed

lemma racy_reaches: "adds (\<lambda>i. 0) m v (one_variable n) s \<Longrightarrow> racy_inv n m v s"
proof (induction rule: adds.induct)
  case start
  then show ?case by (simp add: racy_inv_def one_variable_def sum_list_replicate some_adds1_def)
next
  case (step t idx u)
  with racy_step show ?case by blast
qed

section \<open>A cell for every thread\<close>

definition own_inv :: "nat \<Rightarrow> nat \<Rightarrow> int \<Rightarrow> accs \<Rightarrow> bool" where
  "own_inv n m v s \<longleftrightarrow> length (cells s) = n \<and> length (adders s) = n \<and>
     (\<forall>i < n. cells s ! i = of_nat (iter (adders s ! i)) * word_of_int v \<and>
        (\<forall>r. reg (adders s ! i) = Some r \<longrightarrow> r = of_nat (iter (adders s ! i)) * word_of_int v))"

lemma own_step:
  assumes "thread_work (\<lambda>i. i) m v idx s = Some s'" and "own_inv n m v s"
  shows "own_inv n m v s'"
proof -
  have idx: "idx < length (adders s)" using assms(1) by (auto simp: thread_work_def split: if_splits)
  show ?thesis
  proof (cases "reg (adders s ! idx)")
    case None
    with assms idx show ?thesis
      by (auto simp: thread_work_def own_inv_def Let_def nth_list_update split: if_splits)
  next
    case (Some r)
    have "r = of_nat (iter (adders s ! idx)) * word_of_int v" using assms(2) idx Some unfolding own_inv_def by metis
    then have r: "r + word_of_int v = of_nat (Suc (iter (adders s ! idx))) * word_of_int v" by (simp add: algebra_simps)
    from assms(1) idx Some have "s' = s\<lparr>cells := (cells s)[idx := r + word_of_int v],
        adders := (adders s)[idx := (adders s ! idx)\<lparr>iter := iter (adders s ! idx) + 1, reg := None\<rparr>], stores := stores s + 1\<rparr>"
      by (simp add: thread_work_def Let_def)
    with assms(2) idx r show ?thesis by (simp add: own_inv_def nth_list_update)
  qed
qed

lemma own_reaches: "adds (\<lambda>i. i) m v (own_cells n) s \<Longrightarrow> own_inv n m v s"
proof (induction rule: adds.induct)
  case start
  then show ?case by (simp add: own_inv_def own_cells_def)
next
  case (step t idx u)
  with own_step show ?case by blast
qed

section \<open>Properties\<close>

lemma unat_times:
  assumes "0 < v" and "int k * v < 2 ^ 64"
  shows "unat (of_nat k * word_of_int v :: 64 word) = k * nat v"
proof -
  have "unat (word_of_int z :: 64 word) = nat z" if "0 \<le> z" "z < 2 ^ 64" for z
    using that by (simp add: unsigned_of_int take_bit_int_eq_self)
  from this [of "int k * v"] assms have "unat (word_of_int (int k * v) :: 64 word) = nat (int k * v)" by simp
  moreover have "of_nat k * word_of_int v = (word_of_int (int k * v) :: 64 word)" by simp
  moreover have "nat (int k * v) = k * nat v" using assms(1) by (simp add: nat_mult_distrib)
  ultimately show ?thesis by (simp only:)
qed

lemma times_div:
  assumes "0 < v" and "int k * v < 2 ^ 64" and "0 < k"
  shows "(of_nat k * word_of_int v :: 64 word) div word_of_int v = of_nat k"
proof -
  have "v \<le> int k * v" "int k \<le> int k * v" using assms(1,3) by (auto simp: mult_le_cancel_right1 mult_le_cancel_left1)
  with assms(2) have "v < 2 ^ 64" "int k < 2 ^ 64" by linarith+
  then have "unat (word_of_int v :: 64 word) = nat v" "unat (of_nat k :: 64 word) = k"
    using unat_times [of v 1] unat_times [of 1 k] assms(1) by simp_all
  with unat_times [OF assms(1,2)] assms(1) show ?thesis by (simp add: word_unat_eq_iff unat_div_distrib)
qed

text \<open>
  C32: \<open>concurrent_threads.c\<close>: when all threads have ended, the shared variable holds \<open>v\<close> times a
  number of additions between 1 and all of them, and (for positive \<open>v\<close>, without overflow) the
  number of lost adds that is printed is exactly the number that is missing.
\<close>

theorem racy_report:
  assumes "adds (\<lambda>i. 0) m v (one_variable n) s" and "all_ended m s" and "0 < n" and "0 < m" and "0 < v"
    and "int n * int m * v < 2 ^ 64"
  shows "\<exists>k. 0 < k \<and> k \<le> n * m \<and> shared_variable s = of_nat k * word_of_int v \<and>
    lost_adds (expected_value (int n) (int m) v) (shared_variable s) v =
      (if k = n * m then None else Some (of_nat (n * m - k)))"
proof -
  have inv: "racy_inv n m v s" by (rule racy_reaches [OF assms(1)])
  have "map iter (adders s) = replicate n m"
    using assms(2) inv by (auto simp: all_ended_def racy_inv_def list_eq_iff_nth_eq)
  then have st: "stores s = n * m" using inv by (simp add: racy_inv_def sum_list_replicate)
  with inv assms(3,4) obtain k where k: "0 < k" "k \<le> n * m" "shared_variable s = of_nat k * word_of_int v"
    by (auto simp: racy_inv_def shared_variable_def some_adds1_def)
  let ?e = "of_nat (n * m) * word_of_int v :: 64 word" and ?x = "of_nat k * word_of_int v :: 64 word"
  have e: "expected_value (int n) (int m) v = ?e" by (simp add: expected_value_def)
  have le: "int j * v < 2 ^ 64" if "j \<le> n * m" for j
  proof -
    have "int j * v \<le> int (n * m) * v" using that assms(5) by (intro mult_right_mono) (simp_all flip: of_nat_mult)
    then show ?thesis using assms(6) by simp
  qed
  have u: "unat ?e = n * m * nat v" "unat ?x = k * nat v"
    by (rule unat_times [OF assms(5) le]; use k(2) in simp)+
  show ?thesis
  proof (cases "k = n * m")
    case True
    with k e show ?thesis by (intro exI [of _ k]) (simp add: lost_adds_def)
  next
    case False
    with k(2) assms(5) have "k * nat v < n * m * nat v" by simp
    then have lt: "?x < ?e" using u by (simp add: word_less_nat_alt)
    have "?e - ?x = of_nat (n * m - k) * word_of_int v" using k(2) by (simp add: of_nat_diff algebra_simps)
    moreover have "(of_nat (n * m - k) * word_of_int v :: 64 word) div word_of_int v = of_nat (n * m - k)"
      using k(2) False by (intro times_div [OF assms(5) le]) simp_all
    ultimately show ?thesis using k e lt False by (intro exI [of _ k]) (simp add: lost_adds_def)
  qed
qed

theorem racy_report_witness:
  "\<exists>s. adds (\<lambda>i. 0) 1 5 (one_variable 2) s \<and> shared_variable s = 5 \<and>
    lost_adds (expected_value (int 2) (int 1) 5) (shared_variable s) 5 = Some 1"
proof -
  have "map_option (\<lambda>s. (cells s, map iter (adders s), map reg (adders s))) (run_adders (\<lambda>i. 0) 1 5 [0, 1, 0, 1] (one_variable 2))
      = Some ([5], [1, 1], [None, None])" by code_simp
  then obtain s where run: "run_adders (\<lambda>i. 0) 1 5 [0, 1, 0, 1] (one_variable 2) = Some s"
    and s: "cells s = [5]" "map iter (adders s) = [1, 1]" "map reg (adders s) = [None, None]"
    by (auto simp: map_option_eq_Some)
  have a: "adds (\<lambda>i. 0) 1 5 (one_variable 2) s" by (rule run_adders_adds [OF adds.start run])
  have e: "all_ended 1 s" using s(2,3) by (auto simp: all_ended_def map_eq_Cons_conv)
  have "shared_variable s = 5" using s(1) by (simp add: shared_variable_def)
  with racy_report [OF a e] obtain k where k: "0 < k" "k \<le> 2" "(5 :: 64 word) = of_nat k * 5"
    "lost_adds (expected_value (int 2) (int 1) 5) (shared_variable s) 5 = (if k = 2 then None else Some (of_nat (2 - k)))"
    by auto
  moreover from k(1-3) have "k = 1" by (cases "k = 2") auto
  ultimately show ?thesis using a \<open>shared_variable s = 5\<close> by (intro exI [of _ s]) simp
qed

lemma foldl_sum_list: "foldl (+) x xs = x + sum_list (xs :: 64 word list)"
  by (induction xs arbitrary: x) (simp_all add: add.assoc)

text \<open>With an accumulator for every thread the value computed is the expected one, modulo \<open>2 ^ 64\<close>.\<close>

lemma own_cells_sum:
  assumes "adds (\<lambda>i. i) m v (own_cells n) s" and "all_ended m s"
  shows "computed_value s = expected_value (int n) (int m) v \<and>
    lost_adds (expected_value (int n) (int m) v) (computed_value s) v = None"
proof -
  have inv: "own_inv n m v s" by (rule own_reaches [OF assms(1)])
  then have "cells s = replicate n (of_nat m * word_of_int v)"
    using assms(2) by (auto simp: own_inv_def all_ended_def list_eq_iff_nth_eq)
  then show ?thesis
    by (simp add: computed_value_def expected_value_def lost_adds_def foldl_sum_list sum_list_replicate mult.assoc)
qed

section \<open>The timer\<close>

record timespec =
  tv_sec :: int
  tv_nsec :: int

text \<open>Times are ordered by their seconds, then by their nanoseconds.\<close>

instantiation timespec_ext :: (linorder) linorder
begin

definition less_eq_timespec_ext :: "'a timespec_scheme \<Rightarrow> 'a timespec_scheme \<Rightarrow> bool" where
  "less_eq_timespec_ext a b \<longleftrightarrow> tv_sec a < tv_sec b \<or> tv_sec a = tv_sec b \<and>
     (tv_nsec a < tv_nsec b \<or> tv_nsec a = tv_nsec b \<and> timespec.more a \<le> timespec.more b)"

definition less_timespec_ext :: "'a timespec_scheme \<Rightarrow> 'a timespec_scheme \<Rightarrow> bool" where
  "less_timespec_ext a b \<longleftrightarrow> a \<le> b \<and> \<not> b \<le> a"

instance
  by standard (auto simp: less_eq_timespec_ext_def less_timespec_ext_def)

end

definition diff :: "timespec \<Rightarrow> timespec \<Rightarrow> timespec" where
  "diff start end =
     (if tv_nsec end - tv_nsec start < 0 then
        \<lparr>tv_sec = tv_sec end - tv_sec start - 1, tv_nsec = 1000000000 + tv_nsec end - tv_nsec start\<rparr>
      else \<lparr>tv_sec = tv_sec end - tv_sec start, tv_nsec = tv_nsec end - tv_nsec start\<rparr>)"

text \<open>
  \<open>unsigned long\<close> arithmetic. The other three divide, round the (whole) quotient and convert the
  \<open>double\<close> to \<open>unsigned int\<close>, which is not defined from \<open>2 ^ 32\<close> on.
\<close>

definition get_nanoseconds :: "timespec \<Rightarrow> 64 word" where
  "get_nanoseconds elapsed = word_of_int (tv_sec elapsed) * 1000000000 + word_of_int (tv_nsec elapsed)"

definition to_unsigned_int :: "64 word \<Rightarrow> 64 word option" where
  "to_unsigned_int q = (if q < 2 ^ 32 then Some q else None)"

definition get_microseconds :: "timespec \<Rightarrow> 64 word option" where
  "get_microseconds elapsed = to_unsigned_int (get_nanoseconds elapsed div 1000)"

definition get_milliseconds :: "timespec \<Rightarrow> 64 word option" where
  "get_milliseconds elapsed = to_unsigned_int (get_nanoseconds elapsed div 1000000)"

definition get_seconds :: "timespec \<Rightarrow> 64 word option" where
  "get_seconds elapsed = to_unsigned_int (get_nanoseconds elapsed div 1000000000)"

text \<open>The timer; \<open>now\<close> is what \<open>clock_gettime\<close> returns.\<close>

record timer =
  begin_time :: timespec
  end_time :: timespec
  elapsed :: timespec

definition timer_begin :: "timespec \<Rightarrow> timer \<Rightarrow> timer" where
  "timer_begin now t = t\<lparr>begin_time := now\<rparr>"

definition timer_end :: "timespec \<Rightarrow> timer \<Rightarrow> timer" where
  "timer_end now t = t\<lparr>end_time := now, elapsed := diff (begin_time t) now\<rparr>"

definition nanos :: "timespec \<Rightarrow> int" where
  "nanos t = tv_sec t * 1000000000 + tv_nsec t"

definition normal :: "timespec \<Rightarrow> bool" where
  "normal t \<longleftrightarrow> 0 \<le> tv_nsec t \<and> tv_nsec t < 1000000000"

lemma nanos_mono: "normal s \<Longrightarrow> normal e \<Longrightarrow> s \<le> e \<longleftrightarrow> nanos s \<le> nanos e"
  by (auto simp: less_eq_timespec_ext_def normal_def nanos_def)

lemma diff_nanos: "nanos (diff s e) = nanos e - nanos s"
  by (simp add: nanos_def diff_def algebra_simps)

lemma diff_normal: "normal s \<Longrightarrow> normal e \<Longrightarrow> normal (diff s e)"
  by (auto simp: normal_def diff_def)

lemma unat_get_nanoseconds: "0 \<le> nanos t \<Longrightarrow> nanos t < 2 ^ 64 \<Longrightarrow> int (unat (get_nanoseconds t)) = nanos t"
proof -
  assume *: "0 \<le> nanos t" "nanos t < 2 ^ 64"
  have "get_nanoseconds t = word_of_int (nanos t)" by (simp add: get_nanoseconds_def nanos_def)
  with * show ?thesis by (simp add: unsigned_of_int take_bit_int_eq_self)
qed

text \<open>The conversions: the nanoseconds divided by \<open>d\<close>, if the quotient fits into an \<open>unsigned int\<close>.\<close>

lemma elapsed_units:
  assumes "normal s" and "normal e" and "s \<le> e" and "nanos e - nanos s < 2 ^ 64" and "0 < d" and "d < 2 ^ 64"
  shows "int (unat (get_nanoseconds (diff s e))) = nanos e - nanos s"
    and "map_option (int \<circ> unat) (to_unsigned_int (get_nanoseconds (diff s e) div word_of_int d)) =
      (if (nanos e - nanos s) div d < 2 ^ 32 then Some ((nanos e - nanos s) div d) else None)"
proof -
  let ?g = "get_nanoseconds (diff s e)"
  show g: "int (unat ?g) = nanos e - nanos s"
    using unat_get_nanoseconds [of "diff s e"] assms by (simp add: diff_nanos nanos_mono)
  have "int (unat (word_of_int d :: 64 word)) = d" using assms(5,6) by (simp add: unsigned_of_int take_bit_int_eq_self)
  with g have q: "int (unat (?g div word_of_int d)) = (nanos e - nanos s) div d"
    by (simp add: unat_div_distrib zdiv_int)
  have "?g div word_of_int d < 2 ^ 32 \<longleftrightarrow> int (unat (?g div word_of_int d)) < 2 ^ 32"
  proof -
    have "unat (2 ^ 32 :: 64 word) = 2 ^ 32" by simp
    moreover have "x < 2 ^ 32 \<longleftrightarrow> int x < 2 ^ 32" for x :: nat by auto
    ultimately show ?thesis by (simp only: word_less_nat_alt)
  qed
  with q show "map_option (int \<circ> unat) (to_unsigned_int (?g div word_of_int d)) =
      (if (nanos e - nanos s) div d < 2 ^ 32 then Some ((nanos e - nanos s) div d) else None)"
    by (simp add: to_unsigned_int_def)
qed

lemma elapsed_parts:
  assumes "normal s" and "normal e" and "s \<le> e" and "nanos e - nanos s < 2 ^ 64" and "ns = nanos e - nanos s"
  shows "map_option (int \<circ> unat) (get_microseconds (diff s e)) = (if ns div 1000 < 2 ^ 32 then Some (ns div 1000) else None)"
    and "map_option (int \<circ> unat) (get_milliseconds (diff s e)) = (if ns div 1000000 < 2 ^ 32 then Some (ns div 1000000) else None)"
    and "map_option (int \<circ> unat) (get_seconds (diff s e)) = (if ns div 1000000000 < 2 ^ 32 then Some (ns div 1000000000) else None)"
  using elapsed_units(2) [OF assms(1-4), of 1000] elapsed_units(2) [OF assms(1-4), of 1000000]
    elapsed_units(2) [OF assms(1-4), of 1000000000] assms(5)
  by (simp_all add: get_microseconds_def get_milliseconds_def get_seconds_def)



section \<open>The programs\<close>

text \<open>
  \<open>main\<close> of the three programs: the threads are created (\<open>creates\<close>: the results of \<open>pthread_create\<close>),
  run and are joined (\<open>s\<close>: the state when all have ended), and the numbers are printed. A thread
  that has not been created yet is one that has not made a step.
\<close>

definition create_threads :: "int \<Rightarrow> int list \<Rightarrow> 'a \<Rightarrow> 'a outcome" where
  "create_threads n creates result =
     (case run_checks (replicate (nat n) (PTHREAD_ERROR_HELPER ''Can't create a new thread'')) creates of
        Startup_exit msg \<Rightarrow> Exit 1 | Startup_pending \<Rightarrow> Blocked | Startup_done _ \<Rightarrow> Done result)"

definition concurrent_main :: "string list \<Rightarrow> int list \<Rightarrow> accs \<Rightarrow> (64 word \<times> 64 word \<times> 64 word option) outcome" where
  "concurrent_main argv creates s = (case acc_args argv of (n, m, v) \<Rightarrow>
     create_threads n creates (shared_variable s, expected_value n m v, lost_adds (expected_value n m v) (shared_variable s) v))"

definition sol_concurrent_main :: "string list \<Rightarrow> int list \<Rightarrow> accs \<Rightarrow> (64 word \<times> 64 word \<times> 64 word option) outcome" where
  "sol_concurrent_main argv creates s = (case acc_args argv of (n, m, v) \<Rightarrow>
     create_threads n creates (computed_value s, expected_value n m v, lost_adds (expected_value n m v) (computed_value s) v))"

definition timed_concurrent_main :: "string list \<Rightarrow> int list \<Rightarrow> accs \<Rightarrow> timespec \<Rightarrow> timespec \<Rightarrow> timer \<Rightarrow>
    ((64 word \<times> 64 word \<times> 64 word option) \<times> 64 word option) outcome" where
  "timed_concurrent_main argv creates s t0 t1 t = (case acc_args argv of (n, m, v) \<Rightarrow>
     create_threads n creates
       ((computed_value s, expected_value n m v, lost_adds (expected_value n m v) (computed_value s) v),
        get_milliseconds (elapsed (timer_end t1 (timer_begin t0 t)))))"

lemma create_threads_cases:
  "create_threads n creates result \<in> {Done result, Exit 1, Blocked}"
  "length creates = nat n \<Longrightarrow> \<forall>r \<in> set creates. r = 0 \<Longrightarrow> create_threads n creates result = Done result"
proof -
  show "create_threads n creates result \<in> {Done result, Exit 1, Blocked}"
    by (simp add: create_threads_def split: startup.splits)
next
  assume *: "length creates = nat n" "\<forall>r \<in> set creates. r = 0"
  then have "list_all2 (\<lambda>c r. \<not> check_fires c r) (replicate (nat n) (PTHREAD_ERROR_HELPER ''Can't create a new thread'')) creates"
    by (simp add: list_all2_conv_all_nth)
  from run_checks_ok [OF this, of "[]" "[]"] show "create_threads n creates result = Done result"
    by (simp add: create_threads_def)
qed


lemma two_threads_args: "acc_args [''sol'', ''2'', ''1'', ''5''] = (2, 1, 5)"
  by code_simp


end
