(* ===== verification/Reactivity.thy ===== *)
theory Reactivity
  imports Accumulators
begin

text \<open>
  lab02: \<open>reactivity.c\<close> measures how long it takes to start a process or a thread and to wait for
  its end, \<open>sol-reactivity.c\<close> the same with a large buffer that is written to. What is measured is an
  argument: for every run the two times, or \<open>None\<close> if \<open>fork\<close> or \<open>pthread_create\<close> fails.
\<close>

type_synonym run = "(timespec \<times> timespec) option"

section \<open>The averages\<close>

text \<open>\<open>n\<close> runs: the sum of their microseconds.\<close>

fun sum_runs :: "nat \<Rightarrow> run list \<Rightarrow> 64 word \<Rightarrow> 64 word outcome" where
  "sum_runs 0 runs acc = Done acc"
| "sum_runs (Suc k) [] acc = Blocked"
| "sum_runs (Suc k) (None # runs) acc = Exit 1"
| "sum_runs (Suc k) (Some (t0, t1) # runs) acc = (case get_microseconds (diff t0 t1) of
      None \<Rightarrow> Undefined | Some us \<Rightarrow> sum_runs k runs (acc + us))"

text \<open>\<open>sum / n\<close>, where \<open>n\<close> is converted to \<open>unsigned long\<close>.\<close>

definition average_runs :: "int \<Rightarrow> run list \<Rightarrow> 64 word outcome" where
  "average_runs n runs = (case sum_runs (nat n) runs 0 of
      Done acc \<Rightarrow> if n = 0 then Undefined else Done (acc div word_of_int n)
    | Exit e \<Rightarrow> Exit e | Blocked \<Rightarrow> Blocked | Undefined \<Rightarrow> Undefined)"

text \<open>The two averages that are printed; the speed-up is a \<open>float\<close> and is left out.\<close>

definition reactivity_main :: "string list \<Rightarrow> run list \<Rightarrow> run list \<Rightarrow> (64 word \<times> 64 word) outcome" where
  "reactivity_main argv processes threads =
     (if length argv < 2 then Exit 1
      else (let n = atoi (argv ! 1) in case average_runs n processes of
          Done process_avg \<Rightarrow> (case average_runs n threads of
              Done thread_avg \<Rightarrow> Done (process_avg, thread_avg)
            | Exit e \<Rightarrow> Exit e | Blocked \<Rightarrow> Blocked | Undefined \<Rightarrow> Undefined)
        | Exit e \<Rightarrow> Exit e | Blocked \<Rightarrow> Blocked | Undefined \<Rightarrow> Undefined))"

text \<open>A run that lasts less than \<open>2 ^ 32\<close> microseconds (71 minutes).\<close>

definition micros :: "timespec \<times> timespec \<Rightarrow> nat" where
  "micros r = nat ((nanos (snd r) - nanos (fst r)) div 1000)"

definition short_run :: "timespec \<times> timespec \<Rightarrow> bool" where
  "short_run r \<longleftrightarrow> normal (fst r) \<and> normal (snd r) \<and> fst r \<le> snd r \<and> (nanos (snd r) - nanos (fst r)) div 1000 < 2 ^ 32"

lemma microseconds_short:
  assumes "short_run (b, e)"
  shows "get_microseconds (diff b e) = Some (of_nat (micros (b, e)))"
proof -
  let ?us = "(nanos e - nanos b) div 1000"
  have r: "normal b" "normal e" "b \<le> e" "?us < 2 ^ 32" using assms by (simp_all add: short_run_def)
  then have "map_option (int \<circ> unat) (get_microseconds (diff b e)) = Some ?us"
    using elapsed_parts(1) [OF r(1-3) _ refl] by simp
  then obtain x where x: "get_microseconds (diff b e) = Some x" "int (unat x) = ?us" by (auto simp: map_option_eq_Some)
  then have "unat x = micros (b, e)" by (simp add: micros_def flip: x(2))
  then have "x = of_nat (micros (b, e))" by (metis of_nat_unat ucast_id)
  with x(1) show ?thesis by simp
qed

lemma sum_runs_short:
  assumes "list_all short_run rs"
  shows "sum_runs (length rs) (map Some rs) acc = Done (acc + of_nat (sum_list (map micros rs)))"
  using assms by (induction rs arbitrary: acc) (auto simp: microseconds_short add.assoc)

lemma micros_sum: "list_all short_run rs \<Longrightarrow> sum_list (map micros rs) \<le> length rs * 2 ^ 32"
proof (induction rs)
  case (Cons r rs)
  moreover have "micros r \<le> 2 ^ 32" using Cons.prems by (auto simp: short_run_def micros_def nat_le_iff)
  ultimately show ?case by simp
qed simp

text \<open>
  When no call fails and every run is short, the average printed is the sum of the microseconds
  divided by the number of runs: nothing overflows. Without runs it divides by zero.
\<close>

theorem average_exact:
  assumes "list_all short_run rs" and "length rs < 2 ^ 31"
  shows "if rs = [] then average_runs 0 (map Some rs) = Undefined
    else \<exists>avg. average_runs (int (length rs)) (map Some rs) = Done avg \<and>
      unat avg = sum_list (map micros rs) div length rs"
proof (cases "rs = []")
  case False
  let ?s = "sum_list (map micros rs)"
  have "?s \<le> length rs * 2 ^ 32" by (rule micros_sum [OF assms(1)])
  also have "\<dots> < 2 ^ 31 * 2 ^ 32" using assms(2) by simp
  finally have "unat (of_nat ?s :: 64 word) = ?s" "unat (of_nat (length rs) :: 64 word) = length rs"
    using assms(2) by (simp_all add: unsigned_of_nat take_bit_nat_eq_self)
  then have "unat (of_nat ?s div of_nat (length rs) :: 64 word) = ?s div length rs" by (simp add: unat_div_distrib)
  moreover have "average_runs (int (length rs)) (map Some rs) = Done (of_nat ?s div of_nat (length rs))"
    using sum_runs_short [OF assms(1), of 0] False by (simp add: average_runs_def)
  ultimately show ?thesis using False by auto
qed (simp add: average_runs_def)

section \<open>The buffer of sol-reactivity.c\<close>

definition ITEMS :: nat where "ITEMS = 2 ^ 24"
definition STEP :: nat where "STEP = 1024"

text \<open>The loop of the child and of \<open>thread_fun\<close>; \<open>None\<close> is an access outside of the buffer.\<close>

function touch :: "nat \<Rightarrow> int list \<Rightarrow> int list option" where
  "touch j buff =
     (if j < ITEMS then (if j < length buff then touch (j + STEP) (buff[j := int j]) else None) else Some buff)"
  by pat_completeness auto
termination by (relation "measure (\<lambda>(j, buff). ITEMS - j)") (auto simp: STEP_def)

declare touch.simps [simp del]

text \<open>
  The runs: every process writes to its own copy and frees it, so that the parent's buffer stays;
  the threads write to the shared one.
\<close>

definition process_runs :: "nat \<Rightarrow> int list \<Rightarrow> int list option" where
  "process_runs n global_buff = (if 0 < n \<and> touch 0 global_buff = None then None else Some global_buff)"

fun thread_runs :: "nat \<Rightarrow> int list \<Rightarrow> int list option" where
  "thread_runs 0 global_buff = Some global_buff"
| "thread_runs (Suc n) global_buff = Option.bind (touch 0 global_buff) (thread_runs n)"

text \<open>\<open>allocated\<close>: \<open>calloc\<close> succeeds.\<close>

definition sol_reactivity_main :: "bool \<Rightarrow> string list \<Rightarrow> run list \<Rightarrow> run list \<Rightarrow> (64 word \<times> 64 word) outcome" where
  "sol_reactivity_main allocated argv processes threads =
     (if length argv < 2 \<or> \<not> allocated then Exit 1
      else (let n = nat (atoi (argv ! 1)) in
        case Option.bind (process_runs n (replicate ITEMS 0)) (thread_runs n) of
          None \<Rightarrow> Undefined
        | Some buff \<Rightarrow> reactivity_main argv processes threads))"

text \<open>What the buffer contains from the position \<open>j\<close> on, when the loop has got there.\<close>

lemma touch_from:
  assumes "length buff = ITEMS" and "STEP dvd j"
  shows "\<exists>b. touch j buff = Some b \<and> length b = ITEMS \<and>
    (\<forall>i<ITEMS. b ! i = (if j \<le> i \<and> STEP dvd i then int i else buff ! i))"
  using assms
proof (induction j buff rule: touch.induct)
  case (1 j buff)
  show ?case
  proof (cases "j < ITEMS")
    case True
    let ?a = "buff[j := int j]"
    from "1.IH" [OF True] True "1.prems" obtain b where b: "touch (j + STEP) ?a = Some b" "length b = ITEMS"
      "\<forall>i<ITEMS. b ! i = (if j + STEP \<le> i \<and> STEP dvd i then int i else ?a ! i)"
      by auto
    have gap: "i = j" if "j \<le> i" "STEP dvd i" "\<not> j + STEP \<le> i" for i
    proof -
      have "STEP dvd i - j" using that(2) "1.prems"(2) by (rule dvd_diff_nat)
      moreover have "i - j < STEP" using that(1,3) by linarith
      ultimately have "i - j = 0" by (metis dvd_imp_le linorder_not_less neq0_conv)
      with that(1) show ?thesis by simp
    qed
    have "b ! i = (if j \<le> i \<and> STEP dvd i then int i else buff ! i)" if "i < ITEMS" for i
      using b(3) gap [of i] that "1.prems" by (cases "i = j") auto
    with b True "1.prems" show ?thesis by (simp add: touch.simps [of j buff])
  qed (use "1.prems" in \<open>simp add: touch.simps [of j buff]\<close>)
qed

lemma thread_runs_in_bounds: "length buff = ITEMS \<Longrightarrow> \<exists>b. thread_runs n buff = Some b \<and> length b = ITEMS"
proof (induction n arbitrary: buff)
  case (Suc n)
  with touch_from [OF Suc.prems, of 0] show ?case by auto
qed simp

text \<open>No access of \<open>sol-reactivity.c\<close> is out of bounds: it computes what \<open>reactivity.c\<close> does.\<close>

theorem sol_reactivity_same:
  "sol_reactivity_main True argv processes threads = reactivity_main argv processes threads"
proof -
  have l: "length (replicate ITEMS (0 :: int)) = ITEMS" by simp
  from touch_from [OF l, of 0] have "process_runs n (replicate ITEMS 0) = Some (replicate ITEMS 0)" for n
    by (auto simp: process_runs_def)
  moreover obtain b where "thread_runs (nat (atoi (argv ! 1))) (replicate ITEMS 0) = Some b"
    using thread_runs_in_bounds [OF l] by blast
  ultimately show ?thesis by (simp add: sol_reactivity_main_def reactivity_main_def Let_def)
qed

end
