(* ===== verification/First_Programs.thy ===== *)
theory First_Programs
  imports C_Library "HOL-Library.Sublist"
begin

text \<open>
  lab01: \<open>arrayBounds.c\<close> (a sum over an array and its closed form), \<open>nullPtr.c\<close> (a string printed
  into a buffer of its own size) and \<open>processes.c\<close> (a process and its child, each with a copy of
  the same buffer). \<open>distance.c\<close> computes with \<open>double\<close> and is not modelled.
\<close>

section \<open>arrayBounds.c\<close>

text \<open>The result of an operation on \<open>int\<close>, which is undefined out of 32 bits.\<close>

definition c_int :: "int \<Rightarrow> int option" where
  "c_int z = (if - (2 ^ 31) \<le> z \<and> z < 2 ^ 31 then Some z else None)"

text \<open>The two loops; \<open>None\<close> is an access outside of the array.\<close>

function fill_array :: "int \<Rightarrow> int \<Rightarrow> int list \<Rightarrow> int list option" where
  "fill_array i N array =
     (if i < N then
        (if nat i < length array then fill_array (i + 1) N (array[nat i := i + 1]) else None)
      else Some array)"
  by pat_completeness auto
termination by (relation "measure (\<lambda>(i, N, array). nat (N - i))") auto

function sum_array :: "int \<Rightarrow> int \<Rightarrow> int list \<Rightarrow> 64 word \<Rightarrow> 64 word option" where
  "sum_array i N array result =
     (if i < N then
        (if nat i < length array then sum_array (i + 1) N array (result + word_of_int (array ! nat i)) else None)
      else Some result)"
  by pat_completeness auto
termination by (relation "measure (\<lambda>(i, N, array, result). nat (N - i))") auto

declare fill_array.simps [simp del] sum_array.simps [simp del]

text \<open>The two numbers printed. \<open>array\<close> is what \<open>malloc\<close> returns. The product is not negative.\<close>

definition array_bounds_main :: "string list \<Rightarrow> int list \<Rightarrow> (64 word \<times> 64 word) outcome" where
  "array_bounds_main argv array =
     (if length argv \<noteq> 2 then Exit 1
      else (let N = atoi (argv ! 1) in
        case Option.bind (fill_array 0 N array) (\<lambda>array. sum_array 0 N array 0) of
          None \<Rightarrow> Undefined
        | Some result \<Rightarrow> (case Option.bind (c_int (N + 1)) (\<lambda>s. c_int (N * s)) of
            None \<Rightarrow> Undefined
          | Some p \<Rightarrow> Done (result, word_of_int (p div 2)))))"

lemma fill_array_all:
  assumes "i \<le> n" and "length array = n" and "\<forall>j<i. array ! j = int j + 1"
  shows "fill_array (int i) (int n) array = Some (map (\<lambda>j. int j + 1) [0..<n])"
  using assms
proof (induction "n - i" arbitrary: i array)
  case 0
  then show ?case by (auto simp: fill_array.simps [of "int i"] list_eq_iff_nth_eq)
next
  case (Suc d)
  let ?a = "array[i := int i + 1]"
  have "fill_array (int (Suc i)) (int n) ?a = Some (map (\<lambda>j. int j + 1) [0..<n])"
    using Suc.hyps(2) Suc.prems by (intro Suc.hyps(1)) (auto simp: less_Suc_eq)
  moreover have "int i < int n" using Suc.hyps(2) by simp
  ultimately show ?case using Suc.prems(2) by (simp add: fill_array.simps [of "int i"] add.commute)
qed

text \<open>The sum of the first \<open>n\<close> numbers.\<close>

definition triangle :: "int \<Rightarrow> int" where
  "triangle n = n * (n + 1) div 2"

lemma triangle_next: "triangle (n + 1) = triangle n + (n + 1)"
proof -
  have "(n + 1) * (n + 1 + 1) = n * (n + 1) + (n + 1) * 2" by (simp add: algebra_simps)
  then show ?thesis by (simp only: triangle_def) simp
qed

lemma sum_array_all:
  assumes "i \<le> n"
  shows "sum_array (int i) (int n) (map (\<lambda>j. int j + 1) [0..<n]) (word_of_int (triangle (int i))) =
    Some (word_of_int (triangle (int n)))"
  using assms
proof (induction "n - i" arbitrary: i)
  case 0
  then show ?case by (simp add: sum_array.simps [of "int i"])
next
  case (Suc d)
  have "sum_array (int i + 1) (int n) (map (\<lambda>j. int j + 1) [0..<n]) (word_of_int (triangle (int i + 1))) =
    Some (word_of_int (triangle (int n)))"
    using Suc.hyps(2) Suc.hyps(1) [of "Suc i"] by (simp add: add.commute)
  moreover have "word_of_int (triangle (int i)) + word_of_int (int i + 1) = (word_of_int (triangle (int i + 1)) :: 64 word)"
    by (simp only: triangle_next of_int_add)
  moreover have "i < n" using Suc.hyps(2) by simp
  ultimately show ?case
    by (subst sum_array.simps) (simp del: of_int_add)
qed

lemma int_range: "0 \<le> N \<Longrightarrow> N * (N + 1) < 2 ^ 31 \<longleftrightarrow> N \<le> (46340 :: int)"
proof
  assume "0 \<le> N" "N * (N + 1) < 2 ^ 31"
  show "N \<le> 46340"
  proof (rule ccontr)
    assume "\<not> N \<le> 46340"
    then have "46341 * 46342 \<le> N * (N + 1)" by (intro mult_mono) auto
    with \<open>N * (N + 1) < 2 ^ 31\<close> show False by simp
  qed
next
  assume "0 \<le> N" "N \<le> 46340"
  then have "N * (N + 1) \<le> 46340 * 46341" by (intro mult_mono) auto
  then show "N * (N + 1) < 2 ^ 31" by simp
qed

text \<open>
  \<open>arrayBounds.c\<close>, for an \<open>N\<close> that is not negative: no access is out of bounds, and the two
  numbers are equal for \<open>N\<close> up to 46340; for larger ones the second overflows.
\<close>

theorem array_bounds_sums:
  assumes "length argv = 2" and "atoi (argv ! 1) = N" and "0 \<le> N" and "N < 2 ^ 31" and "length array = nat N"
  shows "array_bounds_main argv array = (if N \<le> 46340 then
    Done (word_of_int (N * (N + 1) div 2), word_of_int (N * (N + 1) div 2)) else Undefined)"
proof -
  obtain n where n: "N = int n" using assms(3) by (metis nonneg_int_cases)
  have "fill_array 0 N array = Some (map (\<lambda>j. int j + 1) [0..<n])"
    using fill_array_all [of 0 n array] assms(5) n by simp
  moreover have "sum_array 0 N (map (\<lambda>j. int j + 1) [0..<n]) 0 = Some (word_of_int (N * (N + 1) div 2))"
    using sum_array_all [of 0 n] n by (simp add: triangle_def)
  moreover have "Option.bind (c_int (N + 1)) (\<lambda>s. c_int (N * s)) = (if N \<le> 46340 then Some (N * (N + 1)) else None)"
  proof -
    have "0 \<le> N * (N + 1)" using assms(3) by (intro mult_nonneg_nonneg) simp_all
    then have low: "- (2 ^ 31) \<le> N * (N + 1)" by (rule order_trans [rotated]) simp
    have "c_int (N * (N + 1)) = (if N \<le> 46340 then Some (N * (N + 1)) else None)"
      unfolding c_int_def using int_range [OF assms(3)] low by auto
    moreover have "N \<le> 46340 \<Longrightarrow> c_int (N + 1) = Some (N + 1)" using assms(3) by (simp add: c_int_def)
    ultimately show ?thesis by (cases "c_int (N + 1)") (auto simp: c_int_def split: if_splits)
  qed
  ultimately show ?thesis using assms(1,2) by (simp add: array_bounds_main_def)
qed

section \<open>nullPtr.c\<close>

text \<open>\<open>malloc(strlen(argv[1])+7+1)\<close>, \<open>sprintf\<close> into it; the text printed.\<close>

definition null_ptr_main :: "string list \<Rightarrow> string outcome" where
  "null_ptr_main argv =
     (if length argv \<noteq> 2 then Exit 1
      else (let p = length (argv ! 1) + 7 + 1; text = ''Input: '' @ argv ! 1 in
        if length text + 1 \<le> p then Done (text @ [NL]) else Undefined))"

lemma null_ptr_fits: "length argv = 2 \<Longrightarrow> null_ptr_main argv = Done (''Input: '' @ argv ! 1 @ [NL])"
  by (simp add: null_ptr_main_def)

section \<open>processes.c\<close>

function factorial :: "32 word \<Rightarrow> 32 word" where
  "factorial n = (if n = 0 then 1 else n * factorial (n - 1))"
  by pat_completeness auto
termination
  by (relation "measure unat") (auto simp: measure_unat)

function fibonacci :: "32 word \<Rightarrow> 32 word" where
  "fibonacci i = (if i = 0 then 0 else if i = 1 then 1 else fibonacci (i - 1) + fibonacci (i - 2))"
  by pat_completeness auto
termination
proof (relation "measure unat")
  fix i :: "32 word"
  assume "i \<noteq> 0" "i \<noteq> 1"
  then show "(i - 1, i) \<in> measure unat" by (simp add: measure_unat)
  have "unat (i - 1 - 1) < unat (i - 1)" using \<open>i \<noteq> 1\<close> by (intro measure_unat) simp
  also have "unat (i - 1) < unat i" using \<open>i \<noteq> 0\<close> by (rule measure_unat)
  finally show "(i - 2, i) \<in> measure unat" by simp
qed simp

declare factorial.simps [simp del] fibonacci.simps [simp del]

text \<open>The statements that are left to a process, with the loops unrolled.\<close>

datatype action = Compute nat  \<comment> \<open>\<open>buffer[i] = ...\<close>\<close>
  | Wait | Print_status | Print_item nat | Print_exiting

datatype line = Factorial nat "32 word" | Child_exiting | Child_terminated | Fibonacci nat "32 word" | Parent_exiting

text \<open>After \<open>fork\<close> each process has a buffer of its own.\<close>

record two_processes =
  child_todo :: "action list"
  parent_todo :: "action list"
  child_buffer :: "32 word list"
  parent_buffer :: "32 word list"
  terminal :: "line list"

definition child_actions :: "nat \<Rightarrow> action list" where
  "child_actions N = map Compute [0..<N] @ map Print_item [0..<N] @ [Print_exiting]"

definition parent_actions :: "nat \<Rightarrow> action list" where
  "parent_actions N = map Compute [0..<N] @ Wait # Print_status # map Print_item [0..<N] @ [Print_exiting]"

definition child_step :: "two_processes \<Rightarrow> two_processes option" where
  "child_step s = (case child_todo s of
     Compute i # todo \<Rightarrow> Some (s\<lparr>child_todo := todo, child_buffer := (child_buffer s)[i := factorial (of_nat i)]\<rparr>)
   | Print_item i # todo \<Rightarrow> Some (s\<lparr>child_todo := todo, terminal := terminal s @ [Factorial i (child_buffer s ! i)]\<rparr>)
   | Print_exiting # todo \<Rightarrow> Some (s\<lparr>child_todo := todo, terminal := terminal s @ [Child_exiting]\<rparr>)
   | _ \<Rightarrow> None)"

definition parent_step :: "two_processes \<Rightarrow> two_processes option" where
  "parent_step s = (case parent_todo s of
     Compute i # todo \<Rightarrow> Some (s\<lparr>parent_todo := todo, parent_buffer := (parent_buffer s)[i := fibonacci (of_nat i)]\<rparr>)
   | Wait # todo \<Rightarrow> if child_todo s = [] then Some (s\<lparr>parent_todo := todo\<rparr>) else None
   | Print_status # todo \<Rightarrow> Some (s\<lparr>parent_todo := todo, terminal := terminal s @ [Child_terminated]\<rparr>)
   | Print_item i # todo \<Rightarrow> Some (s\<lparr>parent_todo := todo, terminal := terminal s @ [Fibonacci i (parent_buffer s ! i)]\<rparr>)
   | Print_exiting # todo \<Rightarrow> Some (s\<lparr>parent_todo := todo, terminal := terminal s @ [Parent_exiting]\<rparr>)
   | [] \<Rightarrow> None)"

text \<open>\<open>main\<close> up to \<open>fork\<close>; \<open>buffer\<close> is what \<open>malloc\<close> returns.\<close>

definition processes_N :: "string list \<Rightarrow> nat outcome" where
  "processes_N argv = (if length argv \<noteq> 2 then Exit 1 else Done (nat (min 10 (atoi (argv ! 1)))))"

definition fork_processes :: "nat \<Rightarrow> 32 word list \<Rightarrow> two_processes" where
  "fork_processes N buffer = \<lparr>child_todo = child_actions N, parent_todo = parent_actions N,
     child_buffer = buffer, parent_buffer = buffer, terminal = []\<rparr>"

text \<open>\<open>True\<close>: the child goes on.\<close>

inductive processes_reach :: "two_processes \<Rightarrow> two_processes \<Rightarrow> bool" for s where
  start: "processes_reach s s"
| child: "processes_reach s t \<Longrightarrow> child_step t = Some u \<Longrightarrow> processes_reach s u"
| parent: "processes_reach s t \<Longrightarrow> parent_step t = Some u \<Longrightarrow> processes_reach s u"

text \<open>The lines of each process.\<close>

definition child_lines :: "nat \<Rightarrow> line list" where
  "child_lines N = map (\<lambda>i. Factorial i (factorial (of_nat i))) [0..<N] @ [Child_exiting]"

definition parent_lines :: "nat \<Rightarrow> line list" where
  "parent_lines N = Child_terminated # map (\<lambda>i. Fibonacci i (fibonacci (of_nat i))) [0..<N] @ [Parent_exiting]"

definition fork_inv :: "nat \<Rightarrow> two_processes \<Rightarrow> bool" where
  "fork_inv N s \<longleftrightarrow> (\<exists>k j. k \<le> length (child_actions N) \<and> j \<le> length (parent_actions N) \<and>
     child_todo s = drop k (child_actions N) \<and> parent_todo s = drop j (parent_actions N) \<and>
     length (child_buffer s) = N \<and> length (parent_buffer s) = N \<and>
     (\<forall>i<min k N. child_buffer s ! i = factorial (of_nat i)) \<and> (\<forall>i<min j N. parent_buffer s ! i = fibonacci (of_nat i)) \<and>
     (N < j \<longrightarrow> child_todo s = []) \<and>
     terminal s = take (k - N) (child_lines N) @ take (j - Suc N) (parent_lines N))"

lemma length_actions [simp]:
  "length (child_actions N) = Suc (2 * N)" "length (parent_actions N) = 2 * N + 3"
  "length (child_lines N) = Suc N" "length (parent_lines N) = N + 2"
  by (simp_all add: child_actions_def parent_actions_def child_lines_def parent_lines_def)

lemma nth_child_action:
  "k < Suc (2 * N) \<Longrightarrow> child_actions N ! k = (if k < N then Compute k else if k < 2 * N then Print_item (k - N) else Print_exiting)"
  by (auto simp: child_actions_def nth_append)

lemma nth_parent_action:
  "j < 2 * N + 3 \<Longrightarrow> parent_actions N ! j = (if j < N then Compute j else if j = N then Wait else if j = Suc N then Print_status
    else if j < 2 * N + 2 then Print_item (j - N - 2) else Print_exiting)"
  by (auto simp: parent_actions_def nth_append nth_Cons')

lemma nth_lines:
  "k < Suc N \<Longrightarrow> child_lines N ! k = (if k < N then Factorial k (factorial (of_nat k)) else Child_exiting)"
  "j < N + 2 \<Longrightarrow> parent_lines N ! j = (if j = 0 then Child_terminated else if j \<le> N then Fibonacci (j - 1) (fibonacci (of_nat (j - 1)))
    else Parent_exiting)"
  by (auto simp: child_lines_def parent_lines_def nth_append nth_Cons')

lemma child_step_inv:
  assumes "child_step s = Some s'" and "fork_inv N s"
  shows "fork_inv N s'"
proof -
  from assms(2) obtain k j where kj: "k \<le> Suc (2 * N)" "j \<le> 2 * N + 3"
    "child_todo s = drop k (child_actions N)" "parent_todo s = drop j (parent_actions N)"
    "length (child_buffer s) = N" "length (parent_buffer s) = N"
    "\<forall>i<min k N. child_buffer s ! i = factorial (of_nat i)" "\<forall>i<min j N. parent_buffer s ! i = fibonacci (of_nat i)"
    "N < j \<longrightarrow> child_todo s = []" "terminal s = take (k - N) (child_lines N) @ take (j - Suc N) (parent_lines N)"
    by (auto simp: fork_inv_def)
  have k: "k < Suc (2 * N)"
  proof (rule ccontr)
    assume "\<not> k < Suc (2 * N)"
    then have "child_todo s = []" using kj(3) by simp
    with assms(1) show False by (simp add: child_step_def)
  qed
  then have todo: "child_todo s = child_actions N ! k # drop (Suc k) (child_actions N)"
    using kj(3) by (simp add: Cons_nth_drop_Suc)
  then have j: "j \<le> N" using kj(9) by (metis linorder_not_less list.distinct(1))
  consider "k < N" | "N \<le> k" "k < 2 * N" | "k = 2 * N" using k by linarith
  then show ?thesis
  proof cases
    case 1
    with assms(1) todo have s': "s' = s\<lparr>child_todo := drop (Suc k) (child_actions N),
        child_buffer := (child_buffer s)[k := factorial (of_nat k)]\<rparr>"
      by (simp add: child_step_def nth_child_action)
    show ?thesis unfolding fork_inv_def s'
      using 1 kj j by (rule_tac exI [of _ "Suc k"], rule_tac exI [of _ j]) (auto simp: nth_list_update less_Suc_eq)
  next
    case 2
    have "k - N < N" using 2 by linarith
    with assms(1) todo 2 kj(7) have s': "s' = s\<lparr>child_todo := drop (Suc k) (child_actions N),
        terminal := terminal s @ [Factorial (k - N) (factorial (of_nat (k - N)))]\<rparr>"
      by (simp add: child_step_def nth_child_action)
    show ?thesis unfolding fork_inv_def s'
      using 2 kj j by (rule_tac exI [of _ "Suc k"], rule_tac exI [of _ j])
        (simp add: Suc_diff_le take_Suc_conv_app_nth nth_lines)
  next
    case 3
    with assms(1) todo have s': "s' = s\<lparr>child_todo := drop (Suc k) (child_actions N),
        terminal := terminal s @ [Child_exiting]\<rparr>"
      by (simp add: child_step_def nth_child_action)
    show ?thesis unfolding fork_inv_def s'
      using 3 kj j by (rule_tac exI [of _ "Suc k"], rule_tac exI [of _ j])
        (simp add: child_lines_def)
  qed
qed

lemma parent_step_inv:
  assumes "parent_step s = Some s'" and "fork_inv N s"
  shows "fork_inv N s'"
proof -
  from assms(2) obtain k j where kj: "k \<le> Suc (2 * N)" "j \<le> 2 * N + 3"
    "child_todo s = drop k (child_actions N)" "parent_todo s = drop j (parent_actions N)"
    "length (child_buffer s) = N" "length (parent_buffer s) = N"
    "\<forall>i<min k N. child_buffer s ! i = factorial (of_nat i)" "\<forall>i<min j N. parent_buffer s ! i = fibonacci (of_nat i)"
    "N < j \<longrightarrow> child_todo s = []" "terminal s = take (k - N) (child_lines N) @ take (j - Suc N) (parent_lines N)"
    by (auto simp: fork_inv_def)
  have j: "j < 2 * N + 3"
  proof (rule ccontr)
    assume "\<not> j < 2 * N + 3"
    then have "parent_todo s = []" using kj(4) by simp
    with assms(1) show False by (simp add: parent_step_def)
  qed
  then have todo: "parent_todo s = parent_actions N ! j # drop (Suc j) (parent_actions N)"
    using kj(4) by (simp add: Cons_nth_drop_Suc)
  show ?thesis
  proof (cases "j \<le> N")
    case True
    have "parent_actions N ! j = (if j < N then Compute j else Wait)" using True j by (simp add: nth_parent_action)
    with assms(1) todo have s': "s' = s\<lparr>parent_todo := drop (Suc j) (parent_actions N), parent_buffer :=
        (if j < N then (parent_buffer s)[j := fibonacci (of_nat j)] else parent_buffer s)\<rparr>" "j = N \<longrightarrow> child_todo s = []"
      by (auto simp: parent_step_def split: if_splits)
    show ?thesis unfolding fork_inv_def s'(1)
      using True kj s'(2) by (rule_tac exI [of _ k], rule_tac exI [of _ "Suc j"]) (auto simp: nth_list_update less_Suc_eq)
  next
    case False
    define i where "i = j - Suc N"
    have i: "j = Suc N + i" "i < N + 2" using False j by (simp_all add: i_def)
    have "i - 1 < N" if "i \<noteq> 0" "i \<le> N" using that by linarith
    then have "s' = s\<lparr>parent_todo := drop (Suc j) (parent_actions N), terminal := terminal s @ [parent_lines N ! i]\<rparr>"
      using assms(1) todo i kj(8) by (auto simp: parent_step_def nth_parent_action nth_lines split: if_splits)
    then show ?thesis unfolding fork_inv_def
      using i kj by (rule_tac exI [of _ k], rule_tac exI [of _ "Suc j"]) (simp add: take_Suc_conv_app_nth)
  qed
qed

lemma processes_inv: "processes_reach (fork_processes N buffer) s \<Longrightarrow> length buffer = N \<Longrightarrow> fork_inv N s"
proof (induction rule: processes_reach.induct)
  case start
  then show ?case by (auto simp: fork_inv_def fork_processes_def intro!: exI [of _ 0])
qed (auto intro: child_step_inv parent_step_inv)

text \<open>The two functions compute modulo \<open>2 ^ 32\<close> what they are named after.\<close>

fun fib :: "nat \<Rightarrow> nat" where
  "fib 0 = 0" | "fib (Suc 0) = 1" | "fib (Suc (Suc n)) = fib (Suc n) + fib n"

lemma word32_inject: "m < 2 ^ 32 \<Longrightarrow> unat (of_nat m :: 32 word) = m"
  by (simp add: unsigned_of_nat take_bit_nat_eq_self)

lemma factorial_fact: "n < 2 ^ 32 \<Longrightarrow> factorial (of_nat n) = of_nat (fact n)"
proof (induction n)
  case (Suc n)
  have "(of_nat (Suc n) :: 32 word) \<noteq> 0" using word32_inject [OF Suc.prems] by (metis nat.distinct(1) unsigned_0)
  with Suc show ?case by (subst factorial.simps) (simp add: algebra_simps)
qed (simp add: factorial.simps)

lemma fibonacci_fib: "n < 2 ^ 32 \<Longrightarrow> fibonacci (of_nat n) = of_nat (fib n)"
proof (induction n rule: fib.induct)
  case (3 n)
  let ?w = "of_nat (Suc (Suc n)) :: 32 word"
  have "unat ?w = Suc (Suc n)" by (rule word32_inject [OF "3.prems"])
  then have "?w \<noteq> 0" "?w \<noteq> 1" by (metis nat.distinct(1) unsigned_0, metis One_nat_def nat.inject nat.distinct(1) unsigned_1)
  then have "fibonacci ?w = fibonacci (of_nat (Suc n)) + fibonacci (of_nat n)"
    by (subst fibonacci.simps) simp
  with 3 show ?case by simp
qed (simp_all add: fibonacci.simps)

text \<open>
  \<open>processes.c\<close>: in every interleaving of the child and the parent the lines printed are an initial
  part of the child's lines followed by the parent's, with the factorials and the Fibonacci
  numbers, and they are all of them when both have ended; the buffers do not interfere.
\<close>

theorem processes_output:
  assumes "processes_N argv = Done N" and "length buffer = N" and "processes_reach (fork_processes N buffer) s"
    and "expected = map (\<lambda>i. Factorial i (of_nat (fact i))) [0..<N] @ [Child_exiting, Child_terminated] @
      map (\<lambda>i. Fibonacci i (of_nat (fib i))) [0..<N] @ [Parent_exiting]"
  shows "N \<le> 10 \<and> prefix (terminal s) expected \<and> (parent_todo s = [] \<longrightarrow> terminal s = expected)"
proof -
  have N: "N \<le> 10" using assms(1) by (auto simp: processes_N_def split: if_splits)
  have "expected = child_lines N @ parent_lines N"
    unfolding assms(4) child_lines_def parent_lines_def using N factorial_fact fibonacci_fib by simp
  moreover from processes_inv [OF assms(3,2)] obtain k j where kj: "j \<le> 2 * N + 3" "k \<le> Suc (2 * N)"
    "child_todo s = drop k (child_actions N)" "parent_todo s = drop j (parent_actions N)"
    "N < j \<longrightarrow> child_todo s = []" "terminal s = take (k - N) (child_lines N) @ take (j - Suc N) (parent_lines N)"
    by (auto simp: fork_inv_def)
  moreover have "N < j \<Longrightarrow> k = Suc (2 * N)" using kj(2,3,5) by simp
  moreover have "\<not> N < j \<Longrightarrow> prefix (terminal s) (child_lines N)" using kj(6) by (simp add: take_is_prefix)
  ultimately show ?thesis using N by (cases "N < j") (auto simp: take_is_prefix intro: prefix_prefix)
qed

end
