(* ===== verification/Spec2Isabelle.thy ===== *)
theory Spec2Isabelle
  imports Producer_Consumer Async_Logger File_Copy Echo_Clients Time_Server Chat Named_Server Reactivity First_Programs
begin
text \<open>
  The programs of an operating systems course (C, POSIX): \<open>src/lab01-fork-ptr\<close> to
  \<open>src/lab11-echoserver-process-thread\<close>. Most are servers, clients and loggers of about 100 to 300
  lines that share some idioms: checked system calls (\<open>common.h\<close>), loops around partial reads and
  writes, a circular buffer between threads, semaphores that limit or order. The development
  models the programs one by one and proves the idioms once.

  \<^bold>\<open>How the code is modelled.\<close>
  \<^item> Sequential code (\<open>Posix_IO\<close>, and the handlers and clients that use it) passes a record \<open>io\<close>: the
    bytes of the peer, the bytes written, the terminal, the descriptors closed. The kernel is a
    list of answers in it: how many bytes a call moves, whether it is interrupted or fails. A theorem
    about all \<open>io\<close> is about all kernels. A result is \<open>Done\<close> a value, \<open>Exit\<close> a status (\<open>ERROR_HELPER\<close>),
    \<open>Undefined\<close> (an access outside of a buffer, an overflow), or \<open>Blocked\<close> when the answers are used
    up; every call uses an answer, so that the loops are functions with the measure
    \<open>length (answers w)\<close>, and ``enough answers'' is a hypothesis where a loop is claimed to return.
  \<^item> Concurrent code is a step function on a state of all threads, one statement (one load or one
    store of a shared variable) at a time, and an inductive predicate of the reachable states; the
    events choose the thread, so that a theorem holds for every interleaving. \<open>run_...\<close> executes
    a list of events in the witnesses.
  \<^item> Set-up code is a list of checked calls (\<open>check\<close>, \<open>run_checks\<close> in \<open>Prelude\<close>) that is run on the values
    the calls return.
  \<^item> \<open>int\<close> is \<open>int\<close> where it cannot overflow, a word of its width where it wraps around; \<open>strtol\<close>,
    \<open>atoi\<close>, \<open>printf\<close> of numbers are in \<open>C_Library\<close> and \<open>Chat\<close>.

  \<^bold>\<open>Which theory models what.\<close>
  \<^item> \<open>Prelude\<close>: counting over threads, \<open>common.h\<close>.
  \<^item> \<open>First_Programs\<close>: lab01 (\<open>arrayBounds.c\<close>, \<open>nullPtr.c\<close>, \<open>processes.c\<close>).
  \<^item> \<open>Accumulators\<close>, \<open>Reactivity\<close>: lab02 and lab03: lost updates of a shared variable, and the version
    without them, as whole programs; the timer (\<open>performance.c\<close>) on times that are a linear
    order; the averages of \<open>reactivity.c\<close> and \<open>sol-reactivity.c\<close>.
  \<^item> \<open>Recap\<close>, \<open>Scheduler\<close>, \<open>Named_Server\<close>: lab04 \<open>riepilogo.c\<close> (a barrier, a critical section over
    processes, a report); lab03 \<open>scheduler_solution.c\<close> and the threads of lab04 \<open>named_semaphore\<close>. The
    locale \<open>resource_pool\<close> is what a thread body has to do for the semaphore to count the holders;
    both bodies interpret it. \<open>Named_Server\<close> has the server of lab04, its signal handler (\<open>util.c\<close>) and
    its client processes as one system, with semaphores that outlive their name.
  \<^item> \<open>Ring_Machine\<close>, \<open>Ring_Contract\<close>, \<open>Producer_Consumer\<close>: lab05. The first has the statements and the
    steps, the second the locale of the contract (the order of the statements) with the invariant,
    the third the four programs as lists of statements and the interpretations.
  \<^item> \<open>File_Copy\<close>, \<open>Time_Server\<close>: lab06.
  \<^item> \<open>Stream_Contract\<close>, \<open>Echo_Service\<close>: the locales of what receives, what sends, and the echo loop
    over them. \<open>Echo_Servers\<close>: the connection handlers of lab08, lab09 and lab11; each interprets the
    locales with its own loops and their own assumptions on the kernel. \<open>Echo_Clients\<close>: the clients,
    with a locale of their own. \<open>Echo_Fifo\<close>: lab09 \<open>EchoFIFO\<close>, both processes.
  \<^item> \<open>Accept_Loop\<close>: the accept loops of lab08, lab09 and lab11 with the semaphore that limits the
    connections and the arguments handed to the threads.
  \<^item> \<open>Async_Logger\<close>: the logger thread of lab11 (another instance of the ring contract) and the logger
    process of lab09.
  \<^item> \<open>Chat\<close>: lab10, two processes with two threads each.

  \<^bold>\<open>What is proved.\<close> Refinement: the circular buffers are bounded queues and the deposit is the sum
  of the items (\<open>mm_bounded_fifo\<close> and the same for the other three programs), the log file is what was logged (\<open>es_log_complete\<close>,
  \<open>pipe_log_complete\<close>), a chat delivers a prefix of what was typed (\<open>chat_delivers\<close>). Safety and
  invariants: mutual exclusion, the limits on connections and resources, the barrier. Liveness: no
  deadlock. Functional behaviour of the sessions on every branch, with interruptions and
  partial transfers, and of clients and servers together; of the process server, with the accept loop
  and the handlers of its children (\<open>process_server_slots\<close>, below). Errors: what the code does wrong is
  stated as a theorem where it can be (\<open>stale_EINTR_floods\<close>, \<open>es_overflow\<close>, \<open>mp_starves\<close>,
  \<open>base_spins_after_close\<close>, \<open>base_client_answers_itself\<close>, \<open>chat_long_line_overflows\<close>, \<open>named_restart\<close>).

  \<^bold>\<open>Bounds.\<close> The lines typed have at most 1022 characters where they are to arrive as lines (the
  buffers have 1024 bytes with newline and terminator); the file copied and the numbers of threads are
  arbitrary; \<open>racy_report\<close> asks for a positive value and no overflow of 64 bits; \<open>timer_exact\<close> for
  less than \<open>2 ^ 64\<close> nanoseconds, \<open>sol_concurrent_exact\<close> for less than \<open>2 ^ 51\<close> (26 days).

  \<^bold>\<open>Not modelled.\<close> \<open>SIGPIPE\<close> and the delivery of other signals, but for the flags that handlers set;
  failures of \<open>malloc\<close> (the code does not check them) and of \<open>sem_wait\<close> and \<open>sem_post\<close> inside the
  critical sections where they only end the process; \<open>sleep\<close> and \<open>nanosleep\<close>; the debug output of
  servers where nothing depends on it. \<open>distance.c\<close> and the speed-ups of lab02 are floating point
  numbers.
\<close>

section \<open>A client and a server\<close>

text \<open>
  C13: the client and the server of \<open>ES-MT-Logger\<close>: while each of the user's messages is sent and
  received in one piece, the two programs fit together: what the server receives is what the
  client sends, and the other way round; both loops return, the user sees every message as the
  server's response, and the log has one line for each message, in the order they were typed.
\<close>

theorem client_and_server:
  assumes "\<forall>m\<in>set ms. m \<noteq> SERVER_COMMAND \<and> m \<noteq> [] \<and> length m \<le> 1022 \<and> NL \<notin> set m \<and> NUL \<notin> set m"
    and "length buf = 1024"
    and client: "c = client_io ms to_client (echo_turns ms)"
    and server: "s = fresh_io to_server (one_by_one ms @ [Xfer 3 0])"
    and "to_server = concat ms @ SERVER_COMMAND" and "to_client = concat ms"
  shows "\<exists>c' s'. mp_client_loop buf c = (Done (), c') \<and> es_echo_loop ip port s = (Done (), s') \<and>
    out c' = to_server \<and> out s' = to_client \<and> stdout c' = transcript ms \<and>
    logged s' = map (my_log_item \<circ> log_line ip port) (ms @ [SERVER_COMMAND])"
proof -
  have c: "stdin c = typed ms" "inp c = concat ms @ []" "answers c = echo_turns ms @ []" "errno c \<noteq> EINTR"
    "out c = []" "stdout c = []"
    using assms by (simp_all add: client_io_def fresh_io_def)
  have s: "inp s = concat ms @ SERVER_COMMAND @ []" "answers s = one_by_one ms @ Xfer 3 0 # []" "errno s \<noteq> EINTR"
    "out s = []" "logged s = []"
    using assms by (simp_all add: fresh_io_def)
  from mp_client_talks [OF assms(1,2) c(4,1,2,3)] obtain c' where
    "mp_client_loop buf c = (Done (), c')" "out c' = concat ms @ SERVER_COMMAND" "stdout c' = transcript ms"
    using c by auto
  moreover have "\<forall>m\<in>set ms. m \<noteq> SERVER_COMMAND \<and> m \<noteq> [] \<and> length m < 1024" using assms(1) by auto
  from es_talks [OF this s(3,1,2)] obtain s' where "es_echo_loop ip port s = (Done (), s')" "out s' = concat ms"
    "logged s' = map (my_log_item \<circ> log_line ip port) (ms @ [SERVER_COMMAND])"
    using s by auto
  ultimately show ?thesis using assms(5,6) by (intro exI [of _ c'] exI [of _ s']) simp
qed

theorem client_and_server_witness:
  "\<exists>c' s'. mp_client_loop blank (client_io [''hi'', ''you''] ''hiyou'' (echo_turns [''hi'', ''you''])) =
      (Done (), c') \<and>
    es_echo_loop ''127.0.0.1'' 5000 (fresh_io ''hiyouQUIT'' (one_by_one [''hi'', ''you''] @ [Xfer 3 0])) = (Done (), s') \<and>
    out c' = ''hiyouQUIT'' \<and> out s' = ''hiyou''"
proof -
  have "\<forall>m\<in>set [''hi'', ''you'']. m \<noteq> SERVER_COMMAND \<and> m \<noteq> [] \<and> length m \<le> 1022 \<and> NL \<notin> set m \<and> NUL \<notin> set m"
    by (simp add: SERVER_COMMAND_def NUL_def NL_def)
  moreover have "''hiyouQUIT'' = concat [''hi'', ''you''] @ SERVER_COMMAND" "''hiyou'' = concat [''hi'', ''you'']"
    by (simp_all add: SERVER_COMMAND_def)
  ultimately show ?thesis
    using client_and_server [OF _ length_blank refl refl, of "[''hi'', ''you'']" "''hiyouQUIT''" "''hiyou''" "''127.0.0.1''" 5000]
    by blast
qed

section \<open>The accept loop and its children\<close>

text \<open>The event of the accept loop that the end of a child is.\<close>

definition child_event :: "nat \<Rightarrow> int \<Rightarrow> sevent" where
  "child_event i status = (if status = 0 then Worker_returns i else Worker_fails i)"

lemma mp_child_result:
  assumes "uninterrupted w" and "length ip < 16" and "mp_child pid ip port w = (Exit n, w')"
  shows "sem_posts w' = sem_posts w + (if n = 0 then 1 else 0)"
proof -
  obtain r1 w1 where cl: "sys_close ''listening socket'' w = (r1, w1)" by fastforce
  then have w1: "sem_posts w1 = sem_posts w" "uninterrupted w1"
    using assms(1) by (auto simp: sys_close_def uninterrupted_def split: list.splits answer.splits)
  show ?thesis
  proof (cases "r1 = Done 0")
    case True
    obtain r2 w2 where h: "mp_connection_handler pid ip port w1 = (r2, w2)" by fastforce
    with assms(3) cl True have "w2 = w'" "r2 = Done () \<and> n = 0 \<or> r2 = Exit n"
      by (cases r2; simp add: mp_child_def)+
    with mp_handler_session [OF w1(2) assms(2) h] w1(1) show ?thesis by auto
  next
    case False
    with assms(3) cl have "n = 1" "sem_posts w' = sem_posts w1"
      by (auto simp: mp_child_def sys_close_def error_exit_def split: list.splits answer.splits)
    with w1(1) show ?thesis by simp
  qed
qed



end
